(* ===== verification/Mjs_Prelude.thy ===== *)
theory Mjs_Prelude
  imports Main "HOL-Library.Word"
begin

unbundle bit_operations_syntax

text \<open>
  Shared vocabulary of the development: the C integer types as words, the errno constants
  the sources name, out-parameters that may be NULL, results of host calls, and the generic
  lemmas on words and lists that the component theories use.

  C \<^verbatim>\<open>int\<close> return codes are \<^typ>\<open>int\<close> values (0, or minus an errno); 32- and 64-bit unsigned
  fields are words. The errno numbers are those of Linux; the sources use the constants
  symbolically, and no theorem depends on more than their sign and their being distinct.
\<close>

section \<open>Types\<close>

type_synonym u16 = "16 word"
type_synonym u32 = "32 word"
type_synonym u64 = "64 word"
type_synonym size_t = "64 word"
type_synonym addr = "64 word"

text \<open>
  An out-parameter: \<^term>\<open>None\<close> is the NULL pointer, \<^term>\<open>Some v\<close> a pointer to a slot that
  holds \<open>v\<close>. A function that writes an out-parameter returns the slot's new contents.
\<close>

type_synonym 'a slot = "'a option"

text \<open>
  The answer of a host call (a system call or a libc routine): \<^term>\<open>Inl e\<close> when the call
  fails with errno \<open>e\<close>, \<^term>\<open>Inr v\<close> when it succeeds with the value \<open>v\<close>.
\<close>

type_synonym 'a host = "int + 'a"

section \<open>Errno constants\<close>

abbreviation (input) ENOENT :: int where "ENOENT \<equiv> 2"
abbreviation (input) EINTR :: int where "EINTR \<equiv> 4"
abbreviation (input) EIO :: int where "EIO \<equiv> 5"
abbreviation (input) EBADF :: int where "EBADF \<equiv> 9"
abbreviation (input) EAGAIN :: int where "EAGAIN \<equiv> 11"
abbreviation (input) ENOMEM :: int where "ENOMEM \<equiv> 12"
abbreviation (input) EFAULT :: int where "EFAULT \<equiv> 14"
abbreviation (input) EBUSY :: int where "EBUSY \<equiv> 16"
abbreviation (input) EEXIST :: int where "EEXIST \<equiv> 17"
abbreviation (input) EINVAL :: int where "EINVAL \<equiv> 22"
abbreviation (input) ENOSPC :: int where "ENOSPC \<equiv> 28"
abbreviation (input) ENAMETOOLONG :: int where "ENAMETOOLONG \<equiv> 36"
abbreviation (input) ENOSYS :: int where "ENOSYS \<equiv> 38"
abbreviation (input) EOVERFLOW :: int where "EOVERFLOW \<equiv> 75"
abbreviation (input) ENOTSUP :: int where "ENOTSUP \<equiv> 95"
abbreviation (input) ETIMEDOUT :: int where "ETIMEDOUT \<equiv> 110"

section \<open>The return-code contract\<close>

text \<open>Every errno-style entry point promises 0 or a negative value.\<close>

definition rc_ok :: "int \<Rightarrow> bool" where
  "rc_ok rc \<longleftrightarrow> rc \<le> 0"

text \<open>A failing host call reports a positive errno.\<close>

definition errno_pos :: "'a host \<Rightarrow> bool" where
  "errno_pos h \<longleftrightarrow> (case h of Inl e \<Rightarrow> 0 < e | Inr _ \<Rightarrow> True)"

lemma errno_pos_simps [simp]:
  "errno_pos (Inl e) \<longleftrightarrow> 0 < e"
  "errno_pos (Inr v)"
  by (simp_all add: errno_pos_def)

text \<open>The pthread family returns its error number instead of setting errno.\<close>

definition neg_rc :: "int \<Rightarrow> int" where
  "neg_rc rc = (if rc = 0 then 0 else - rc)"

lemma neg_rc_simps [simp]:
  "neg_rc 0 = 0"
  "neg_rc rc = 0 \<longleftrightarrow> rc = 0"
  "0 \<le> rc \<Longrightarrow> neg_rc rc \<le> 0"
  "0 \<le> rc \<Longrightarrow> neg_rc rc < 0 \<longleftrightarrow> rc \<noteq> 0"
  by (auto simp: neg_rc_def)

lemma option_eqI: "(\<And>x. a = Some x \<longleftrightarrow> b = Some x) \<Longrightarrow> a = b"
  by (cases a; cases b) auto

section \<open>Words\<close>

named_theorems word_nat \<open>rules that move goals on words to natural numbers\<close>

lemma word_less_unat [word_nat]: "(a :: 'a::len word) < b \<longleftrightarrow> unat a < unat b"
  by (rule word_less_nat_alt)

lemma word_le_unat [word_nat]: "(a :: 'a::len word) \<le> b \<longleftrightarrow> unat a \<le> unat b"
  by (rule word_le_nat_alt)

lemma word_eq_unat [word_nat]: "(a :: 'a::len word) = b \<longleftrightarrow> unat a = unat b"
  by (simp add: word_unat_eq_iff)

lemma unat_lt64 [simp]: "unat (x :: u64) < 18446744073709551616"
  using unsigned_less [of x] by simp

lemma unat_le64 [simp]: "unat (x :: u64) \<le> 18446744073709551615"
  using unat_lt64 [of x] by linarith

lemma unat_lt32 [simp]: "unat (x :: u32) < 4294967296"
  using unsigned_less [of x] by simp

lemma unat_max64: "unat (- 1 :: u64) = 18446744073709551615"
  by (simp add: unsigned_minus_1_eq_mask mask_eq_exp_minus_1)

lemma unat_add64:
  "unat (a :: u64) + unat b < 18446744073709551616 \<Longrightarrow> unat (a + b) = unat a + unat b"
  using unat_add_lem [of a b] by simp

lemma unat_sub64: "unat (b :: u64) \<le> unat a \<Longrightarrow> unat (a - b) = unat a - unat b"
  by (simp add: unat_sub word_le_nat_alt)

lemma unat_mult64:
  "unat (a :: u64) * unat b < 18446744073709551616 \<Longrightarrow> unat (a * b) = unat a * unat b"
  using unat_mult_lem [of a b] by simp

lemma unat_sub_max: "unat (- 1 - (g :: u64)) = 18446744073709551615 - unat g"
  by (subst unat_sub64) (simp_all add: unat_max64)

lemma unat_inc64: "(x :: u64) \<noteq> - 1 \<Longrightarrow> unat (x + 1) = unat x + 1"
proof -
  assume "x \<noteq> - 1"
  then have "unat x \<noteq> 18446744073709551615"
    using unat_max64 by (auto simp: word_eq_unat)
  then have "unat x < 18446744073709551615"
    using unat_le64 [of x] by linarith
  then show ?thesis
    by (subst unat_add64) simp_all
qed

lemma unat_of_int64: "0 \<le> x \<Longrightarrow> x < 2 ^ 64 \<Longrightarrow> unat (of_int x :: u64) = nat x"
  by (simp add: unsigned_of_int take_bit_int_eq_self)

lemma unat_of_nat64: "n < 18446744073709551616 \<Longrightarrow> unat (of_nat n :: u64) = n"
  by (simp add: unat_of_nat)

lemma low4_zero: "(x :: u64) AND 15 = 0 \<longleftrightarrow> 16 dvd unat x"
proof -
  have "x AND 15 = take_bit 4 x"
    by (simp add: take_bit_eq_mask mask_eq_exp_minus_1)
  then show ?thesis
    by (simp add: word_eq_unat take_bit_eq_mod unat_mod dvd_eq_mod_eq_0)
qed

section \<open>Rounding up to a multiple\<close>

definition nat_round_up :: "nat \<Rightarrow> nat \<Rightarrow> nat" where
  "nat_round_up n a = (n + a - 1) div a * a"

lemma nat_round_up_ge: "0 < a \<Longrightarrow> n \<le> nat_round_up n a"
proof -
  assume a: "0 < a"
  have "(n + a - 1) div a * a + (n + a - 1) mod a = n + a - 1"
    by (rule div_mult_mod_eq)
  moreover have "(n + a - 1) mod a < a"
    using a by simp
  ultimately show ?thesis
    unfolding nat_round_up_def by linarith
qed

lemma nat_round_up_less: "0 < a \<Longrightarrow> nat_round_up n a < n + a"
proof -
  assume "0 < a"
  then have "(n + a - 1) div a * a \<le> n + a - 1"
    by (simp add: div_times_less_eq_dividend)
  with \<open>0 < a\<close> show ?thesis
    unfolding nat_round_up_def by linarith
qed

lemma nat_round_up_dvd [simp]: "a dvd nat_round_up n a"
  by (simp add: nat_round_up_def)

lemma nat_round_up_least:
  assumes "n \<le> m" and "a dvd m" and "0 < a"
  shows "nat_round_up n a \<le> m"
proof -
  from assms(2) obtain k where k: "m = a * k" by (rule dvdE)
  have "(n + a - 1) div a \<le> (a * k + a - 1) div a"
    using assms k by (intro div_le_mono) simp
  also have "a * k + a - 1 = (a - 1) + a * k"
    using assms(3) by simp
  also have "((a - 1) + a * k) div a = k"
    using assms(3) by (subst div_mult_self2) simp_all
  finally show ?thesis
    using k by (simp add: nat_round_up_def mult.commute)
qed

lemma nat_round_up_id: "a dvd n \<Longrightarrow> 0 < a \<Longrightarrow> nat_round_up n a = n"
  using nat_round_up_ge [of a n] nat_round_up_least [of n n a] by simp

lemma nat_round_up_pos: "0 < a \<Longrightarrow> 0 < n \<Longrightarrow> 0 < nat_round_up n a"
  using nat_round_up_ge [of a n] by simp

text \<open>A window of fewer than \<open>c\<close> consecutive indices has no collision modulo \<open>c\<close>.\<close>

lemma shift_mod_inj: "(a + i) mod c = (a + j) mod (c :: nat) \<Longrightarrow> i < c \<Longrightarrow> j < c \<Longrightarrow> i = j"
proof (induction i j rule: linorder_wlog)
  case (le i j)
  then have "c dvd a + j - (a + i)"
    by (metis add_left_mono mod_eq_dvd_iff_nat)
  then have "c dvd j - i" by simp
  with le show ?case
    by (metis diff_is_0_eq' dvd_imp_le le_antisym less_imp_diff_less not_gr_zero not_le zero_less_diff)
next
  case (sym i j)
  then show ?case by metis
qed

end
