(* ===== verification/Mjs_Page.thy ===== *)
theory Mjs_Page
  imports Mjs_Prelude
begin

text \<open>
  Page-size and granularity queries (native/posix/mjs\_page.c). The static \<open>g_page_size\<close> is
  the explicit state \<open>c\<close> (0 until the first query); \<open>sc\<close> is what
  \<open>sysconf(_SC_PAGESIZE)\<close> answers at this call.
\<close>

section \<open>Definitions\<close>

text \<open>The version query of native/posix/mjs\_abi.c.\<close>

definition MOJITO_SYS_ABI_VERSION :: int where
  "MOJITO_SYS_ABI_VERSION = 1"

definition mjs_abi_version :: int where
  "mjs_abi_version = MOJITO_SYS_ABI_VERSION"

text \<open>Conversion of a C \<open>long\<close> to \<open>int\<close>: the low 32 bits, read as two's complement.\<close>

definition c_int_of :: "int \<Rightarrow> int" where
  "c_int_of x = sint (of_int x :: 32 word)"

definition host_page_size :: "int \<Rightarrow> int \<Rightarrow> int \<times> int" where
  "host_page_size sc c =
     (let c' = (if c = 0 then (if sc > 0 \<and> sc \<le> 2147483647 then sc else 4096) else c)
      in (c', c'))"

definition mjs_page_size :: "int \<Rightarrow> int \<Rightarrow> int \<times> int" where
  "mjs_page_size sc c = (let (ps, c') = host_page_size sc c in (c_int_of ps, c'))"

definition mjs_granularity :: "int \<Rightarrow> int \<Rightarrow> int \<times> int" where
  "mjs_granularity sc c = (let (ps, c') = host_page_size sc c in (c_int_of ps, c'))"

text \<open>The cache is either unset or holds a positive \<open>int\<close>.\<close>

definition page_cache_ok :: "int \<Rightarrow> bool" where
  "page_cache_ok c \<longleftrightarrow> 0 \<le> c \<and> c \<le> 2147483647"

text \<open>A run of queries against successive \<open>sysconf\<close> answers.\<close>

fun page_queries :: "int list \<Rightarrow> int \<Rightarrow> int list" where
  "page_queries [] c = []"
| "page_queries (sc # scs) c = (let (v, c') = mjs_page_size sc c in v # page_queries scs c')"

section \<open>Lemmas\<close>

lemma c_int_of_id: "- 2147483648 \<le> x \<Longrightarrow> x \<le> 2147483647 \<Longrightarrow> c_int_of x = x"
  by (simp add: c_int_of_def signed_of_int signed_take_bit_int_eq_self)

lemma host_page_size_cached: "c \<noteq> 0 \<Longrightarrow> host_page_size sc c = (c, c)"
  by (simp add: host_page_size_def)

lemma host_page_size_range:
  assumes "page_cache_ok c" and "host_page_size sc c = (v, c')"
  shows "0 < v" and "v \<le> 2147483647" and "c' = v"
  using assms by (auto simp: host_page_size_def page_cache_ok_def Let_def split: if_splits)

lemma mjs_page_size_range:
  assumes "page_cache_ok c" and "mjs_page_size sc c = (v, c')"
  shows "0 < v" and "v \<le> 2147483647" and "c' = v" and "page_cache_ok c'"
proof -
  obtain ps where ps: "host_page_size sc c = (ps, c')" and v: "v = c_int_of ps"
    using assms(2) by (auto simp: mjs_page_size_def split: prod.splits)
  note r = host_page_size_range [OF assms(1) ps]
  with v have "v = ps" by (simp add: c_int_of_id)
  with r show "0 < v" "v \<le> 2147483647" "c' = v" "page_cache_ok c'"
    by (auto simp: page_cache_ok_def)
qed

lemma mjs_granularity_eq: "mjs_granularity sc c = mjs_page_size sc c"
  by (simp add: mjs_granularity_def mjs_page_size_def)

lemma mjs_page_size_cached:
  "0 < c \<Longrightarrow> page_cache_ok c \<Longrightarrow> mjs_page_size sc c = (c, c)"
  by (simp add: mjs_page_size_def host_page_size_def page_cache_ok_def c_int_of_id)

lemma page_queries_cached:
  "0 < c \<Longrightarrow> page_cache_ok c \<Longrightarrow> page_queries scs c = replicate (length scs) c"
  by (induction scs) (simp_all add: mjs_page_size_cached)

end
