(* ===== verification/Mjs_VM.thy ===== *)
theory Mjs_VM
  imports Mjs_Page
begin

text \<open>
  Virtual-memory primitives (native/posix/mjs\_vm.c). The kernel's address space is a state
  of an arbitrary type \<open>'w\<close>, and \<open>mmap\<close>, \<open>mprotect\<close> and \<open>munmap\<close> are the fields of a
  record \<open>'w vm_kernel\<close> that every operation takes as an argument. What the operations rely
  on of the kernel is \<open>posix_vm\<close>, the documented behaviour of the three calls on a byte view
  of the address space; \<open>flat_kernel\<close> is an address space that satisfies it.
\<close>

section \<open>The host interface\<close>

abbreviation (input) PROT_NONE :: int where "PROT_NONE \<equiv> 0"
abbreviation (input) PROT_RW :: int where "PROT_RW \<equiv> 3"

text \<open>
  \<open>k_mmap\<close> is the anonymous private mapping call: address hint (0 is NULL), length,
  protection, whether \<open>MAP_FIXED\<close> is set.
\<close>

record 'w vm_kernel =
  k_mmap :: "addr \<Rightarrow> size_t \<Rightarrow> int \<Rightarrow> bool \<Rightarrow> 'w \<Rightarrow> addr host \<times> 'w"
  k_mprotect :: "addr \<Rightarrow> size_t \<Rightarrow> int \<Rightarrow> 'w \<Rightarrow> unit host \<times> 'w"
  k_munmap :: "addr \<Rightarrow> size_t \<Rightarrow> 'w \<Rightarrow> unit host \<times> 'w"

section \<open>Definitions\<close>

definition vm_page_size :: "int \<Rightarrow> size_t" where
  "vm_page_size sc = (if sc > 0 then of_int sc else 16384)"

definition round_up :: "size_t \<Rightarrow> size_t \<Rightarrow> size_t" where
  "round_up n a = (n + a - 1) div a * a"

definition fail :: "int \<Rightarrow> int" where
  "fail e = - e"

text \<open>The granule \<open>mjs_vm_reserve\<close> rounds to, from the page size and \<open>mjs_granularity()\<close>.\<close>

definition reserve_gran :: "size_t \<Rightarrow> int \<Rightarrow> size_t" where
  "reserve_gran ps g = (if g > 0 \<and> ps \<le> of_int g then of_int g else ps)"

text \<open>
  \<open>mjs_vm_reserve\<close>: \<open>sc\<close> is \<open>sysconf(_SC_PAGESIZE)\<close>, \<open>c\<close> the cache of mjs\_page.c.
\<close>

definition mjs_vm_reserve ::
    "'w vm_kernel \<Rightarrow> int \<Rightarrow> size_t \<Rightarrow> addr slot \<Rightarrow> size_t slot \<Rightarrow> int \<times> 'w
      \<Rightarrow> int \<times> addr slot \<times> size_t slot \<times> (int \<times> 'w)" where
  "mjs_vm_reserve K sc bytes out_base out_reserved cw =
     (let (c, w) = cw in
      if out_base = None \<or> out_reserved = None
      then (fail EINVAL, out_base, out_reserved, c, w)
      else
        let ps = vm_page_size sc;
            (g, c') = mjs_granularity sc c;
            gran = reserve_gran ps g
        in if bytes > - 1 - gran
           then (fail EINVAL, out_base, out_reserved, c', w)
           else
             let total = round_up (if bytes = 0 then gran else bytes) gran
             in case k_mmap K 0 total PROT_NONE False w of
                  (Inl e, w') \<Rightarrow> (fail e, out_base, out_reserved, c', w')
                | (Inr base, w') \<Rightarrow> (0, Some base, Some total, c', w'))"

text \<open>The cursor operations take the slot \<open>*addr\<close>: \<^term>\<open>None\<close> when \<open>addr\<close> is NULL.\<close>

definition mjs_vm_commit ::
    "'w vm_kernel \<Rightarrow> addr slot \<Rightarrow> size_t \<Rightarrow> 'w \<Rightarrow> int \<times> addr slot \<times> 'w" where
  "mjs_vm_commit K addr len w =
     (case addr of
        None \<Rightarrow> (fail EINVAL, addr, w)
      | Some a \<Rightarrow>
          if a = 0 then (fail EINVAL, addr, w)
          else if len = 0 then (0, addr, w)
          else case k_mprotect K a len PROT_RW w of
                 (Inl e, w') \<Rightarrow> (fail e, addr, w')
               | (Inr _, w') \<Rightarrow> (0, Some (a + len), w'))"

definition mjs_vm_decommit ::
    "'w vm_kernel \<Rightarrow> addr slot \<Rightarrow> size_t \<Rightarrow> 'w \<Rightarrow> int \<times> addr slot \<times> 'w" where
  "mjs_vm_decommit K addr len w =
     (case addr of
        None \<Rightarrow> (fail EINVAL, addr, w)
      | Some a \<Rightarrow>
          if a = 0 then (fail EINVAL, addr, w)
          else if len = 0 then (0, addr, w)
          else case k_mprotect K a len PROT_NONE w of
                 (Inl e, w') \<Rightarrow> (fail e, addr, w')
               | (Inr _, w') \<Rightarrow>
                   (case k_mmap K a len PROT_NONE True w' of
                      (Inl e, w'') \<Rightarrow> (fail e, addr, w'')
                    | (Inr _, w'') \<Rightarrow> (0, Some (a + len), w'')))"

definition mjs_vm_protect ::
    "'w vm_kernel \<Rightarrow> addr \<Rightarrow> size_t \<Rightarrow> int \<Rightarrow> 'w \<Rightarrow> int \<times> 'w" where
  "mjs_vm_protect K a len flags w =
     (if a = 0 then (fail EINVAL, w)
      else if len = 0 then (0, w)
      else case k_mprotect K a len flags w of
             (Inl e, w') \<Rightarrow> (fail e, w')
           | (Inr _, w') \<Rightarrow> (0, w'))"

definition mjs_vm_release ::
    "'w vm_kernel \<Rightarrow> addr slot \<Rightarrow> size_t \<Rightarrow> 'w \<Rightarrow> int \<times> addr slot \<times> 'w" where
  "mjs_vm_release K base reserved w =
     (case base of
        None \<Rightarrow> (fail EINVAL, base, w)
      | Some b \<Rightarrow>
          if b = 0 then (fail EINVAL, base, w)
          else case k_munmap K b reserved w of
                 (Inl e, w') \<Rightarrow> (fail e, base, w')
               | (Inr _, w') \<Rightarrow> (0, Some 0, w'))"

section \<open>What the kernel promises\<close>

text \<open>
  A byte view gives each address its protection and contents, or \<^term>\<open>None\<close> where nothing is
  mapped. The laws are those POSIX states for page-multiple lengths: a successful call changes
  its range and nothing else; a failed \<open>mprotect\<close> may have changed some pages of the range,
  a failed \<open>MAP_FIXED\<close> mapping may have unmapped some.
\<close>

type_synonym mem_view = "addr \<Rightarrow> (int \<times> 8 word) option"

definition in_range :: "addr \<Rightarrow> size_t \<Rightarrow> addr \<Rightarrow> bool" where
  "in_range a n x \<longleftrightarrow> unat a \<le> unat x \<and> unat x < unat a + unat n"

definition set_prot :: "int \<Rightarrow> (int \<times> 8 word) option \<Rightarrow> (int \<times> 8 word) option" where
  "set_prot p m = map_option (\<lambda>(_, b). (p, b)) m"

definition mprotect_law :: "'w vm_kernel \<Rightarrow> ('w \<Rightarrow> mem_view) \<Rightarrow> nat \<Rightarrow> bool" where
  "mprotect_law K V P \<longleftrightarrow> (\<forall>a n p w r w'. P dvd unat n \<longrightarrow> k_mprotect K a n p w = (r, w') \<longrightarrow>
     (case r of
        Inl e \<Rightarrow> 0 < e \<and> (\<forall>x. V w' x = V w x \<or> in_range a n x \<and> V w' x = set_prot p (V w x))
      | Inr _ \<Rightarrow> (\<forall>x. V w' x = (if in_range a n x then set_prot p (V w x) else V w x))))"

definition mmap_fixed_law :: "'w vm_kernel \<Rightarrow> ('w \<Rightarrow> mem_view) \<Rightarrow> nat \<Rightarrow> bool" where
  "mmap_fixed_law K V P \<longleftrightarrow> (\<forall>a n p w r w'. P dvd unat n \<longrightarrow> k_mmap K a n p True w = (r, w') \<longrightarrow>
     (case r of
        Inl e \<Rightarrow> 0 < e \<and> (\<forall>x. V w' x = V w x \<or> in_range a n x \<and> V w' x = None)
      | Inr b \<Rightarrow> b = a \<and> (\<forall>x. V w' x = (if in_range a n x then Some (p, 0) else V w x))))"

definition mmap_anon_law :: "'w vm_kernel \<Rightarrow> ('w \<Rightarrow> mem_view) \<Rightarrow> nat \<Rightarrow> bool" where
  "mmap_anon_law K V P \<longleftrightarrow> (\<forall>n p w r w'. P dvd unat n \<longrightarrow> k_mmap K 0 n p False w = (r, w') \<longrightarrow>
     (case r of
        Inl e \<Rightarrow> 0 < e \<and> V w' = V w
      | Inr b \<Rightarrow> b \<noteq> 0 \<and> P dvd unat b \<and> unat b + unat n < 18446744073709551616 \<and>
          (\<forall>x. in_range b n x \<longrightarrow> V w x = None) \<and>
          (\<forall>x. V w' x = (if in_range b n x then Some (p, 0) else V w x))))"

definition munmap_law :: "'w vm_kernel \<Rightarrow> ('w \<Rightarrow> mem_view) \<Rightarrow> nat \<Rightarrow> bool" where
  "munmap_law K V P \<longleftrightarrow> (\<forall>a n w r w'. P dvd unat n \<longrightarrow> k_munmap K a n w = (r, w') \<longrightarrow>
     (case r of
        Inl e \<Rightarrow> 0 < e \<and> V w' = V w
      | Inr _ \<Rightarrow> (\<forall>x. V w' x = (if in_range a n x then None else V w x))))"

definition posix_vm :: "'w vm_kernel \<Rightarrow> ('w \<Rightarrow> mem_view) \<Rightarrow> nat \<Rightarrow> bool" where
  "posix_vm K V P \<longleftrightarrow>
     mprotect_law K V P \<and> mmap_fixed_law K V P \<and> mmap_anon_law K V P \<and> munmap_law K V P"

definition accessible :: "(int \<times> 8 word) option \<Rightarrow> bool" where
  "accessible m \<longleftrightarrow> (case m of None \<Rightarrow> False | Some (p, _) \<Rightarrow> p \<noteq> PROT_NONE)"

text \<open>
  A concrete address space: everything from page \<open>nx\<close> on is unmapped, and anonymous mappings
  are placed there. Calls beyond the byte limit \<open>lim\<close>, fixed mappings beyond page \<open>nx\<close>, and
  \<open>mmap\<close> and \<open>munmap\<close> calls of length 0 fail and change nothing.
\<close>

type_synonym flat_space = "nat \<times> mem_view"

definition flat_view :: "flat_space \<Rightarrow> mem_view" where
  "flat_view s x = (if unat x < fst s * 4096 then snd s x else None)"

definition flat_kernel :: "nat \<Rightarrow> flat_space vm_kernel" where
  "flat_kernel lim = \<lparr>
     k_mmap = (\<lambda>a n p fixed s.
       if n = 0 then (Inl EINVAL, s)
       else if fixed then
         if unat a + unat n \<le> fst s * 4096
         then (Inr a, fst s, \<lambda>x. if in_range a n x then Some (p, 0) else flat_view s x)
         else (Inl ENOMEM, s)
       else
         let nx = max 16 (fst s); end = nx * 4096 + unat n in
         if end \<le> lim \<and> end < 18446744073709551616
         then (Inr (of_nat (nx * 4096)), nx + (unat n + 4095) div 4096,
               \<lambda>x. if in_range (of_nat (nx * 4096)) n x then Some (p, 0) else flat_view s x)
         else (Inl ENOMEM, s)),
     k_mprotect = (\<lambda>a n p s.
       if unat a + unat n \<le> lim
       then (Inr (), fst s, \<lambda>x. if in_range a n x then set_prot p (flat_view s x) else flat_view s x)
       else (Inl ENOMEM, s)),
     k_munmap = (\<lambda>a n s.
       if n \<noteq> 0 \<and> unat a + unat n \<le> lim
       then (Inr (), fst s, \<lambda>x. if in_range a n x then None else flat_view s x)
       else (Inl EINVAL, s))\<rparr>"

section \<open>Lemmas\<close>

lemma fail_simps [simp]: "fail e = - e"
  by (simp add: fail_def)

subsection \<open>Rounding\<close>

lemma unat_round_up:
  assumes "a \<noteq> 0" and "unat n + unat a \<le> 18446744073709551616"
  shows "unat (round_up n a) = nat_round_up (unat n) (unat a)"
proof -
  have a: "0 < unat a"
    using assms(1) by (simp add: unat_gt_0)
  have "unat (n + a - 1) = unat n + unat a - 1"
  proof (cases "unat n + unat a = 18446744073709551616")
    case True
    then have "n + a = 0"
      by (simp add: word_eq_unat unat_word_ariths)
    with True show ?thesis
      by (simp add: unat_max64)
  next
    case False
    with assms(2) have "unat (n + a) = unat n + unat a"
      by (intro unat_add64) simp
    with a show ?thesis
      by (subst unat_sub64) simp_all
  qed
  then have q: "unat ((n + a - 1) div a) = (unat n + unat a - 1) div unat a"
    by (simp add: unat_div)
  have "nat_round_up (unat n) (unat a) < unat n + unat a"
    using a by (rule nat_round_up_less)
  with assms(2) q show ?thesis
    unfolding round_up_def nat_round_up_def by (subst unat_mult64) simp_all
qed

lemma vm_page_size_pos: "sc < 2 ^ 64 \<Longrightarrow> vm_page_size sc \<noteq> 0"
  using unat_of_int64 [of sc] by (auto simp: vm_page_size_def word_eq_unat)

text \<open>\<open>sysconf\<close> returns a C \<open>long\<close>.\<close>

definition c_long :: "int \<Rightarrow> bool" where
  "c_long x \<longleftrightarrow> - (2 ^ 63) \<le> x \<and> x < 2 ^ 63"

lemma vm_page_size_long: "c_long sc \<Longrightarrow> unat (vm_page_size sc) < 9223372036854775808"
  using unat_of_int64 [of sc] by (auto simp: vm_page_size_def c_long_def nat_less_iff)

lemma reserve_gran_bounds:
  assumes "ps \<noteq> 0" and "unat ps < 9223372036854775808" and "g < 9223372036854775808"
  shows "reserve_gran ps g \<noteq> 0" and "ps \<le> reserve_gran ps g"
    and "unat (reserve_gran ps g) < 9223372036854775808"
  using assms unat_of_int64 [of g]
  by (auto simp: reserve_gran_def word_eq_unat nat_less_iff)

lemma reserve_gran_max:
  assumes "g < 9223372036854775808"
  shows "unat (reserve_gran ps g) = max (unat ps) (nat g)"
proof (cases "0 < g")
  case True
  then have "unat (of_int g :: size_t) = nat g"
    using assms unat_of_int64 [of g] by simp
  with True show ?thesis
    by (simp add: reserve_gran_def word_le_unat max_def)
next
  case False
  then show ?thesis
    by (simp add: reserve_gran_def)
qed

lemma granularity_long:
  assumes "page_cache_ok c"
  shows "fst (mjs_granularity sc c) < 9223372036854775808"
  using mjs_page_size_range [OF assms, of sc]
  by (cases "mjs_page_size sc c") (auto simp: mjs_granularity_eq)

subsection \<open>Reserve\<close>

lemma mjs_vm_reserve_success:
  assumes res: "mjs_vm_reserve K sc bytes ob rs (c, w) = (0, ob', rs', c', w')"
    and sc: "c_long sc" and c: "page_cache_ok c"
    and errno: "\<And>n e w'. k_mmap K 0 n PROT_NONE False w = (Inl e, w') \<Longrightarrow> 0 < e"
  obtains base total gran where "ob' = Some base" "rs' = Some total"
    "k_mmap K 0 total PROT_NONE False w = (Inr base, w')"
    "gran = reserve_gran (vm_page_size sc) (fst (mjs_granularity sc c))"
    "total = round_up (if bytes = 0 then gran else bytes) gran"
    "gran \<noteq> 0" "vm_page_size sc \<le> gran" "unat gran < 9223372036854775808"
    "unat bytes + unat gran < 18446744073709551616"
proof -
  define gran where "gran = reserve_gran (vm_page_size sc) (fst (mjs_granularity sc c))"
  note granularity_long [OF c, of sc]
  moreover have "vm_page_size sc \<noteq> 0"
    using sc by (intro vm_page_size_pos) (simp add: c_long_def)
  ultimately have g: "gran \<noteq> 0" "vm_page_size sc \<le> gran" "unat gran < 9223372036854775808"
    unfolding gran_def by (simp_all add: reserve_gran_bounds vm_page_size_long [OF sc])
  have le: "bytes \<le> - 1 - gran"
    using res unfolding gran_def
    by (auto simp: mjs_vm_reserve_def Let_def split: prod.splits if_splits)
  then have "unat bytes \<le> 18446744073709551615 - unat gran"
    by (simp add: word_le_unat unat_sub_max)
  with unat_le64 [of gran] have "unat bytes + unat gran < 18446744073709551616"
    by linarith
  with g show ?thesis
    using res errno unfolding gran_def
    by (intro that [of "the ob'" "the rs'" gran])
      (auto simp: mjs_vm_reserve_def Let_def gran_def
        split: prod.splits if_splits sum.splits)
qed

lemma mjs_vm_reserve_failure:
  "mjs_vm_reserve K sc bytes ob rs cw = (rc, ob', rs', cw') \<Longrightarrow> rc \<noteq> 0 \<Longrightarrow> ob' = ob \<and> rs' = rs"
  by (auto simp: mjs_vm_reserve_def Let_def split: prod.splits if_splits sum.splits)

subsection \<open>The cursor operations\<close>

lemma mprotect_lawD:
  assumes "posix_vm K V P" and "P dvd unat n" and "k_mprotect K a n p w = (Inr u, w')"
  shows "V w' x = (if in_range a n x then set_prot p (V w x) else V w x)"
  using assms unfolding posix_vm_def mprotect_law_def by fastforce

lemma mprotect_errno:
  assumes "posix_vm K V P" and "P dvd unat n" and "k_mprotect K a n p w = (Inl e, w')"
  shows "0 < e"
  using assms unfolding posix_vm_def mprotect_law_def by fastforce

lemma mmap_fixed_lawD:
  assumes "posix_vm K V P" and "P dvd unat n" and "k_mmap K a n p True w = (Inr b, w')"
  shows "V w' x = (if in_range a n x then Some (p, 0) else V w x)"
  using assms unfolding posix_vm_def mmap_fixed_law_def by fastforce

lemma mmap_fixed_failD:
  assumes "posix_vm K V P" and "P dvd unat n" and "k_mmap K a n p True w = (Inl e, w')"
  shows "0 < e" and "V w' x = V w x \<or> in_range a n x \<and> V w' x = None"
  using assms unfolding posix_vm_def mmap_fixed_law_def by fastforce+

lemma set_prot_accessible [simp]: "accessible (set_prot p m) \<longleftrightarrow> m \<noteq> None \<and> p \<noteq> PROT_NONE"
  by (auto simp: accessible_def set_prot_def split: option.splits)

lemma accessible_None [simp]: "\<not> accessible None"
  by (simp add: accessible_def)

lemma mjs_vm_commit_cases:
  assumes "mjs_vm_commit K (Some a) n w = (rc, cur, w')" and "a \<noteq> 0" and "n \<noteq> 0"
  obtains (ok) u where "k_mprotect K a n PROT_RW w = (Inr u, w')" "rc = 0" "cur = Some (a + n)"
    | (err) e where "k_mprotect K a n PROT_RW w = (Inl e, w')" "rc = - e" "cur = Some a"
  using assms by (auto simp: mjs_vm_commit_def split: prod.splits sum.splits)

lemma mjs_vm_decommit_cases:
  assumes "mjs_vm_decommit K (Some a) n w = (rc, cur, w')" and "a \<noteq> 0" and "n \<noteq> 0"
  obtains (ok) u w1 b where "k_mprotect K a n PROT_NONE w = (Inr u, w1)"
      "k_mmap K a n PROT_NONE True w1 = (Inr b, w')" "rc = 0" "cur = Some (a + n)"
    | (sealed) u w1 e where "k_mprotect K a n PROT_NONE w = (Inr u, w1)"
      "k_mmap K a n PROT_NONE True w1 = (Inl e, w')" "rc = - e" "cur = Some a"
    | (err) e where "k_mprotect K a n PROT_NONE w = (Inl e, w')" "rc = - e" "cur = Some a"
  using assms by (auto simp: mjs_vm_decommit_def split: prod.splits sum.splits)

lemma mmap_anon_lawD:
  assumes "posix_vm K V P" and "P dvd unat n" and "k_mmap K 0 n p False w = (Inr b, w')"
  shows "b \<noteq> 0" and "P dvd unat b" and "unat b + unat n < 18446744073709551616"
    and "in_range b n x \<Longrightarrow> V w x = None"
    and "V w' x = (if in_range b n x then Some (p, 0) else V w x)"
  using assms unfolding posix_vm_def mmap_anon_law_def by fastforce+

lemma mmap_anon_failD:
  assumes "posix_vm K V P" and "P dvd unat n" and "k_mmap K 0 n p False w = (Inl e, w')"
  shows "0 < e" and "V w' = V w"
  using assms unfolding posix_vm_def mmap_anon_law_def by fastforce+

lemma munmap_lawD:
  assumes "posix_vm K V P" and "P dvd unat n" and "k_munmap K a n w = (Inr u, w')"
  shows "V w' x = (if in_range a n x then None else V w x)"
  using assms unfolding posix_vm_def munmap_law_def by fastforce

lemma munmap_failD:
  assumes "posix_vm K V P" and "P dvd unat n" and "k_munmap K a n w = (Inl e, w')"
  shows "0 < e" and "V w' = V w"
  using assms unfolding posix_vm_def munmap_law_def by fastforce+

lemma flat_mmap_anon: "mmap_anon_law (flat_kernel lim) flat_view 4096"
proof -
  have "(case r of
        Inl e \<Rightarrow> 0 < e \<and> flat_view w' = flat_view w
      | Inr b \<Rightarrow> b \<noteq> 0 \<and> 4096 dvd unat b \<and> unat b + unat n < 18446744073709551616 \<and>
          (\<forall>x. in_range b n x \<longrightarrow> flat_view w x = None) \<and>
          (\<forall>x. flat_view w' x = (if in_range b n x then Some (p, 0) else flat_view w x)))"
    if n: "4096 dvd unat n" and res: "k_mmap (flat_kernel lim) 0 n p False w = (r, w')"
    for n p w r w'
  proof (cases r)
    case (Inl e)
    with res show ?thesis
      by (auto simp: flat_kernel_def Let_def split: if_splits)
  next
    case (Inr b)
    define nx where "nx = max 16 (fst w)"
    have lim: "nx * 4096 + unat n < 18446744073709551616"
      and b: "b = of_nat (nx * 4096)"
      and w': "w' = (nx + (unat n + 4095) div 4096,
        \<lambda>x. if in_range b n x then Some (p, 0) else flat_view w x)"
      using res Inr unfolding nx_def
      by (auto simp: flat_kernel_def Let_def split: if_splits)
    then have ub: "unat b = nx * 4096"
      using unat_of_nat64 [of "nx * 4096"] by simp
    have pages: "(unat n + 4095) div 4096 * 4096 = unat n"
      using nat_round_up_id [OF n] by (simp add: nat_round_up_def add.commute)
    have "16 \<le> nx" and "fst w \<le> nx"
      by (simp_all add: nx_def)
    with ub lim pages show ?thesis
      unfolding Inr w' by (auto simp: flat_view_def in_range_def algebra_simps)
  qed
  then show ?thesis
    unfolding mmap_anon_law_def by blast
qed

lemma flat_kernel_posix: "posix_vm (flat_kernel lim) flat_view 4096"
  unfolding posix_vm_def
proof (intro conjI flat_mmap_anon)
  show "mprotect_law (flat_kernel lim) flat_view 4096"
    by (auto simp: mprotect_law_def flat_kernel_def flat_view_def set_prot_def
        split: sum.splits if_splits)
  show "mmap_fixed_law (flat_kernel lim) flat_view 4096"
    by (auto simp: mmap_fixed_law_def flat_kernel_def flat_view_def in_range_def
        split: sum.splits if_splits)
  show "munmap_law (flat_kernel lim) flat_view 4096"
    by (auto simp: munmap_law_def flat_kernel_def flat_view_def split: sum.splits if_splits)
qed

section \<open>Properties\<close>

text \<open>
  (C1) A successful \<open>mjs_vm_reserve\<close> maps exactly one PROT\_NONE range and reports it. Its
  granule is the larger of the page size and the host's granularity, and its size is the
  request (one granule when the request is 0) rounded up to that granule over the natural
  numbers: the least multiple of the granule that covers the request, so no step of the size
  computation wraps around.
\<close>
theorem vm_reserve_exact:
  assumes "mjs_vm_reserve K sc bytes ob rs (c, w) = (0, ob', rs', c', w')"
    and "c_long sc" and "page_cache_ok c"
    and "\<And>n e w'. k_mmap K 0 n PROT_NONE False w = (Inl e, w') \<Longrightarrow> 0 < e"
  shows "\<exists>base total. ob' = Some base \<and> rs' = Some total \<and>
    k_mmap K 0 total PROT_NONE False w = (Inr base, w') \<and>
    (let gran = max (unat (vm_page_size sc)) (nat (fst (mjs_granularity sc c))) in
       unat (reserve_gran (vm_page_size sc) (fst (mjs_granularity sc c))) = gran \<and> 0 < gran \<and>
       unat total = nat_round_up (if bytes = 0 then gran else unat bytes) gran \<and>
       gran dvd unat total \<and> 0 < unat total \<and> unat bytes \<le> unat total \<and>
       (\<forall>m. gran dvd m \<longrightarrow> 0 < m \<longrightarrow> unat bytes \<le> m \<longrightarrow> unat total \<le> m))"
proof -
  obtain base total gran where *: "ob' = Some base" "rs' = Some total"
    "k_mmap K 0 total PROT_NONE False w = (Inr base, w')"
    "gran = reserve_gran (vm_page_size sc) (fst (mjs_granularity sc c))"
    "total = round_up (if bytes = 0 then gran else bytes) gran"
    "gran \<noteq> 0" "vm_page_size sc \<le> gran" "unat gran < 9223372036854775808"
    "unat bytes + unat gran < 18446744073709551616"
    using assms by (rule mjs_vm_reserve_success)
  define req where "req = (if bytes = 0 then gran else bytes)"
  have g: "0 < unat gran" and r: "0 < unat req"
    using *(6) by (auto simp: req_def unat_gt_0)
  have "unat req + unat gran \<le> 18446744073709551616"
    using * by (simp add: req_def)
  with * have tot: "unat total = nat_round_up (unat req) (unat gran)"
    by (simp add: req_def unat_round_up)
  have max: "unat gran = max (unat (vm_page_size sc)) (nat (fst (mjs_granularity sc c)))"
    unfolding *(4) by (rule reserve_gran_max) (rule granularity_long [OF assms(3)])
  have least: "unat total \<le> m" if "unat gran dvd m" "0 < m" "unat bytes \<le> m" for m
  proof -
    have "unat req \<le> m"
      using that dvd_imp_le [of "unat gran" m] by (simp add: req_def)
    then show ?thesis
      unfolding tot by (rule nat_round_up_least [OF _ that(1) g])
  qed
  have "unat req \<le> unat total"
    unfolding tot by (rule nat_round_up_ge [OF g])
  then have le: "unat bytes \<le> unat total" and pos: "0 < unat total"
    using r by (auto simp: req_def split: if_splits)
  have dvd: "unat gran dvd unat total"
    unfolding tot by simp
  have req: "unat req = (if bytes = 0 then unat gran else unat bytes)"
    by (simp add: req_def)
  have "unat gran = unat gran \<and> 0 < unat gran \<and>
      unat total = nat_round_up (if bytes = 0 then unat gran else unat bytes) (unat gran) \<and>
      unat gran dvd unat total \<and> 0 < unat total \<and> unat bytes \<le> unat total \<and>
      (\<forall>m. unat gran dvd m \<longrightarrow> 0 < m \<longrightarrow> unat bytes \<le> m \<longrightarrow> unat total \<le> m)"
    using g tot le pos dvd least req by simp
  then show ?thesis
    unfolding Let_def *(4) [symmetric] max [symmetric]
    using *(1-3) by blast
qed

theorem vm_reserve_exact_witness:
  "\<exists>ob' c' w'.
     mjs_vm_reserve (flat_kernel (2 ^ 48)) 4096 5000 (Some 0) (Some 0) (0, 16, \<lambda>_. None)
       = (0, ob', Some 8192, c', w') \<and>
     unat (8192 :: size_t) = nat_round_up 5000 (max (unat (vm_page_size 4096)) 4096)"
proof -
  let ?K = "flat_kernel (2 ^ 48)"
  obtain ob' rs' c' w' where
    res: "mjs_vm_reserve ?K 4096 5000 (Some 0) (Some 0) (0, 16, \<lambda>_. None) = (0, ob', rs', c', w')"
    and rs: "rs' = Some 8192"
    by (simp add: mjs_vm_reserve_def mjs_granularity_def host_page_size_def c_int_of_id
        vm_page_size_def reserve_gran_def round_up_def flat_kernel_def Let_def)
  have errno: "\<And>n e w'. k_mmap ?K 0 n PROT_NONE False (16, \<lambda>_. None) = (Inl e, w') \<Longrightarrow> 0 < e"
    by (auto simp: flat_kernel_def Let_def split: if_splits)
  have gr: "fst (mjs_granularity 4096 0) = 4096"
    by (simp add: mjs_granularity_def host_page_size_def c_int_of_id)
  have "c_long 4096" and "page_cache_ok 0"
    by (simp_all add: c_long_def page_cache_ok_def)
  from vm_reserve_exact [OF res this(1) this(2), unfolded gr Let_def] errno
  have "\<exists>total. rs' = Some total \<and> unat total = nat_round_up (if 5000 = (0 :: size_t)
      then max (unat (vm_page_size 4096)) (nat 4096) else unat (5000 :: size_t))
      (max (unat (vm_page_size 4096)) (nat 4096))"
    by blast
  then have "unat (8192 :: size_t) = nat_round_up 5000 (max (unat (vm_page_size 4096)) 4096)"
    by (simp add: rs)
  with res rs show ?thesis by blast
qed

text \<open>
  (C2) \<open>mjs_vm_decommit\<close> is fail-closed. Once its first \<open>mprotect\<close> has succeeded, no byte of
  the range is accessible afterwards, whether the replacement mapping succeeds or not; on
  success the whole range is a fresh PROT\_NONE mapping of zero bytes and the cursor is past
  it; on every failure the cursor is untouched and the code returned is negative. Bytes
  outside the range keep their protection and contents.
\<close>
theorem vm_decommit_fail_closed:
  assumes "posix_vm K V P" and "P dvd unat n" and "n \<noteq> 0" and "a \<noteq> 0"
    and "mjs_vm_decommit K (Some a) n w = (rc, cur, w')"
  shows "((\<exists>w1. k_mprotect K a n PROT_NONE w = (Inr (), w1)) \<longrightarrow>
        (\<forall>x. in_range a n x \<longrightarrow> \<not> accessible (V w' x))) \<and>
    (rc = 0 \<longrightarrow> (\<forall>x. in_range a n x \<longrightarrow> V w' x = Some (PROT_NONE, 0))) \<and>
    (\<forall>x. \<not> in_range a n x \<longrightarrow> V w' x = V w x) \<and>
    cur = (if rc = 0 then Some (a + n) else Some a) \<and> rc \<le> 0"
  using assms(5,4,3)
proof (cases rule: mjs_vm_decommit_cases)
  case (ok u w1 b)
  note p = mprotect_lawD [OF assms(1,2) ok(1)] and m = mmap_fixed_lawD [OF assms(1,2) ok(2)]
  show ?thesis
    by (simp add: ok m p accessible_def)
next
  case (sealed u w1 e)
  note p = mprotect_lawD [OF assms(1,2) sealed(1)] and m = mmap_fixed_failD [OF assms(1,2) sealed(2)]
  have "\<not> accessible (V w' x)" if "in_range a n x" for x
    using m(2) [of x] that by (auto simp: p)
  moreover have "V w' x = V w x" if "\<not> in_range a n x" for x
    using m(2) [of x] that by (simp add: p)
  ultimately show ?thesis
    using m(1) by (simp add: sealed)
next
  case (err e)
  have "V w' x = V w x" if "\<not> in_range a n x" for x
    using assms(1,2) err(1) that unfolding posix_vm_def mprotect_law_def by fastforce
  with mprotect_errno [OF assms(1,2) err(1)] show ?thesis
    by (simp add: err)
qed

theorem vm_decommit_fail_closed_witness:
  "\<exists>w'. mjs_vm_decommit (flat_kernel (2 ^ 48)) (Some 65536) 8192 (32, \<lambda>_. Some (PROT_RW, 7))
        = (0, Some 73728, w') \<and> flat_view w' 65536 = Some (PROT_NONE, 0) \<and>
      flat_view w' 0 = Some (PROT_RW, 7)"
proof -
  let ?K = "flat_kernel (2 ^ 48)" and ?w = "(32, \<lambda>_. Some (PROT_RW, 7))"
  obtain rc cur w' where res: "mjs_vm_decommit ?K (Some 65536) 8192 ?w = (rc, cur, w')"
    and rc: "rc = 0"
    by (simp add: mjs_vm_decommit_def flat_kernel_def)
  have "(rc = 0 \<longrightarrow> (\<forall>x. in_range 65536 8192 x \<longrightarrow> flat_view w' x = Some (PROT_NONE, 0))) \<and>
      (\<forall>x. \<not> in_range 65536 8192 x \<longrightarrow> flat_view w' x = flat_view ?w x) \<and>
      cur = (if rc = 0 then Some (65536 + 8192) else Some 65536)"
    using vm_decommit_fail_closed [OF flat_kernel_posix _ _ _ res] by simp
  moreover have "in_range 65536 8192 65536" and "\<not> in_range 65536 8192 0"
    by (simp_all add: in_range_def)
  ultimately show ?thesis
    using res rc by (auto simp: flat_view_def)
qed

text \<open>
  (C3) Decommit followed by a commit of the same range gives back readable and writable zero
  bytes at the same addresses, whatever the range held before, and touches no other byte.
\<close>
theorem vm_recommit_zeroes:
  assumes "posix_vm K V P" and "P dvd unat n" and "n \<noteq> 0" and "a \<noteq> 0"
    and "mjs_vm_decommit K (Some a) n w = (0, cur1, w1)"
    and "mjs_vm_commit K (Some a) n w1 = (0, cur2, w2)"
  shows "(\<forall>x. V w2 x = (if in_range a n x then Some (PROT_RW, 0) else V w x)) \<and>
    cur1 = Some (a + n) \<and> cur2 = Some (a + n)"
proof -
  from assms(5,4,3) have d: "cur1 = Some (a + n) \<and>
      (\<forall>x. V w1 x = (if in_range a n x then Some (PROT_NONE, 0) else V w x))"
  proof (cases rule: mjs_vm_decommit_cases)
    case (ok u w' b)
    show ?thesis
      by (simp add: ok(4) mmap_fixed_lawD [OF assms(1,2) ok(2)] mprotect_lawD [OF assms(1,2) ok(1)])
  next
    case (sealed u w' e)
    with mmap_fixed_failD(1) [OF assms(1,2) sealed(2)] show ?thesis by simp
  next
    case (err e)
    with mprotect_errno [OF assms(1,2) err(1)] show ?thesis by simp
  qed
  from assms(6,4,3) show ?thesis
  proof (cases rule: mjs_vm_commit_cases)
    case (ok u)
    show ?thesis
      by (simp add: ok(3) d mprotect_lawD [OF assms(1,2) ok(1)] set_prot_def)
  next
    case (err e)
    with mprotect_errno [OF assms(1,2) err(1)] show ?thesis by simp
  qed
qed

theorem vm_recommit_zeroes_witness:
  "\<exists>w1 w2. mjs_vm_decommit (flat_kernel (2 ^ 48)) (Some 65536) 4096 (32, \<lambda>_. Some (PROT_RW, 9))
        = (0, Some 69632, w1) \<and>
     mjs_vm_commit (flat_kernel (2 ^ 48)) (Some 65536) 4096 w1 = (0, Some 69632, w2) \<and>
     flat_view w2 65537 = Some (PROT_RW, 0)"
proof -
  let ?K = "flat_kernel (2 ^ 48)" and ?w = "(32, \<lambda>_. Some (PROT_RW, 9))"
  obtain cur1 w1 where d: "mjs_vm_decommit ?K (Some 65536) 4096 ?w = (0, cur1, w1)"
    by (simp add: mjs_vm_decommit_def flat_kernel_def)
  obtain cur2 w2 where c: "mjs_vm_commit ?K (Some 65536) 4096 w1 = (0, cur2, w2)"
    by (simp add: mjs_vm_commit_def flat_kernel_def)
  have "in_range 65536 4096 65537"
    by (simp add: in_range_def)
  with vm_recommit_zeroes [OF flat_kernel_posix _ _ _ d c] d c show ?thesis
    by (cases w2) auto
qed

end
