(* ===== verification/Mjs_Slots.thy ===== *)
theory Mjs_Slots
  imports Mjs_Prelude
begin

text \<open>
  Slot arrays. Several components keep a growable array whose entries are live or dead: a new
  entry goes to the first dead slot, or to a fresh slot at the end (the array doubles when it
  is full), and a retired entry stays in place as a dead slot. \<open>scan\<close> is the sources' linear
  search loop; the locale \<open>slot_registry\<close> states the contract those components rely on and
  proves the map behaviour of the array once.
\<close>

section \<open>Definitions\<close>

text \<open>\<open>for (i = 0; i < n; i++) if (P(a[i])) break;\<close> the index where the loop stops early.\<close>

fun scan :: "('a \<Rightarrow> bool) \<Rightarrow> 'a list \<Rightarrow> nat option" where
  "scan P [] = None"
| "scan P (x # xs) = (if P x then Some 0 else map_option Suc (scan P xs))"

definition slot_place :: "('e \<Rightarrow> bool) \<Rightarrow> 'e \<Rightarrow> 'e list \<Rightarrow> 'e list" where
  "slot_place live e xs =
     (case scan (\<lambda>x. \<not> live x) xs of Some i \<Rightarrow> xs[i := e] | None \<Rightarrow> xs @ [e])"

definition slot_lookup :: "('e \<Rightarrow> bool) \<Rightarrow> ('e \<Rightarrow> 'k) \<Rightarrow> 'k \<Rightarrow> 'e list \<Rightarrow> 'e option" where
  "slot_lookup live key k xs =
     (case scan (\<lambda>x. live x \<and> key x = k) xs of Some i \<Rightarrow> Some (xs ! i) | None \<Rightarrow> None)"

definition slots_wf :: "('e \<Rightarrow> bool) \<Rightarrow> ('e \<Rightarrow> 'k) \<Rightarrow> 'e list \<Rightarrow> bool" where
  "slots_wf live key xs \<longleftrightarrow>
     (\<forall>i < length xs. \<forall>j < length xs.
        live (xs ! i) \<longrightarrow> live (xs ! j) \<longrightarrow> key (xs ! i) = key (xs ! j) \<longrightarrow> i = j)"

section \<open>The search loop\<close>

lemma scan_SomeD:
  "scan P xs = Some i \<Longrightarrow> i < length xs \<and> P (xs ! i) \<and> (\<forall>j < i. \<not> P (xs ! j))"
proof (induction xs arbitrary: i)
  case Nil
  then show ?case by simp
next
  case (Cons x xs)
  show ?case
  proof (cases "P x")
    case True
    with Cons.prems show ?thesis by auto
  next
    case False
    with Cons.prems obtain i' where i: "i = Suc i'" and "scan P xs = Some i'"
      by auto
    from Cons.IH [OF this(2)] False show ?thesis
      by (auto simp: i less_Suc_eq_0_disj)
  qed
qed

lemma scan_NoneD: "scan P xs = None \<Longrightarrow> i < length xs \<Longrightarrow> \<not> P (xs ! i)"
  by (induction xs arbitrary: i) (auto simp: less_Suc_eq_0_disj nth_Cons' split: if_splits)

lemma scan_None_iff: "scan P xs = None \<longleftrightarrow> (\<forall>x \<in> set xs. \<not> P x)"
  by (induction xs) auto

lemma scan_SomeI:
  assumes "i < length xs" and "P (xs ! i)" and "\<And>j. j < i \<Longrightarrow> \<not> P (xs ! j)"
  shows "scan P xs = Some i"
proof (cases "scan P xs")
  case None
  with assms show ?thesis by (auto dest: scan_NoneD)
next
  case (Some k)
  with scan_SomeD [OF Some] assms show ?thesis
    by (metis linorder_neqE_nat)
qed

lemma scan_unique:
  assumes "i < length xs" and "P (xs ! i)" and "\<And>j. j < length xs \<Longrightarrow> P (xs ! j) \<Longrightarrow> j = i"
  shows "scan P xs = Some i"
proof (rule scan_SomeI)
  fix j assume "j < i"
  with assms(1,3) show "\<not> P (xs ! j)"
    by (metis less_irrefl less_trans)
qed (rule assms)+

section \<open>The contract\<close>

text \<open>
  \<open>live\<close> tells a used slot, \<open>key\<close> is what the component looks slots up by, \<open>retire\<close> what it
  leaves behind when an entry is released.
\<close>

locale slot_registry =
  fixes live :: "'e \<Rightarrow> bool" and key :: "'e \<Rightarrow> 'k" and retire :: "'e \<Rightarrow> 'e"
  assumes retire_dead: "\<not> live (retire e)"
begin

lemma lookup_Some_iff:
  assumes "slots_wf live key xs"
  shows "slot_lookup live key k xs = Some e \<longleftrightarrow> e \<in> set xs \<and> live e \<and> key e = k"
proof
  assume "slot_lookup live key k xs = Some e"
  then show "e \<in> set xs \<and> live e \<and> key e = k"
    by (auto simp: slot_lookup_def dest!: scan_SomeD split: option.splits)
next
  assume e: "e \<in> set xs \<and> live e \<and> key e = k"
  then obtain i where i: "i < length xs" "xs ! i = e"
    by (auto simp: in_set_conv_nth)
  have "scan (\<lambda>x. live x \<and> key x = k) xs = Some i"
    using assms e i unfolding slots_wf_def by (intro scan_unique) auto
  with i show "slot_lookup live key k xs = Some e"
    by (simp add: slot_lookup_def)
qed

lemma lookup_None_iff:
  "slot_lookup live key k xs = None \<longleftrightarrow> (\<forall>e \<in> set xs. live e \<longrightarrow> key e \<noteq> k)"
  by (auto simp: slot_lookup_def scan_None_iff split: option.splits dest: scan_NoneD)
    (metis (mono_tags, lifting) option.distinct(1) scan_None_iff)

lemma wf_place:
  assumes wf: "slots_wf live key xs" and new: "slot_lookup live key (key e) xs = None"
  shows "slots_wf live key (slot_place live e xs)"
proof (cases "scan (\<lambda>x. \<not> live x) xs")
  case None
  have "\<forall>i < length xs. live (xs ! i) \<longrightarrow> key (xs ! i) \<noteq> key e"
    using new by (simp add: lookup_None_iff)
  with wf None show ?thesis
    unfolding slot_place_def slots_wf_def by (auto simp: nth_append less_Suc_eq)
next
  case (Some i)
  have "\<forall>i < length xs. live (xs ! i) \<longrightarrow> key (xs ! i) \<noteq> key e"
    using new by (simp add: lookup_None_iff)
  with wf Some scan_SomeD [OF Some] show ?thesis
    unfolding slot_place_def slots_wf_def by (auto simp: nth_list_update split: if_splits)
qed

lemma in_place_iff:
  assumes "live x"
  shows "x \<in> set (slot_place live e xs) \<longleftrightarrow> x = e \<or> x \<in> set xs"
proof (cases "scan (\<lambda>x. \<not> live x) xs")
  case None
  then show ?thesis by (auto simp: slot_place_def)
next
  case (Some i)
  with scan_SomeD [OF Some] assms show ?thesis
    by (auto simp: slot_place_def in_set_conv_nth nth_list_update)
qed

lemma lookup_place:
  assumes "slots_wf live key xs" and "live e" and "slot_lookup live key (key e) xs = None"
  shows "slot_lookup live key k (slot_place live e xs)
    = (if k = key e then Some e else slot_lookup live key k xs)"
proof -
  note wf = wf_place [OF assms(1,3)]
  have fresh: "x \<in> set xs \<Longrightarrow> live x \<Longrightarrow> key x \<noteq> key e" for x
    using assms(3) by (simp add: lookup_None_iff)
  show ?thesis
  proof (cases "slot_lookup live key k (slot_place live e xs)")
    case None
    with assms(2) have "k \<noteq> key e" and "slot_lookup live key k xs = None"
      by (auto simp: lookup_None_iff in_place_iff)
    with None show ?thesis by simp
  next
    case (Some x)
    then have x: "live x" "key x = k" "x = e \<or> x \<in> set xs"
      using lookup_Some_iff [OF wf] in_place_iff by blast+
    show ?thesis
    proof (cases "x = e")
      case True
      with Some x show ?thesis by simp
    next
      case False
      with x have "slot_lookup live key k xs = Some x" and "k \<noteq> key e"
        using lookup_Some_iff [OF assms(1)] fresh by blast+
      with Some show ?thesis by simp
    qed
  qed
qed

lemma wf_retire:
  assumes "slots_wf live key xs"
  shows "slots_wf live key (xs[i := retire e])"
  using assms retire_dead unfolding slots_wf_def
  by (cases "i < length xs") (auto simp: nth_list_update split: if_splits)

lemma in_retire_iff:
  assumes wf: "slots_wf live key xs" and i: "scan (\<lambda>x. live x \<and> key x = k) xs = Some i"
    and x: "live x"
  shows "x \<in> set (xs[i := retire e]) \<longleftrightarrow> x \<in> set xs \<and> key x \<noteq> k"
proof
  assume "x \<in> set (xs[i := retire e])"
  then obtain j where j: "j < length xs" "xs[i := retire e] ! j = x"
    by (auto simp: in_set_conv_nth)
  with x retire_dead have "j \<noteq> i" by (auto simp: nth_list_update)
  with j scan_SomeD [OF i] wf x show "x \<in> set xs \<and> key x \<noteq> k"
    unfolding slots_wf_def by (auto simp: nth_list_update)
next
  assume "x \<in> set xs \<and> key x \<noteq> k"
  with scan_SomeD [OF i] show "x \<in> set (xs[i := retire e])"
    by (auto simp: in_set_conv_nth nth_list_update)
qed

lemma lookup_retire:
  assumes wf: "slots_wf live key xs" and i: "scan (\<lambda>x. live x \<and> key x = k) xs = Some i"
  shows "slot_lookup live key k' (xs[i := retire e])
    = (if k' = k then None else slot_lookup live key k' xs)"
proof (cases "slot_lookup live key k' (xs[i := retire e])")
  case None
  then show ?thesis
    using in_retire_iff [OF wf i] by (auto simp: lookup_None_iff) (metis lookup_None_iff)
next
  case (Some x)
  then have "live x" "key x = k'" "x \<in> set xs" "k' \<noteq> k"
    using lookup_Some_iff [OF wf_retire [OF wf]] in_retire_iff [OF wf i] by blast+
  with Some lookup_Some_iff [OF wf, of k' x] show ?thesis by simp
qed

end

lemma length_slot_place:
  "length (slot_place live e xs) =
     (if scan (\<lambda>x. \<not> live x) xs = None then Suc (length xs) else length xs)"
  by (simp add: slot_place_def split: option.splits)

end
