(* ===== verification/Mjs_Stack.thy ===== *)
theory Mjs_Stack
  imports Mjs_VM Mjs_Slots
begin

text \<open>
  The guarded, non-moving stack allocator (native/posix/mjs\_stack.c). The static registry
  \<open>g_resv\<close> of (base, total) pairs is a slot array in the state, next to the kernel's address
  space; \<open>mem_ok\<close> tells whether the \<open>realloc\<close> that doubles the registry succeeds. The code
  also stores into \<open>errno\<close>, which no operation reads back; that store is left out.
\<close>

section \<open>Definitions\<close>

type_synonym mjs_reservation = "addr \<times> size_t"

record 'w stack_state =
  g_resv :: "mjs_reservation list"
  g_resv_cap :: nat
  stack_mem :: 'w

definition stack_page_size :: "int \<Rightarrow> size_t" where
  "stack_page_size sc = (if sc > 0 then of_int sc else 4096)"

definition stack_round_up :: "size_t \<Rightarrow> size_t \<Rightarrow> size_t" where
  "stack_round_up n align = (n + align - 1) div align * align"

text \<open>
  The size computation of \<open>mjs_stack_alloc\<close>: \<open>(guard, total, commit)\<close> in bytes, or \<^term>\<open>None\<close>
  where the code returns \<open>-EINVAL\<close>.
\<close>

definition stack_geometry ::
    "size_t \<Rightarrow> size_t \<Rightarrow> size_t \<Rightarrow> size_t \<Rightarrow> (size_t \<times> size_t \<times> size_t) option" where
  "stack_geometry ps reserve_bytes initial_commit_bytes guard_bytes =
     (if guard_bytes = 0 \<or> guard_bytes mod ps \<noteq> 0 then None
      else if guard_bytes > - 1 - (ps - 1) then None
      else
        let guard = stack_round_up guard_bytes ps;
            usable_req = (if reserve_bytes = 0 then ps else reserve_bytes)
        in if usable_req > - 1 - (ps - 1) then None
           else
             let usable = stack_round_up usable_req ps
             in if guard > - 1 - usable then None
                else
                  let total = guard + usable
                  in if initial_commit_bytes > - 1 - (ps - 1) then None
                     else
                       let commit = stack_round_up initial_commit_bytes ps
                       in Some (guard, total, if commit > usable then usable else commit))"

text \<open>The registry part: reuse the first free slot or append, doubling a full array.\<close>

definition stack_record ::
    "bool \<Rightarrow> addr \<Rightarrow> size_t \<Rightarrow> 'w stack_state \<Rightarrow> 'w stack_state option" where
  "stack_record mem_ok base tot s =
     (case scan (\<lambda>r. fst r = 0) (g_resv s) of
        Some i \<Rightarrow> Some (s\<lparr>g_resv := (g_resv s)[i := (base, tot)]\<rparr>)
      | None \<Rightarrow>
          if length (g_resv s) = g_resv_cap s
          then if mem_ok
               then Some (s\<lparr>g_resv_cap := (if g_resv_cap s \<noteq> 0 then g_resv_cap s * 2 else 8),
                            g_resv := g_resv s @ [(base, tot)]\<rparr>)
               else None
          else Some (s\<lparr>g_resv := g_resv s @ [(base, tot)]\<rparr>))"

definition mjs_stack_alloc ::
    "'w vm_kernel \<Rightarrow> int \<Rightarrow> bool \<Rightarrow> size_t \<Rightarrow> size_t \<Rightarrow> size_t
      \<Rightarrow> addr slot \<Rightarrow> addr slot \<Rightarrow> size_t slot \<Rightarrow> 'w stack_state
      \<Rightarrow> int \<times> addr slot \<times> addr slot \<times> size_t slot \<times> 'w stack_state" where
  "mjs_stack_alloc K sc mem_ok reserve_bytes initial_commit_bytes guard_bytes
       out_base out_guard_low out_top s =
     (if out_base = None \<or> out_guard_low = None \<or> out_top = None
      then (- EINVAL, out_base, out_guard_low, out_top, s)
      else case stack_geometry (stack_page_size sc) reserve_bytes initial_commit_bytes guard_bytes of
        None \<Rightarrow> (- EINVAL, out_base, out_guard_low, out_top, s)
      | Some (guard, tot, commit) \<Rightarrow>
         (case k_mmap K 0 tot PROT_NONE False (stack_mem s) of
            (Inl e, w1) \<Rightarrow> (- e, out_base, out_guard_low, out_top, s\<lparr>stack_mem := w1\<rparr>)
          | (Inr base, w1) \<Rightarrow>
             (case (if commit > 0
                    then k_mprotect K (base + (tot - commit)) commit PROT_RW w1
                    else (Inr (), w1)) of
                (Inl saved, w2) \<Rightarrow>
                  (- (if saved \<noteq> 0 then saved else EIO), out_base, out_guard_low, out_top,
                   s\<lparr>stack_mem := snd (k_munmap K base tot w2)\<rparr>)
              | (Inr _, w2) \<Rightarrow>
                 (case stack_record mem_ok base tot (s\<lparr>stack_mem := w2\<rparr>) of
                    None \<Rightarrow>
                      (- ENOMEM, out_base, out_guard_low, out_top,
                       s\<lparr>stack_mem := snd (k_munmap K base tot w2)\<rparr>)
                  | Some s' \<Rightarrow>
                      (0, Some base, Some (base + guard), Some (base + tot), s')))))"

definition mjs_stack_free ::
    "'w vm_kernel \<Rightarrow> addr slot \<Rightarrow> 'w stack_state \<Rightarrow> int \<times> addr slot \<times> 'w stack_state" where
  "mjs_stack_free K base s =
     (case base of
        None \<Rightarrow> (- EINVAL, base, s)
      | Some b \<Rightarrow>
          if b = 0 then (- EINVAL, base, s)
          else case scan (\<lambda>r. fst r = b) (g_resv s) of
                 None \<Rightarrow> (- EINVAL, base, s)
               | Some i \<Rightarrow>
                  (case k_munmap K b (snd (g_resv s ! i)) (stack_mem s) of
                     (Inl e, w') \<Rightarrow> (- e, base, s\<lparr>stack_mem := w'\<rparr>)
                   | (Inr _, w') \<Rightarrow>
                       (0, Some 0, s\<lparr>g_resv := (g_resv s)[i := (0, 0)], stack_mem := w'\<rparr>)))"

text \<open>A fresh process: nothing registered, an address space with nothing above page 16.\<close>

definition stack_boot :: "flat_space stack_state" where
  "stack_boot = \<lparr>g_resv = [], g_resv_cap = 0, stack_mem = (16, \<lambda>_. None)\<rparr>"

section \<open>Size computation\<close>

lemma stack_round_up_eq: "stack_round_up = round_up"
  by (intro ext) (simp add: stack_round_up_def round_up_def)

lemma no_wrap_guard:
  fixes n ps :: size_t
  assumes "n \<le> - 1 - (ps - 1)" and "ps \<noteq> 0"
  shows "unat n + unat ps \<le> 18446744073709551616"
proof -
  have "0 < unat ps"
    using assms(2) by (simp add: unat_gt_0)
  then have "unat (ps - 1) = unat ps - 1"
    by (subst unat_sub64) simp_all
  moreover have "unat n \<le> 18446744073709551615 - unat (ps - 1)"
    using assms(1) by (simp only: word_le_unat unat_sub_max)
  ultimately show ?thesis
    using unat_le64 [of ps] \<open>0 < unat ps\<close> by linarith
qed

lemma stack_geometry_SomeD:
  assumes "stack_geometry ps res com grd = Some (guard, tot, commit)" and "ps \<noteq> 0"
  shows "guard = grd" and "0 < unat grd" and "unat ps dvd unat grd"
    and "unat tot = unat grd + nat_round_up (if res = 0 then unat ps else unat res) (unat ps)"
    and "unat commit = min (nat_round_up (unat com) (unat ps)) (unat tot - unat grd)"
proof -
  define req where "req = (if res = 0 then ps else res)"
  have g0: "grd \<noteq> 0" "grd mod ps = 0" and g1: "grd \<le> - 1 - (ps - 1)"
    and r1: "req \<le> - 1 - (ps - 1)" and c1: "com \<le> - 1 - (ps - 1)"
    and t1: "stack_round_up grd ps \<le> - 1 - stack_round_up req ps"
    and guard: "guard = stack_round_up grd ps"
    and totd: "tot = stack_round_up grd ps + stack_round_up req ps"
    and commit: "commit = (if stack_round_up com ps > stack_round_up req ps
      then stack_round_up req ps else stack_round_up com ps)"
    using assms(1) unfolding stack_geometry_def req_def
    by (auto simp: Let_def not_less split: if_splits)
  have up: "unat (stack_round_up n ps) = nat_round_up (unat n) (unat ps)"
    if "n \<le> - 1 - (ps - 1)" for n
    unfolding stack_round_up_eq using no_wrap_guard [OF that assms(2)] assms(2)
    by (intro unat_round_up) simp_all
  have pos: "0 < unat ps" and gpos: "0 < unat grd"
    using assms(2) g0 by (simp_all add: unat_gt_0)
  have dv: "unat ps dvd unat grd"
    using g0(2) by (metis dvd_eq_mod_eq_0 unat_mod unat_0)
  have gg: "unat (stack_round_up grd ps) = unat grd"
    using up [OF g1] nat_round_up_id [OF dv pos] by simp
  then have guard': "guard = grd"
    by (simp add: guard word_eq_unat)
  have "unat grd \<le> 18446744073709551615 - unat (stack_round_up req ps)"
    using t1 gg by (simp only: word_le_unat unat_sub_max)
  then have "unat grd + unat (stack_round_up req ps) < 18446744073709551616"
    using unat_le64 [of "stack_round_up req ps"] by linarith
  then have tt: "unat tot = unat grd + nat_round_up (unat req) (unat ps)"
    using unat_add64 [of "stack_round_up grd ps" "stack_round_up req ps"] gg up [OF r1]
    by (simp add: totd)
  have com': "unat commit = min (nat_round_up (unat com) (unat ps)) (unat tot - unat grd)"
    using up [OF c1] up [OF r1] tt by (auto simp: commit word_less_unat)
  show "guard = grd" "0 < unat grd" "unat ps dvd unat grd"
    "unat tot = unat grd + nat_round_up (if res = 0 then unat ps else unat res) (unat ps)"
    "unat commit = min (nat_round_up (unat com) (unat ps)) (unat tot - unat grd)"
    using guard' gpos dv tt com' by (simp_all add: req_def if_distrib)
qed

section \<open>The registry\<close>

definition stack_live :: "mjs_reservation \<Rightarrow> bool" where
  "stack_live r \<longleftrightarrow> fst r \<noteq> 0"

interpretation stk: slot_registry stack_live fst "\<lambda>_. (0, 0)"
  by unfold_locales (simp add: stack_live_def)

lemma stack_live_pair [simp]: "stack_live (b, t) \<longleftrightarrow> b \<noteq> 0"
  by (simp add: stack_live_def)

lemma stack_record_SomeD:
  assumes "stack_record mem_ok base tot s = Some s'"
  shows "g_resv s' = slot_place stack_live (base, tot) (g_resv s)"
    and "stack_mem s' = stack_mem s"
    and "length (g_resv s) \<le> g_resv_cap s \<Longrightarrow> length (g_resv s') \<le> g_resv_cap s'"
  using assms unfolding stack_record_def slot_place_def stack_live_def
  by (auto split: option.splits if_splits dest: scan_SomeD)

text \<open>
  The registry invariant: the array fits its capacity, live bases are distinct, every live
  reservation is a non-empty page multiple of mapped bytes, and live reservations are
  disjoint.
\<close>

definition stack_inv :: "('w \<Rightarrow> mem_view) \<Rightarrow> nat \<Rightarrow> 'w stack_state \<Rightarrow> bool" where
  "stack_inv V P s \<longleftrightarrow>
     length (g_resv s) \<le> g_resv_cap s \<and> slots_wf stack_live fst (g_resv s) \<and>
     (\<forall>r \<in> set (g_resv s). stack_live r \<longrightarrow> 0 < unat (snd r) \<and> P dvd unat (snd r) \<and>
        (\<forall>x. in_range (fst r) (snd r) x \<longrightarrow> V (stack_mem s) x \<noteq> None)) \<and>
     (\<forall>r \<in> set (g_resv s). \<forall>r' \<in> set (g_resv s). stack_live r \<longrightarrow> stack_live r' \<longrightarrow> r \<noteq> r' \<longrightarrow>
        (\<forall>x. \<not> (in_range (fst r) (snd r) x \<and> in_range (fst r') (snd r') x)))"

lemma in_range_base: "0 < unat n \<Longrightarrow> in_range b n b"
  by (simp add: in_range_def)

text \<open>A range that nothing maps is no live reservation's.\<close>

lemma live_apart:
  assumes "stack_inv V P s" and "r \<in> set (g_resv s)" and "stack_live r"
    and "\<And>x. in_range base tot x \<Longrightarrow> V (stack_mem s) x = None" and "0 < unat tot"
  shows "fst r \<noteq> base"
proof -
  have "0 < unat (snd r)" "in_range (fst r) (snd r) (fst r) \<longrightarrow> V (stack_mem s) (fst r) \<noteq> None"
    using assms(1-3) by (auto simp: stack_inv_def)
  then have "V (stack_mem s) (fst r) \<noteq> None" using in_range_base by blast
  then show ?thesis using assms(4) [of base] in_range_base [OF assms(5)] by auto
qed

lemma stack_inv_place:
  assumes inv: "stack_inv V P s"
    and new: "\<And>x. in_range base tot x \<Longrightarrow> V (stack_mem s) x = None"
    and t: "0 < unat tot" "P dvd unat tot" and b: "base \<noteq> 0"
    and old: "\<And>x. \<not> in_range base tot x \<Longrightarrow> V (stack_mem s') x = V (stack_mem s) x"
    and now: "\<And>x. in_range base tot x \<Longrightarrow> V (stack_mem s') x \<noteq> None"
    and resv: "g_resv s' = slot_place stack_live (base, tot) (g_resv s)"
    and cap: "length (g_resv s') \<le> g_resv_cap s'"
  shows "stack_inv V P s'"
proof -
  have "fst r \<noteq> base" if "r \<in> set (g_resv s)" "stack_live r" for r
    using live_apart [OF inv that new t(1)] .
  then have fresh: "slot_lookup stack_live fst base (g_resv s) = None"
    unfolding stk.lookup_None_iff by blast
  have wf: "slots_wf stack_live fst (g_resv s')"
    unfolding resv using inv fresh by (intro stk.wf_place) (simp_all add: stack_inv_def)
  have mem: "stack_live r \<Longrightarrow> r \<in> set (g_resv s') \<longleftrightarrow> r = (base, tot) \<or> r \<in> set (g_resv s)" for r
    unfolding resv by (rule stk.in_place_iff)
  have disj: "\<not> (in_range (fst r) (snd r) x \<and> in_range base tot x)"
    if "r \<in> set (g_resv s)" "stack_live r" for r x
    using inv new that unfolding stack_inv_def by blast
  have keep: "V (stack_mem s') x \<noteq> None"
    if "r \<in> set (g_resv s)" "stack_live r" "in_range (fst r) (snd r) x" for r x
    using inv that disj [OF that(1,2)] old unfolding stack_inv_def by metis
  show ?thesis
    unfolding stack_inv_def
  proof (intro conjI ballI impI)
    fix r assume r: "r \<in> set (g_resv s')" "stack_live r"
    with inv mem t show "0 < unat (snd r)" "P dvd unat (snd r)"
      unfolding stack_inv_def by auto
    from r mem consider (new) "r = (base, tot)" | (old) "r \<in> set (g_resv s)"
      by blast
    then show "\<forall>x. in_range (fst r) (snd r) x \<longrightarrow> V (stack_mem s') x \<noteq> None"
    proof cases
      case new
      show ?thesis unfolding new fst_conv snd_conv using now by blast
    next
      case old
      show ?thesis using keep [OF old r(2)] by blast
    qed
  next
    fix r r' assume r: "r \<in> set (g_resv s')" "r' \<in> set (g_resv s')"
      "stack_live r" "stack_live r'" "r \<noteq> r'"
    from r mem consider (rnew) "r = (base, tot)" "r' \<in> set (g_resv s)"
      | (rold) "r \<in> set (g_resv s)" "r' = (base, tot)"
      | (both) "r \<in> set (g_resv s)" "r' \<in> set (g_resv s)"
      by blast
    then show "\<forall>x. \<not> (in_range (fst r) (snd r) x \<and> in_range (fst r') (snd r') x)"
    proof cases
      case rnew
      show ?thesis unfolding rnew(1) fst_conv snd_conv using disj [OF rnew(2) r(4)] by blast
    next
      case rold
      show ?thesis unfolding rold(2) fst_conv snd_conv using disj [OF rold(1) r(3)] by blast
    next
      case both
      with inv r show ?thesis unfolding stack_inv_def by blast
    qed
  qed (rule cap wf)+
qed


lemma stack_inv_retire:
  assumes inv: "stack_inv V P s" and i: "scan (\<lambda>r. fst r = b) (g_resv s) = Some i" and b: "b \<noteq> 0"
    and resv: "g_resv s' = (g_resv s)[i := (0, 0)]" and cap: "g_resv_cap s' = g_resv_cap s"
    and old: "\<And>x. \<not> in_range b (snd (g_resv s ! i)) x \<Longrightarrow> V (stack_mem s') x = V (stack_mem s) x"
  shows "stack_inv V P s'"
proof -
  have "(\<lambda>r. fst r = b) = (\<lambda>r. stack_live r \<and> fst r = b)"
    using b by (auto simp: stack_live_def)
  with i have i': "scan (\<lambda>r. stack_live r \<and> fst r = b) (g_resv s) = Some i"
    by simp
  note iD = scan_SomeD [OF i']
  have wf0: "slots_wf stack_live fst (g_resv s)"
    using inv by (simp add: stack_inv_def)
  have wf: "slots_wf stack_live fst (g_resv s')"
    unfolding resv using wf0 by (rule stk.wf_retire)
  have mem: "r \<in> set (g_resv s') \<longleftrightarrow> r \<in> set (g_resv s) \<and> fst r \<noteq> b" if "stack_live r" for r
    unfolding resv using wf0 i' that by (rule stk.in_retire_iff)
  have here: "g_resv s ! i \<in> set (g_resv s)" "stack_live (g_resv s ! i)" "fst (g_resv s ! i) = b"
    using iD by auto
  have keep: "V (stack_mem s') x \<noteq> None"
    if "r \<in> set (g_resv s')" "stack_live r" "in_range (fst r) (snd r) x" for r x
  proof -
    have r: "r \<in> set (g_resv s)" "r \<noteq> g_resv s ! i"
      using that mem here by auto
    then have "\<not> in_range b (snd (g_resv s ! i)) x"
      using inv here that unfolding stack_inv_def by metis
    with old inv r that show ?thesis
      unfolding stack_inv_def by metis
  qed
  show ?thesis
    unfolding stack_inv_def
  proof (intro conjI ballI impI)
    show "length (g_resv s') \<le> g_resv_cap s'"
      using inv by (simp add: stack_inv_def resv cap)
    fix r assume r: "r \<in> set (g_resv s')" "stack_live r"
    with inv mem show "0 < unat (snd r)" "P dvd unat (snd r)"
      unfolding stack_inv_def by blast+
    show "\<forall>x. in_range (fst r) (snd r) x \<longrightarrow> V (stack_mem s') x \<noteq> None"
      using keep [OF r] by blast
  next
    fix r r' assume "r \<in> set (g_resv s')" "r' \<in> set (g_resv s')" "stack_live r" "stack_live r'" "r \<noteq> r'"
    with inv mem show "\<forall>x. \<not> (in_range (fst r) (snd r) x \<and> in_range (fst r') (snd r') x)"
      unfolding stack_inv_def by blast
  qed (rule wf)
qed

section \<open>The two operations\<close>

lemma stack_page_size_pos: "c_long sc \<Longrightarrow> stack_page_size sc \<noteq> 0"
  using unat_of_int64 [of sc] by (auto simp: stack_page_size_def word_eq_unat c_long_def)

text \<open>The outcomes of \<open>mjs_stack_alloc\<close> once its arguments are accepted.\<close>

lemma mjs_stack_alloc_cases:
  assumes "mjs_stack_alloc K sc mem_ok res com grd ob og ot s = (rc, ob', og', ot', s')"
  obtains (invalid) "rc = - EINVAL" "ob' = ob" "og' = og" "ot' = ot" "s' = s"
    | (nomap) guard tot commit e w1
      where "stack_geometry (stack_page_size sc) res com grd = Some (guard, tot, commit)"
        "k_mmap K 0 tot PROT_NONE False (stack_mem s) = (Inl e, w1)"
        "rc = - e" "ob' = ob" "og' = og" "ot' = ot" "s' = s\<lparr>stack_mem := w1\<rparr>"
    | (undone) guard tot commit base w1 r w2
      where "stack_geometry (stack_page_size sc) res com grd = Some (guard, tot, commit)"
        "k_mmap K 0 tot PROT_NONE False (stack_mem s) = (Inr base, w1)"
        "(if commit > 0 then k_mprotect K (base + (tot - commit)) commit PROT_RW w1
          else (Inr (), w1)) = (r, w2)"
        "rc = (case r of Inl e \<Rightarrow> - (if e \<noteq> 0 then e else EIO) | Inr _ \<Rightarrow> - ENOMEM)"
        "ob' = ob" "og' = og" "ot' = ot"
        "s' = s\<lparr>stack_mem := snd (k_munmap K base tot w2)\<rparr>"
    | (ok) guard tot commit base w1 w2
      where "stack_geometry (stack_page_size sc) res com grd = Some (guard, tot, commit)"
        "k_mmap K 0 tot PROT_NONE False (stack_mem s) = (Inr base, w1)"
        "(if commit > 0 then k_mprotect K (base + (tot - commit)) commit PROT_RW w1
          else (Inr (), w1)) = (Inr (), w2)"
        "stack_record mem_ok base tot (s\<lparr>stack_mem := w2\<rparr>) = Some s'"
        "rc = 0" "ob' = Some base" "og' = Some (base + guard)" "ot' = Some (base + tot)"
proof (cases "ob = None \<or> og = None \<or> ot = None
    \<or> stack_geometry (stack_page_size sc) res com grd = None")
  case True
  with assms have "rc = - EINVAL \<and> ob' = ob \<and> og' = og \<and> ot' = ot \<and> s' = s"
    by (auto simp: mjs_stack_alloc_def split: if_splits)
  then show ?thesis using invalid by blast
next
  case False
  then obtain guard tot commit
    where geo: "stack_geometry (stack_page_size sc) res com grd = Some (guard, tot, commit)"
    by (cases "stack_geometry (stack_page_size sc) res com grd") auto
  obtain m w1 where m: "k_mmap K 0 tot PROT_NONE False (stack_mem s) = (m, w1)"
    by (cases "k_mmap K 0 tot PROT_NONE False (stack_mem s)")
  show ?thesis
  proof (cases m)
    case (Inl e)
    with assms False geo m show ?thesis
      by (intro nomap) (auto simp: mjs_stack_alloc_def)
  next
    case (Inr base)
    obtain r w2 where p: "(if commit > 0 then k_mprotect K (base + (tot - commit)) commit PROT_RW w1
          else (Inr (), w1)) = (r, w2)"
      by (cases "if commit > 0 then k_mprotect K (base + (tot - commit)) commit PROT_RW w1
          else (Inr (), w1)")
    show ?thesis
    proof (cases "\<exists>s2. r = Inr () \<and> stack_record mem_ok base tot (s\<lparr>stack_mem := w2\<rparr>) = Some s2")
      case True
      with assms False geo m Inr p show ?thesis
        by (intro ok) (auto simp: mjs_stack_alloc_def)
    next
      case nrec: False
      with assms False geo m Inr p show ?thesis
        by (intro undone [OF geo m [unfolded Inr] p])
          (auto simp: mjs_stack_alloc_def split: sum.splits option.splits)
    qed
  qed
qed

text \<open>The reservation a successful \<open>mmap\<close> gives and what the commit step makes of it.\<close>

lemma stack_region:
  assumes vm: "posix_vm K V (unat (stack_page_size sc))" and ps: "c_long sc"
    and geo: "stack_geometry (stack_page_size sc) res com grd = Some (guard, tot, commit)"
    and map: "k_mmap K 0 tot PROT_NONE False w = (Inr base, w1)"
  shows "unat (stack_page_size sc) dvd unat tot" and "0 < unat tot" and "base \<noteq> 0"
    and "unat (stack_page_size sc) dvd unat base"
    and "unat (base + tot) = unat base + unat tot"
    and "in_range base tot x \<Longrightarrow> V w x = None"
    and "V w1 x = (if in_range base tot x then Some (PROT_NONE, 0) else V w x)"
proof -
  note geoD = stack_geometry_SomeD [OF geo stack_page_size_pos [OF ps]]
  show tot: "unat (stack_page_size sc) dvd unat tot" "0 < unat tot"
    using geoD by auto
  note mapD = mmap_anon_lawD [OF vm tot(1) map]
  show "base \<noteq> 0" "unat (stack_page_size sc) dvd unat base"
    "in_range base tot x \<Longrightarrow> V w x = None"
    "V w1 x = (if in_range base tot x then Some (PROT_NONE, 0) else V w x)"
    using mapD by blast+
  show "unat (base + tot) = unat base + unat tot"
    by (rule unat_add64) (rule mapD)
qed

text \<open>The committed part is a page-aligned tail of the reservation.\<close>

lemma stack_commit_range:
  assumes vm: "posix_vm K V (unat (stack_page_size sc))" and ps: "c_long sc"
    and geo: "stack_geometry (stack_page_size sc) res com grd = Some (guard, tot, commit)"
    and map: "k_mmap K 0 tot PROT_NONE False w = (Inr base, w1)"
  shows "unat (stack_page_size sc) dvd unat commit"
    and "in_range (base + (tot - commit)) commit x
      \<longleftrightarrow> in_range base tot x \<and> unat base + unat tot - unat commit \<le> unat x"
proof -
  note region = stack_region [OF vm ps geo map]
  note geoD = stack_geometry_SomeD [OF geo stack_page_size_pos [OF ps]]
  show "unat (stack_page_size sc) dvd unat commit"
    using geoD region(1) by (auto simp: min_def split: if_splits)
  have cle: "unat commit \<le> unat tot"
    using geoD region(1) by (auto simp: min_def split: if_splits)
  have fit: "unat base + unat tot < 18446744073709551616"
    using unat_lt64 [of "base + tot"] region(5) by simp
  have "unat (base + (tot - commit)) = unat base + unat tot - unat commit"
    using cle fit by (subst unat_add64) (simp_all add: unat_sub64)
  then show "in_range (base + (tot - commit)) commit x
      \<longleftrightarrow> in_range base tot x \<and> unat base + unat tot - unat commit \<le> unat x"
    using cle by (auto simp: in_range_def)
qed

lemma stack_commit_cases:
  assumes "(if commit > 0 then k_mprotect K a commit PROT_RW w1 else (Inr (), w1)) = (r, w2)"
  obtains (none) "commit = (0 :: size_t)" "r = Inr ()" "w2 = w1"
  | (fail) e where "r = Inl e" "k_mprotect K a commit PROT_RW w1 = (Inl e, w2)"
  | (okc) "r = Inr ()" "k_mprotect K a commit PROT_RW w1 = (Inr (), w2)"
  using assms by (cases "commit = 0"; cases r) (auto simp: word_gt_0)

lemma stack_commit_step:
  assumes vm: "posix_vm K V (unat (stack_page_size sc))" and ps: "c_long sc"
    and geo: "stack_geometry (stack_page_size sc) res com grd = Some (guard, tot, commit)"
    and map: "k_mmap K 0 tot PROT_NONE False w = (Inr base, w1)"
    and com: "(if commit > 0 then k_mprotect K (base + (tot - commit)) commit PROT_RW w1
          else (Inr (), w1)) = (r, w2)"
  shows "\<not> in_range base tot x \<Longrightarrow> V w2 x = V w x"
    and "in_range base tot x \<Longrightarrow> V w2 x \<noteq> None"
    and "r = Inr () \<Longrightarrow> in_range base tot x \<Longrightarrow>
      V w2 x = Some (if unat base + unat tot - unat commit \<le> unat x then PROT_RW else PROT_NONE, 0)"
    and "r = Inl e \<Longrightarrow> 0 < e"
proof -
  note region = stack_region [OF vm ps geo map]
  note cdvd = stack_commit_range(1) [OF vm ps geo map] and rng = stack_commit_range(2) [OF vm ps geo map, of x]
  have "(\<not> in_range base tot x \<longrightarrow> V w2 x = V w x) \<and>
     (in_range base tot x \<longrightarrow> V w2 x \<noteq> None) \<and>
     (r = Inr () \<longrightarrow> in_range base tot x \<longrightarrow>
      V w2 x = Some (if unat base + unat tot - unat commit \<le> unat x then PROT_RW else PROT_NONE, 0)) \<and>
     (r = Inl e \<longrightarrow> 0 < e)"
    using com
  proof (cases rule: stack_commit_cases)
    case none
    then show ?thesis
      using region(7) [of x] by (auto simp: in_range_def)
  next
    case (fail e')
    have "V w2 x = V w1 x \<or>
        in_range (base + (tot - commit)) commit x \<and> V w2 x = set_prot PROT_RW (V w1 x)"
      using vm cdvd fail(2) unfolding posix_vm_def mprotect_law_def by fastforce
    with region(7) [of x] mprotect_errno [OF vm cdvd fail(2)] fail(1) rng show ?thesis
      by (auto simp: set_prot_def)
  next
    case okc
    with region(7) [of x] mprotect_lawD [OF vm cdvd okc(2), of x] rng show ?thesis
      by (auto simp: set_prot_def)
  qed
  then show "\<not> in_range base tot x \<Longrightarrow> V w2 x = V w x" "in_range base tot x \<Longrightarrow> V w2 x \<noteq> None"
    "r = Inr () \<Longrightarrow> in_range base tot x \<Longrightarrow>
      V w2 x = Some (if unat base + unat tot - unat commit \<le> unat x then PROT_RW else PROT_NONE, 0)"
    "r = Inl e \<Longrightarrow> 0 < e"
    by blast+
qed

lemma stack_alloc_okE:
  assumes vm: "posix_vm K V (unat (stack_page_size sc))" and ps: "c_long sc"
    and res: "mjs_stack_alloc K sc mem_ok res com grd ob og ot s = (0, ob', og', ot', s')"
  obtains guard tot commit base w1 w2
      where "stack_geometry (stack_page_size sc) res com grd = Some (guard, tot, commit)"
        "k_mmap K 0 tot PROT_NONE False (stack_mem s) = (Inr base, w1)"
        "(if commit > 0 then k_mprotect K (base + (tot - commit)) commit PROT_RW w1
          else (Inr (), w1)) = (Inr (), w2)"
        "stack_record mem_ok base tot (s\<lparr>stack_mem := w2\<rparr>) = Some s'"
        "ob' = Some base" "og' = Some (base + guard)" "ot' = Some (base + tot)"
  using res
proof (cases rule: mjs_stack_alloc_cases)
  case (nomap guard tot commit e w1)
  have "unat (stack_page_size sc) dvd unat tot"
    using stack_geometry_SomeD [OF nomap(1) stack_page_size_pos [OF ps]] by auto
  from mmap_anon_failD(1) [OF vm this nomap(2)] nomap(3) show ?thesis by simp
next
  case (undone guard tot commit base w1 r w2)
  from stack_commit_step(4) [OF vm ps undone(1,2,3)] undone(4) show ?thesis
    by (auto split: sum.splits)
qed (use that in simp_all)

lemma munmap_view:
  assumes "posix_vm K V P" and "P dvd unat n" and "k_munmap K a n w = (r, w')"
  shows "V w' x = V w x \<or> in_range a n x \<and> V w' x = None"
    and "r = Inl e \<Longrightarrow> 0 < e"
proof -
  have "P dvd unat n \<longrightarrow> k_munmap K a n w = (r, w') \<longrightarrow>
     (case r of
        Inl e \<Rightarrow> 0 < e \<and> V w' = V w
      | Inr _ \<Rightarrow> (\<forall>x. V w' x = (if in_range a n x then None else V w x)))"
    using assms(1) unfolding posix_vm_def munmap_law_def by blast
  with assms(2,3) show "V w' x = V w x \<or> in_range a n x \<and> V w' x = None"
    "r = Inl e \<Longrightarrow> 0 < e"
    by (auto split: sum.splits)
qed

lemma stack_inv_unmapped_change:
  assumes "stack_inv V P s" and "g_resv s' = g_resv s" and "g_resv_cap s' = g_resv_cap s"
    and "\<And>x. V (stack_mem s) x \<noteq> None \<Longrightarrow> V (stack_mem s') x \<noteq> None"
  shows "stack_inv V P s'"
  using assms unfolding stack_inv_def by metis

lemma mjs_stack_free_cases:
  assumes "mjs_stack_free K base s = (rc, base', s')"
  obtains (invalid) "rc = - EINVAL" "base' = base" "s' = s"
    | (err) b i e w' where "base = Some b" "b \<noteq> 0" "scan (\<lambda>r. fst r = b) (g_resv s) = Some i"
        "k_munmap K b (snd (g_resv s ! i)) (stack_mem s) = (Inl e, w')"
        "rc = - e" "base' = base" "s' = s\<lparr>stack_mem := w'\<rparr>"
    | (ok) b i w' where "base = Some b" "b \<noteq> 0" "scan (\<lambda>r. fst r = b) (g_resv s) = Some i"
        "k_munmap K b (snd (g_resv s ! i)) (stack_mem s) = (Inr (), w')"
        "rc = 0" "base' = Some 0" "s' = s\<lparr>g_resv := (g_resv s)[i := (0, 0)], stack_mem := w'\<rparr>"
proof (cases "\<exists>b i. base = Some b \<and> b \<noteq> 0 \<and> scan (\<lambda>r. fst r = b) (g_resv s) = Some i")
  case True
  then obtain b i where b: "base = Some b" "b \<noteq> 0" "scan (\<lambda>r. fst r = b) (g_resv s) = Some i"
    by blast
  obtain r w' where u: "k_munmap K b (snd (g_resv s ! i)) (stack_mem s) = (r, w')"
    by (cases "k_munmap K b (snd (g_resv s ! i)) (stack_mem s)")
  show ?thesis
  proof (cases r)
    case (Inl e)
    with assms b u show ?thesis by (intro err [OF b]) (auto simp: mjs_stack_free_def)
  next
    case (Inr v)
    with assms b u show ?thesis by (intro ok [OF b]) (auto simp: mjs_stack_free_def)
  qed
next
  case False
  then have "mjs_stack_free K base s = (- EINVAL, base, s)"
    by (cases base) (auto simp: mjs_stack_free_def split: option.splits)
  with assms invalid show ?thesis by simp
qed

lemma stack_alloc_inv:
  assumes vm: "posix_vm K V (unat (stack_page_size sc))" and ps: "c_long sc"
    and inv: "stack_inv V (unat (stack_page_size sc)) s"
    and res: "mjs_stack_alloc K sc mem_ok res com grd ob og ot s = (rc, ob', og', ot', s')"
  shows "stack_inv V (unat (stack_page_size sc)) s'"
  using res
proof (cases rule: mjs_stack_alloc_cases)
  case invalid
  with inv show ?thesis by simp
next
  case (nomap guard tot commit e w1)
  have "unat (stack_page_size sc) dvd unat tot"
    using stack_geometry_SomeD [OF nomap(1) stack_page_size_pos [OF ps]] by auto
  from mmap_anon_failD(2) [OF vm this nomap(2)] show ?thesis
    by (intro stack_inv_unmapped_change [OF inv]) (simp_all add: nomap(7))
next
  case (undone guard tot commit base w1 r w2)
  note region = stack_region [OF vm ps undone(1,2)]
    and step = stack_commit_step [OF vm ps undone(1,2,3)]
  obtain u w3 where u: "k_munmap K base tot w2 = (u, w3)"
    by (cases "k_munmap K base tot w2")
  have "V w3 x \<noteq> None" if "V (stack_mem s) x \<noteq> None" for x
    using munmap_view(1) [OF vm region(1) u, of x] step(1) [of x] region(6) [of x] that by metis
  then show ?thesis
    by (intro stack_inv_unmapped_change [OF inv]) (simp_all add: undone(8) u)
next
  case (ok guard tot commit base w1 w2)
  note region = stack_region [OF vm ps ok(1,2)] and step = stack_commit_step [OF vm ps ok(1,2,3)]
    and rec = stack_record_SomeD [OF ok(4)]
  show ?thesis
  proof (rule stack_inv_place [OF inv region(6,2,1,3)])
    show "g_resv s' = slot_place stack_live (base, tot) (g_resv s)"
      using rec(1) by simp
    show "length (g_resv s') \<le> g_resv_cap s'"
      using rec(3) inv by (simp add: stack_inv_def)
  qed (use step rec(2) in simp_all)
qed

lemma stack_free_inv:
  assumes vm: "posix_vm K V P" and inv: "stack_inv V P s"
    and res: "mjs_stack_free K base s = (rc, base', s')"
  shows "stack_inv V P s'"
  using res
proof (cases rule: mjs_stack_free_cases)
  case invalid
  with inv show ?thesis by simp
next
  case (err b i e w')
  have "P dvd unat (snd (g_resv s ! i))"
    using inv scan_SomeD [OF err(3)] err(2) unfolding stack_inv_def stack_live_def
    by (metis nth_mem)
  then have "V w' = V (stack_mem s)"
    using vm err(4) unfolding posix_vm_def munmap_law_def by fastforce
  then show ?thesis
    by (intro stack_inv_unmapped_change [OF inv]) (simp_all add: err(7))
next
  case (ok b i w')
  have "P dvd unat (snd (g_resv s ! i))"
    using inv scan_SomeD [OF ok(3)] ok(2) unfolding stack_inv_def stack_live_def
    by (metis nth_mem)
  with munmap_lawD [OF vm _ ok(4)] show ?thesis
    by (intro stack_inv_retire [OF inv ok(3,2)]) (simp_all add: ok(7))
qed

section \<open>Properties\<close>

text \<open>
  (C4) The layout of a successful \<open>mjs_stack_alloc\<close>. The reservation is the guard followed by
  the usable span (the request rounded up to pages, at least one page); its addresses were
  unmapped before and do not wrap; the whole guard and the uncommitted gap above it are
  PROT\_NONE, the committed top span (the initial commit rounded up to pages and clamped to the
  usable span) is readable, writable and zero; every byte outside is untouched. The out
  parameters are the base, the first byte above the guard and the top, which is 16-byte
  aligned.
\<close>
theorem stack_alloc_layout:
  assumes "posix_vm K V (unat (stack_page_size sc))" and "c_long sc"
    and "16 dvd unat (stack_page_size sc)"
    and "mjs_stack_alloc K sc mem_ok reserve commit_req grd ob og ot s = (0, ob', og', ot', s')"
  shows "\<exists>base tot com. ob' = Some base \<and> og' = Some (base + grd) \<and> ot' = Some (base + tot) \<and>
    base \<noteq> 0 \<and> unat (base + tot) = unat base + unat tot \<and> 16 dvd unat (base + tot) \<and>
    0 < unat grd \<and> unat tot = unat grd +
      nat_round_up (if reserve = 0 then unat (stack_page_size sc) else unat reserve)
        (unat (stack_page_size sc)) \<and>
    com = min (nat_round_up (unat commit_req) (unat (stack_page_size sc))) (unat tot - unat grd) \<and>
    (\<forall>x. in_range base tot x \<longrightarrow> V (stack_mem s) x = None) \<and>
    (\<forall>x. V (stack_mem s') x =
      (if \<not> in_range base tot x then V (stack_mem s) x
       else if unat base + unat tot - com \<le> unat x then Some (PROT_RW, 0)
       else Some (PROT_NONE, 0))) \<and>
    (\<forall>x. in_range base grd x \<longrightarrow> V (stack_mem s') x = Some (PROT_NONE, 0)) \<and>
    (base, tot) \<in> set (g_resv s')"
  using assms(1,2,4)
proof (cases rule: stack_alloc_okE)
  case ok: (1 guard tot commit base w1 w2)
  note region = stack_region [OF assms(1,2) ok(1,2)]
    and step = stack_commit_step [OF assms(1,2) ok(1,2,3)]
    and geo = stack_geometry_SomeD [OF ok(1) stack_page_size_pos [OF assms(2)]]
    and rec = stack_record_SomeD [OF ok(4)]
  have mem: "stack_mem s' = w2" and reg: "(base, tot) \<in> set (g_resv s')"
    using rec(1,2) region(3) by (simp_all add: stk.in_place_iff)
  have align: "16 dvd unat (base + tot)"
    unfolding region(5) using region(1,4) assms(3) by (meson dvd_add dvd_trans)
  have view: "V w2 x = (if \<not> in_range base tot x then V (stack_mem s) x
       else if unat base + unat tot - unat commit \<le> unat x then Some (PROT_RW, 0)
       else Some (PROT_NONE, 0))" for x
    using step(1,3) [of x] by simp
  have guardv: "V w2 x = Some (PROT_NONE, 0)" if "in_range base grd x" for x
    using that geo(1,4,5) unfolding view in_range_def by auto
  show ?thesis
    using region(3,5,6) align geo reg guardv view
    by (intro exI [of _ base] exI [of _ tot] exI [of _ "unat commit"])
      (simp add: ok(5-7) mem)
qed

lemma stack_boot_alloc:
  obtains s' where
    "mjs_stack_alloc (flat_kernel (2 ^ 48)) 4096 True 10000 5000 4096 (Some 0) (Some 0) (Some 0)
       stack_boot = (0, Some 65536, Some 69632, Some 81920, s')"
    and "g_resv s' = [(65536, 16384)]"
  by (simp add: mjs_stack_alloc_def stack_geometry_def stack_page_size_def stack_round_up_def
      Let_def flat_kernel_def stack_boot_def stack_record_def)

lemma stack_page_4096 [simp]: "stack_page_size 4096 = 4096"
  by (simp add: stack_page_size_def)

theorem stack_alloc_layout_witness:
  "\<exists>s'. mjs_stack_alloc (flat_kernel (2 ^ 48)) 4096 True 10000 5000 4096 (Some 0) (Some 0) (Some 0)
       stack_boot = (0, Some 65536, Some 69632, Some 81920, s') \<and>
     flat_view (stack_mem s') 65536 = Some (PROT_NONE, 0) \<and>
     (65536, 16384) \<in> set (g_resv s')"
proof -
  obtain s' where
    res: "mjs_stack_alloc (flat_kernel (2 ^ 48)) 4096 True 10000 5000 4096 (Some 0) (Some 0) (Some 0)
       stack_boot = (0, Some 65536, Some 69632, Some 81920, s')"
    and reg: "g_resv s' = [(65536, 16384)]"
    by (rule stack_boot_alloc)
  have vm: "posix_vm (flat_kernel (2 ^ 48)) flat_view (unat (stack_page_size 4096))"
    using flat_kernel_posix by simp
  have "c_long 4096" and "16 dvd unat (stack_page_size 4096)"
    by (simp_all add: c_long_def)
  from stack_alloc_layout [OF vm this res]
  have "\<forall>x. in_range 65536 4096 x \<longrightarrow> flat_view (stack_mem s') x = Some (PROT_NONE, 0)"
    by blast
  moreover have "in_range 65536 4096 65536"
    by (simp add: in_range_def)
  ultimately show ?thesis
    using res reg by auto
qed

text \<open>
  (C5) Both operations keep the registry invariant, whatever they return: the array fits its
  capacity, live bases are distinct, live reservations are non-empty page multiples of mapped
  memory, and no two of them share a byte.
\<close>
theorem stack_registry_invariant:
  assumes "posix_vm K V (unat (stack_page_size sc))" and "c_long sc"
    and "stack_inv V (unat (stack_page_size sc)) s"
  shows "(\<forall>rc ob' og' ot' s'.
       mjs_stack_alloc K sc mem_ok reserve commit_req grd ob og ot s = (rc, ob', og', ot', s')
       \<longrightarrow> stack_inv V (unat (stack_page_size sc)) s') \<and>
    (\<forall>rc b' s'. mjs_stack_free K b s = (rc, b', s') \<longrightarrow> stack_inv V (unat (stack_page_size sc)) s')"
  using stack_alloc_inv [OF assms] stack_free_inv [OF assms(1,3)] by blast

lemma stack_free_recorded:
  assumes wf: "slots_wf stack_live fst (g_resv s)" and reg: "(base, tot) \<in> set (g_resv s)"
    and base: "base \<noteq> 0"
  shows "case k_munmap K base tot (stack_mem s) of
       (Inr _, w') \<Rightarrow> \<exists>s2. mjs_stack_free K (Some base) s = (0, Some 0, s2) \<and> stack_mem s2 = w' \<and>
         (\<forall>r \<in> set (g_resv s2). fst r \<noteq> base) \<and>
         mjs_stack_free K (Some base) s2 = (- EINVAL, Some base, s2)
     | (Inl e, w') \<Rightarrow> \<exists>s2. mjs_stack_free K (Some base) s = (- e, Some base, s2) \<and>
         stack_mem s2 = w' \<and> g_resv s2 = g_resv s"
proof -
  have "slot_lookup stack_live fst base (g_resv s) = Some (base, tot)"
    using reg base by (simp add: stk.lookup_Some_iff [OF wf])
  moreover have eq: "(\<lambda>r. stack_live r \<and> fst r = base) = (\<lambda>r. fst r = base)"
    using base by (auto simp: stack_live_def)
  ultimately obtain i where i: "scan (\<lambda>r. fst r = base) (g_resv s) = Some i"
    and ri: "g_resv s ! i = (base, tot)"
    by (auto simp: slot_lookup_def split: option.splits)
  obtain r w' where u: "k_munmap K base tot (stack_mem s) = (r, w')"
    by (cases "k_munmap K base tot (stack_mem s)")
  show ?thesis
  proof (cases r)
    case (Inl e)
    with base i ri u show ?thesis
      by (simp add: mjs_stack_free_def)
  next
    case (Inr v)
    define s2 where "s2 = s\<lparr>g_resv := (g_resv s)[i := (0, 0)], stack_mem := w'\<rparr>"
    have free: "mjs_stack_free K (Some base) s = (0, Some 0, s2)"
      using base i ri u Inr by (simp add: mjs_stack_free_def s2_def)
    have gone: "fst r \<noteq> base" if "r \<in> set (g_resv s2)" for r
      using that stk.in_retire_iff [OF wf i [folded eq], of r] base
      by (cases "stack_live r") (auto simp: s2_def stack_live_def)
    then have "scan (\<lambda>r. fst r = base) (g_resv s2) = None"
      by (simp add: scan_None_iff)
    with base have "mjs_stack_free K (Some base) s2 = (- EINVAL, Some base, s2)"
      by (simp add: mjs_stack_free_def)
    with free gone show ?thesis
      by (simp add: u Inr s2_def)
  qed
qed

lemma stack_boot_inv: "stack_inv V P stack_boot"
  by (simp add: stack_inv_def stack_boot_def slots_wf_def)

theorem stack_registry_invariant_witness:
  "\<exists>s'. mjs_stack_alloc (flat_kernel (2 ^ 48)) 4096 True 10000 5000 4096 (Some 0) (Some 0) (Some 0)
       stack_boot = (0, Some 65536, Some 69632, Some 81920, s') \<and> stack_inv flat_view 4096 s'"
proof -
  have vm: "posix_vm (flat_kernel (2 ^ 48)) flat_view (unat (stack_page_size 4096))"
    using flat_kernel_posix by simp
  obtain s' where
    res: "mjs_stack_alloc (flat_kernel (2 ^ 48)) 4096 True 10000 5000 4096 (Some 0) (Some 0) (Some 0)
       stack_boot = (0, Some 65536, Some 69632, Some 81920, s')"
    by (rule stack_boot_alloc)
  from stack_registry_invariant [OF vm _ stack_boot_inv] res show ?thesis
    by (simp add: c_long_def)
qed

text \<open>
  (C6) Alloc and free are inverse. After a successful alloc the registry holds the base with a
  nonzero, page-multiple size, and a free of that base passes exactly this pair to
  \<open>munmap\<close>. When that call succeeds, the free returns 0, NULLs the caller's slot, gives every
  byte of the address space back its former state and leaves no record of the base, and a
  second free is refused with \<open>-EINVAL\<close> and changes nothing. When it fails with \<open>e\<close>, the free
  returns \<open>-e\<close>, leaves the slot and every byte as they were and keeps the record, so that the
  free can be repeated.
\<close>
theorem stack_alloc_free_roundtrip:
  assumes "posix_vm K V (unat (stack_page_size sc))" and "c_long sc"
    and "stack_inv V (unat (stack_page_size sc)) s"
    and "mjs_stack_alloc K sc mem_ok reserve commit_req grd ob og ot s
      = (0, Some base, og', ot', s1)"
  shows "\<exists>tot. (base, tot) \<in> set (g_resv s1) \<and> tot \<noteq> 0 \<and>
    unat (stack_page_size sc) dvd unat tot \<and>
    (case k_munmap K base tot (stack_mem s1) of
       (Inr _, w') \<Rightarrow> \<exists>s2. mjs_stack_free K (Some base) s1 = (0, Some 0, s2) \<and>
         stack_mem s2 = w' \<and> V (stack_mem s2) = V (stack_mem s) \<and>
         (\<forall>r \<in> set (g_resv s2). fst r \<noteq> base) \<and>
         mjs_stack_free K (Some base) s2 = (- EINVAL, Some base, s2)
     | (Inl e, w') \<Rightarrow> \<exists>s2. mjs_stack_free K (Some base) s1 = (- e, Some base, s2) \<and> 0 < e \<and>
         stack_mem s2 = w' \<and> V (stack_mem s2) = V (stack_mem s1) \<and> g_resv s2 = g_resv s1)"
  using assms(1,2,4)
proof (cases rule: stack_alloc_okE)
  case ok: (1 guard tot commit b w1 w2)
  then have [simp]: "b = base" by simp
  note region = stack_region [OF assms(1,2) ok(1,2), simplified]
    and step = stack_commit_step [OF assms(1,2) ok(1,2,3), simplified]
    and rec = stack_record_SomeD [OF ok(4)]
  have inv1: "stack_inv V (unat (stack_page_size sc)) s1"
    by (rule stack_alloc_inv [OF assms(1-4)])
  have mem: "stack_mem s1 = w2" and reg: "(base, tot) \<in> set (g_resv s1)"
    using rec(1,2) region(3) by (simp_all add: stk.in_place_iff)
  have wf1: "slots_wf stack_live fst (g_resv s1)"
    using inv1 by (simp add: stack_inv_def)
  have undo: "V w' x = V (stack_mem s) x" if "k_munmap K base tot w2 = (Inr (), w')" for w' x
    using munmap_lawD [OF assms(1) region(1) that, of x] step(1) [of x] region(6) [of x] by simp
  have tot: "tot \<noteq> 0"
    using region(2) by (simp add: unat_gt_0)
  obtain r w' where u: "k_munmap K base tot w2 = (r, w')"
    by (cases "k_munmap K base tot w2")
  note free = stack_free_recorded [OF wf1 reg region(3), of K, unfolded mem u prod.case]
  show ?thesis
  proof (cases r)
    case (Inl e)
    note munmap_failD [OF assms(1) region(1) u [unfolded Inl]]
    with free Inl u mem reg tot region(1) show ?thesis
      by (intro exI [of _ tot]) auto
  next
    case (Inr v)
    then have "V w' = V (stack_mem s)"
      using undo u by auto
    with free Inr u mem reg tot region(1) show ?thesis
      by (intro exI [of _ tot]) auto
  qed
qed

theorem stack_alloc_free_roundtrip_witness:
  "\<exists>s1 s2. mjs_stack_alloc (flat_kernel (2 ^ 48)) 4096 True 10000 5000 4096 (Some 0) (Some 0)
       (Some 0) stack_boot = (0, Some 65536, Some 69632, Some 81920, s1) \<and>
     mjs_stack_free (flat_kernel (2 ^ 48)) (Some 65536) s1 = (0, Some 0, s2) \<and>
     flat_view (stack_mem s2) = flat_view (stack_mem stack_boot) \<and>
     mjs_stack_free (flat_kernel (2 ^ 48)) (Some 65536) s2 = (- EINVAL, Some 65536, s2)"
proof -
  obtain s1 where
    res: "mjs_stack_alloc (flat_kernel (2 ^ 48)) 4096 True 10000 5000 4096 (Some 0) (Some 0) (Some 0)
       stack_boot = (0, Some 65536, Some 69632, Some 81920, s1)"
    and reg: "g_resv s1 = [(65536, 16384)]"
    by (rule stack_boot_alloc)
  have vm: "posix_vm (flat_kernel (2 ^ 48)) flat_view (unat (stack_page_size 4096))"
    using flat_kernel_posix by simp
  have c: "c_long 4096" by (simp add: c_long_def)
  have ok: "\<exists>w'. k_munmap (flat_kernel (2 ^ 48)) 65536 16384 w = (Inr (), w')" for w
    by (simp add: flat_kernel_def)
  from stack_alloc_free_roundtrip [OF vm c stack_boot_inv res] ok [of "stack_mem s1"] res
  show ?thesis
    by (auto simp: reg)
qed

text \<open>
  A failed \<open>mjs_stack_alloc\<close> returns a negative code and leaves the registry and the three
  out parameters as they were; unless the final \<open>munmap\<close> of the reservation it undoes fails, no
  mapping leaks either: every byte of the address space is as before the call.
\<close>
theorem stack_alloc_failure_clean:
  assumes "posix_vm K V (unat (stack_page_size sc))" and "c_long sc"
    and "mjs_stack_alloc K sc mem_ok reserve commit_req grd ob og ot s = (rc, ob', og', ot', s')"
    and "rc \<noteq> 0"
  shows "rc < 0 \<and> ob' = ob \<and> og' = og \<and> ot' = ot \<and>
    g_resv s' = g_resv s \<and> g_resv_cap s' = g_resv_cap s \<and>
    (V (stack_mem s') = V (stack_mem s) \<or>
     (\<exists>base tot w e. tot \<noteq> 0 \<and> k_munmap K base tot w = (Inl e, stack_mem s')))"
  using assms(3)
proof (cases rule: mjs_stack_alloc_cases)
  case (nomap guard tot commit e w1)
  have "unat (stack_page_size sc) dvd unat tot"
    using stack_geometry_SomeD [OF nomap(1) stack_page_size_pos [OF assms(2)]] by auto
  from mmap_anon_failD [OF assms(1) this nomap(2)] show ?thesis by (simp add: nomap(3-7))
next
  case (undone guard tot commit base w1 r w2)
  note region = stack_region [OF assms(1,2) undone(1,2)]
    and step = stack_commit_step [OF assms(1,2) undone(1,2,3)]
  obtain u w3 where u: "k_munmap K base tot w2 = (u, w3)"
    by (cases "k_munmap K base tot w2")
  have "V w3 x = V (stack_mem s) x" if "u = Inr ()" for x
    using munmap_lawD [OF assms(1) region(1) u [unfolded that], of x] step(1) [of x]
      region(6) [of x] by simp
  then have "V w3 = V (stack_mem s) \<or> (\<exists>e. u = Inl e)"
    by (cases u) auto
  moreover have "tot \<noteq> 0"
    using region(2) by (simp add: unat_gt_0)
  ultimately have "V w3 = V (stack_mem s) \<or>
      (\<exists>base tot w e. tot \<noteq> 0 \<and> k_munmap K base tot w = (Inl e, w3))"
    using u by blast
  with step(4) show ?thesis
    by (auto simp: undone(4-8) u split: sum.splits)
qed (use assms(4) in simp_all)

theorem stack_alloc_failure_clean_witness:
  "\<exists>s'. mjs_stack_alloc (flat_kernel (2 ^ 48)) 4096 False 10000 5000 4096 (Some 0) (Some 0) (Some 0)
       stack_boot = (- ENOMEM, Some 0, Some 0, Some 0, s') \<and>
     g_resv s' = g_resv stack_boot"
proof -
  have vm: "posix_vm (flat_kernel (2 ^ 48)) flat_view (unat (stack_page_size 4096))"
    using flat_kernel_posix by simp
  have c: "c_long 4096" by (simp add: c_long_def)
  obtain s' where
    res: "mjs_stack_alloc (flat_kernel (2 ^ 48)) 4096 False 10000 5000 4096 (Some 0) (Some 0) (Some 0)
       stack_boot = (- ENOMEM, Some 0, Some 0, Some 0, s')"
    by (simp add: mjs_stack_alloc_def stack_geometry_def stack_page_size_def stack_round_up_def
        Let_def flat_kernel_def stack_boot_def stack_record_def)
  with stack_alloc_failure_clean [OF vm c res] show ?thesis by simp
qed

end
