(* ===== verification/Mjs_Time.thy ===== *)
theory Mjs_Time
  imports Mjs_Prelude
begin

text \<open>
  The monotonic clock (native/posix/mjs\_time.c), both the macOS path (ticks scaled by the
  cached timebase) and the \<open>clock_gettime\<close> path. The tick counter, the timebase query and the
  timespecs are arguments.
\<close>

section \<open>Definitions\<close>

text \<open>
  The cached timebase: \<^term>\<open>None\<close> before \<open>pthread_once\<close> has run, then numerator and
  denominator. A query is \<open>(kr = KERN_SUCCESS, numer, denom)\<close>.
\<close>

type_synonym timebase = "(u32 \<times> u32) option"

definition mjs_timebase_init :: "bool \<times> u32 \<times> u32 \<Rightarrow> u32 \<times> u32" where
  "mjs_timebase_init query =
     (case query of (ok, numer, denom) \<Rightarrow>
        if \<not> ok \<or> denom = 0 \<or> numer = 0 then (1, 1) else (numer, denom))"

definition mjs_timebase_calibrate :: "bool \<times> u32 \<times> u32 \<Rightarrow> timebase \<Rightarrow> timebase" where
  "mjs_timebase_calibrate query tb =
     (case tb of None \<Rightarrow> Some (mjs_timebase_init query) | Some _ \<Rightarrow> tb)"

definition mjs_clock_now_mach ::
    "bool \<times> u32 \<times> u32 \<Rightarrow> u64 \<Rightarrow> u64 slot \<Rightarrow> timebase \<Rightarrow> int \<times> u64 slot \<times> timebase" where
  "mjs_clock_now_mach query t out_ns tb =
     (if out_ns = None then (- EFAULT, out_ns, tb)
      else
        let tb' = mjs_timebase_calibrate query tb;
            numer = ucast (fst (the tb')) :: u64;
            denom = ucast (snd (the tb')) :: u64;
            q = t div denom;
            r = t mod denom
        in (0, Some (q * numer + (r * numer) div denom), tb'))"

text \<open>A timespec is the pair of its signed fields \<open>tv_sec\<close> and \<open>tv_nsec\<close>.\<close>

definition mjs_clock_now :: "(int \<times> int) host \<Rightarrow> u64 slot \<Rightarrow> int \<times> u64 slot" where
  "mjs_clock_now ts out_ns =
     (if out_ns = None then (- EFAULT, out_ns)
      else case ts of
             Inl errno \<Rightarrow> (- (if errno > 0 then errno else EINVAL), out_ns)
           | Inr (sec, nsec) \<Rightarrow> (0, Some (of_int sec * 1000000000 + of_int nsec)))"

definition mjs_clock_resolution_mach ::
    "bool \<times> u32 \<times> u32 \<Rightarrow> u64 slot \<Rightarrow> timebase \<Rightarrow> int \<times> u64 slot \<times> timebase" where
  "mjs_clock_resolution_mach query out_res_ns tb =
     (if out_res_ns = None then (- EFAULT, out_res_ns, tb)
      else
        let tb' = mjs_timebase_calibrate query tb;
            n = ucast (fst (the tb')) :: u64;
            d = ucast (snd (the tb')) :: u64;
            res = (n + d - 1) div d
        in (0, Some (if res > 0 then res else 1), tb'))"

definition mjs_clock_resolution :: "(int \<times> int) host \<Rightarrow> u64 slot \<Rightarrow> int \<times> u64 slot" where
  "mjs_clock_resolution ts out_res_ns =
     (if out_res_ns = None then (- EFAULT, out_res_ns)
      else case ts of
             Inl errno \<Rightarrow> (- (if errno > 0 then errno else EINVAL), out_res_ns)
           | Inr (sec, nsec) \<Rightarrow>
               let res = of_int sec * 1000000000 + of_int nsec
               in (0, Some (if res > 0 then res else 1)))"

text \<open>A timebase as calibration leaves it: neither field is zero.\<close>

definition timebase_ok :: "timebase \<Rightarrow> bool" where
  "timebase_ok tb \<longleftrightarrow> (case tb of None \<Rightarrow> True | Some (n, d) \<Rightarrow> n \<noteq> 0 \<and> d \<noteq> 0)"

section \<open>Lemmas\<close>

lemma calibrate_ok:
  assumes "timebase_ok tb"
  obtains n d where "mjs_timebase_calibrate query tb = Some (n, d)" "n \<noteq> 0" "d \<noteq> 0"
proof (cases tb)
  case None
  show ?thesis
    by (rule that [of "fst (mjs_timebase_init query)" "snd (mjs_timebase_init query)"])
      (auto simp: None mjs_timebase_calibrate_def mjs_timebase_init_def split: prod.splits)
next
  case (Some nd)
  with assms show ?thesis
    by (intro that [of "fst nd" "snd nd"])
      (auto simp: mjs_timebase_calibrate_def timebase_ok_def split: prod.splits)
qed

lemma calibrate_once:
  "mjs_timebase_calibrate q2 (mjs_timebase_calibrate q1 tb) = mjs_timebase_calibrate q1 tb"
  by (simp add: mjs_timebase_calibrate_def split: option.splits)

lemma unat_ucast32: "unat (ucast (x :: u32) :: u64) = unat x"
  by (simp add: unsigned_ucast_eq take_bit_nat_eq_self less_trans [OF unat_lt32])

text \<open>The quotient and remainder split of the scaling.\<close>

lemma scale_split: "(t :: nat) div d * n + t mod d * n div d = t * n div d" if "0 < d"
proof -
  have "t * n = (t div d * n) * d + t mod d * n"
    by (metis add.commute distrib_right div_mult_mod_eq mult.commute mult.left_commute)
  then have "t * n div d = ((t div d * n) * d + t mod d * n) div d"
    by simp
  also have "\<dots> = t div d * n + t mod d * n div d"
    using that by simp
  finally show ?thesis by simp
qed

lemma scale_words:
  fixes t :: u64 and n d :: u32
  assumes d: "d \<noteq> 0" and fits: "unat t * unat n div unat d < 18446744073709551616"
  defines "N \<equiv> ucast n :: u64" and "D \<equiv> ucast d :: u64"
  shows "unat (t div D * N + (t mod D * N) div D) = unat t * unat n div unat d"
proof -
  have u: "unat N = unat n" "unat D = unat d"
    by (simp_all add: N_def D_def unat_ucast32)
  have d0: "0 < unat d"
    using d by (simp add: unat_gt_0)
  have split: "unat t div unat d * unat n + unat t mod unat d * unat n div unat d
      = unat t * unat n div unat d"
    using d0 by (rule scale_split)
  have q: "unat (t div D * N) = unat t div unat d * unat n"
    using fits split by (subst unat_mult64) (simp_all add: unat_div u)
  have "unat t mod unat d * unat n < 4294967296 * 4294967296"
  proof (rule mult_strict_mono')
    show "unat t mod unat d < 4294967296"
      using mod_less_divisor [OF d0] unat_lt32 [of d] by (rule less_trans)
  qed simp_all
  then have r: "unat (t mod D * N) = unat t mod unat d * unat n"
    by (subst unat_mult64) (simp_all add: unat_mod u)
  show ?thesis
    using fits split by (subst unat_add64) (simp_all add: unat_div q r u)
qed

section \<open>Properties\<close>

text \<open>
  (C12) The macOS clock is exact and monotone. Whatever the timebase query answered,
  \<open>mjs_clock_now\<close> never divides by zero and yields precisely the floor of
  ticks * numer / denom whenever that value fits 64 bits; two readings with growing tick
  counts are ordered, and the second reading reuses the calibration of the first.
\<close>
theorem clock_now_mach_exact:
  assumes "timebase_ok tb" and "t1 \<le> t2"
    and "mjs_clock_now_mach q1 t1 (Some x1) tb = (rc1, out1, tb1)"
    and "mjs_clock_now_mach q2 t2 (Some x2) tb1 = (rc2, out2, tb2)"
    and "unat t2 * unat (fst (the tb1)) div unat (snd (the tb1)) < 18446744073709551616"
  shows "\<exists>ns1 ns2. out1 = Some ns1 \<and> out2 = Some ns2 \<and> rc1 = 0 \<and> rc2 = 0 \<and>
    unat ns1 = unat t1 * unat (fst (the tb1)) div unat (snd (the tb1)) \<and>
    unat ns2 = unat t2 * unat (fst (the tb1)) div unat (snd (the tb1)) \<and>
    ns1 \<le> ns2 \<and> tb2 = tb1 \<and> timebase_ok tb2"
proof -
  obtain n d where tb1: "mjs_timebase_calibrate q1 tb = Some (n, d)" and nd: "n \<noteq> 0" "d \<noteq> 0"
    using assms(1) by (rule calibrate_ok)
  have tb: "tb1 = Some (n, d)"
    using assms(3) tb1 by (auto simp: mjs_clock_now_mach_def Let_def)
  then have same: "mjs_timebase_calibrate q2 tb1 = Some (n, d)"
    by (simp add: mjs_timebase_calibrate_def)
  have le: "unat t1 * unat n div unat d \<le> unat t2 * unat n div unat d"
    using assms(2) by (intro div_le_mono mult_le_mono1) (simp add: word_le_unat)
  have fit2: "unat t2 * unat n div unat d < 18446744073709551616"
    using assms(5) by (simp add: tb)
  note s1 = scale_words [OF nd(2) le_less_trans [OF le fit2]] and s2 = scale_words [OF nd(2) fit2]
  show ?thesis
    using assms(3,4) tb1 same s1 s2 le nd
    by (auto simp: mjs_clock_now_mach_def Let_def tb word_le_unat timebase_ok_def)
qed

theorem clock_now_mach_exact_witness:
  "\<exists>ns1 ns2 tb. mjs_clock_now_mach (True, 125, 3) 100 (Some 0) None = (0, Some ns1, tb) \<and>
     mjs_clock_now_mach (True, 1, 1) 1000 (Some 0) tb = (0, Some ns2, tb) \<and>
     unat ns1 = 4166 \<and> unat ns2 = 41666 \<and> ns1 \<le> ns2"
proof -
  have ok: "timebase_ok None" and le: "(100 :: u64) \<le> 1000"
    by (simp_all add: timebase_ok_def)
  have r1: "mjs_clock_now_mach (True, 125, 3) 100 (Some 0) None = (0, Some 4166, Some (125, 3))"
    and r2: "mjs_clock_now_mach (True, 1, 1) 1000 (Some 0) (Some (125, 3))
      = (0, Some 41666, Some (125, 3))"
    by (simp_all add: mjs_clock_now_mach_def mjs_timebase_calibrate_def mjs_timebase_init_def Let_def)
  from clock_now_mach_exact [OF ok le r1 r2] r1 r2 show ?thesis
    by auto
qed

text \<open>
  \<open>mjs_clock_resolution\<close> never reports zero: on every platform path a successful call
  stores at least one nanosecond, and on macOS the stored value is the ceiling of
  numer / denom; a NULL slot gives \<open>-EFAULT\<close> and calibrates nothing.
\<close>
theorem clock_resolution_positive:
  assumes "timebase_ok tb"
  shows "(\<forall>rc out. mjs_clock_resolution ts (Some x) = (rc, out) \<longrightarrow>
       (rc = 0 \<longrightarrow> (\<exists>ns. out = Some ns \<and> 1 \<le> ns)) \<and> (rc \<noteq> 0 \<longrightarrow> rc < 0 \<and> out = Some x)) \<and>
    (\<exists>n d ns. mjs_timebase_calibrate query tb = Some (n, d) \<and>
       mjs_clock_resolution_mach query (Some x) tb = (0, Some ns, Some (n, d)) \<and>
       unat ns = (unat n + unat d - 1) div unat d \<and> 1 \<le> ns) \<and>
    mjs_clock_resolution_mach query None tb = (- EFAULT, None, tb)"
proof (intro conjI)
  obtain n d where tb: "mjs_timebase_calibrate query tb = Some (n, d)" and nd: "n \<noteq> 0" "d \<noteq> 0"
    using assms by (rule calibrate_ok)
  define N D :: u64 where "N = ucast n" and "D = ucast d"
  have u: "unat N = unat n" "unat D = unat d" "0 < unat n" "0 < unat d"
    using nd by (simp_all add: N_def D_def unat_ucast32 unat_gt_0)
  have "unat (N + D) = unat n + unat d"
  proof (subst unat_add64)
    show "unat N + unat D < 18446744073709551616"
      using add_strict_mono [OF unat_lt32 [of n] unat_lt32 [of d]] unfolding u by simp
  qed (simp add: u)
  then have "unat (N + D - 1) = unat n + unat d - 1"
    using u by (subst unat_sub64) simp_all
  then have v: "unat ((N + D - 1) div D) = (unat n + unat d - 1) div unat d"
    by (simp add: unat_div u)
  have "unat d \<le> unat n + unat d - 1"
    using u by linarith
  then have pos: "0 < (unat n + unat d - 1) div unat d"
    using u by (simp add: div_greater_zero_iff)
  then have "0 < (N + D - 1) div D"
    by (simp add: word_less_unat v)
  with tb v pos show "\<exists>n d ns. mjs_timebase_calibrate query tb = Some (n, d) \<and>
       mjs_clock_resolution_mach query (Some x) tb = (0, Some ns, Some (n, d)) \<and>
       unat ns = (unat n + unat d - 1) div unat d \<and> 1 \<le> ns"
    by (auto simp: mjs_clock_resolution_mach_def Let_def N_def D_def word_le_unat)
  show "mjs_clock_resolution_mach query None tb = (- EFAULT, None, tb)"
    by (simp add: mjs_clock_resolution_mach_def)
  show "\<forall>rc out. mjs_clock_resolution ts (Some x) = (rc, out) \<longrightarrow>
       (rc = 0 \<longrightarrow> (\<exists>ns. out = Some ns \<and> 1 \<le> ns)) \<and> (rc \<noteq> 0 \<longrightarrow> rc < 0 \<and> out = Some x)"
    by (auto simp: mjs_clock_resolution_def Let_def word_le_unat word_gt_0 unat_gt_0 Suc_le_eq
        split: sum.splits prod.splits if_splits)
qed

theorem clock_resolution_positive_witness:
  "mjs_clock_resolution (Inr (0, 0)) (Some 9) = (0, Some 1) \<and>
   (\<exists>ns. mjs_clock_resolution_mach (True, 125, 3) (Some 0) None = (0, Some ns, Some (125, 3)) \<and>
      unat ns = 42)"
proof -
  have ok: "timebase_ok None" by (simp add: timebase_ok_def)
  have c: "mjs_timebase_calibrate (True, 125, 3) None = Some (125, 3)"
    by (simp add: mjs_timebase_calibrate_def mjs_timebase_init_def)
  from clock_resolution_positive [OF ok, of "Inr (0, 0)" 9 "(True, 125, 3)"]
    clock_resolution_positive [OF ok, of "Inr (0, 0)" 0 "(True, 125, 3)"] c
  show ?thesis
    by (auto simp: mjs_clock_resolution_def)
qed

end
