(* ===== verification/Mjs_TLS.thy ===== *)
theory Mjs_TLS
  imports Mjs_Slots
begin

text \<open>
  Thread-local storage keys (native/posix/mjs\_tls.c): a registry that maps public ids, which
  only grow, to slots holding the host's \<open>pthread_key_t\<close>. Each operation runs under
  \<open>g_tls_lock\<close>, so one call is one step on the state; the \<open>pthread_key_create\<close> before the lock is
  taken and the \<open>pthread_key_delete\<close> after it is released are part of that step. The \<open>pthread_key_*\<close> calls are the fields
  of a record that the operations take as an argument; a calling thread is a number.
\<close>

section \<open>Definitions\<close>

record ('k, 'w) tls_host =
  pthread_key_create :: "addr \<Rightarrow> 'w \<Rightarrow> 'k host \<times> 'w"
  pthread_getspecific :: "nat \<Rightarrow> 'k \<Rightarrow> 'w \<Rightarrow> addr"
  pthread_setspecific :: "nat \<Rightarrow> 'k \<Rightarrow> addr \<Rightarrow> 'w \<Rightarrow> int \<times> 'w"
  pthread_key_delete :: "'k \<Rightarrow> 'w \<Rightarrow> int \<times> 'w"

record 'k tls_slot =
  slot_id :: u64
  slot_key :: 'k
  slot_live :: bool

record ('k, 'w) tls_state =
  g_slots :: "'k tls_slot list"
  g_cap :: nat
  g_next_id :: u64
  tls_world :: 'w

definition tls_find :: "u64 \<Rightarrow> ('k, 'w) tls_state \<Rightarrow> nat option" where
  "tls_find key s = scan (\<lambda>sl. slot_live sl \<and> slot_id sl = key) (g_slots s)"

definition tls_grow :: "bool \<Rightarrow> ('k, 'w) tls_state \<Rightarrow> int \<times> ('k, 'w) tls_state" where
  "tls_grow mem_ok s =
     (if mem_ok then (0, s\<lparr>g_cap := (if g_cap s \<noteq> 0 then g_cap s * 2 else 16)\<rparr>)
      else (- 1, s))"

text \<open>
  The part of \<open>mjs_tls_create\<close> under the lock: the first dead slot, or a fresh one at the end
  (\<^term>\<open>None\<close> when growing fails), receives the key and the next id.
\<close>

definition tls_mint ::
    "bool \<Rightarrow> 'k \<Rightarrow> ('k, 'w) tls_state \<Rightarrow> (u64 \<times> ('k, 'w) tls_state) option" where
  "tls_mint mem_ok key s =
     (let sl = \<lparr>slot_id = g_next_id s, slot_key = key, slot_live = True\<rparr> in
      case scan (\<lambda>x. \<not> slot_live x) (g_slots s) of
        Some i \<Rightarrow> Some (g_next_id s, s\<lparr>g_slots := (g_slots s)[i := sl],
                                        g_next_id := g_next_id s + 1\<rparr>)
      | None \<Rightarrow>
          (case (if length (g_slots s) = g_cap s then tls_grow mem_ok s else (0, s)) of
             (rc, s1) \<Rightarrow>
               if rc \<noteq> 0 then None
               else Some (g_next_id s1, s1\<lparr>g_slots := g_slots s1 @ [sl],
                                           g_next_id := g_next_id s1 + 1\<rparr>)))"

definition mjs_tls_create ::
    "('k, 'w) tls_host \<Rightarrow> bool \<Rightarrow> addr \<Rightarrow> u64 slot \<Rightarrow> ('k, 'w) tls_state
      \<Rightarrow> int \<times> u64 slot \<times> ('k, 'w) tls_state" where
  "mjs_tls_create H mem_ok destructor out_key s =
     (if out_key = None then (- EINVAL, out_key, s)
      else case pthread_key_create H destructor (tls_world s) of
        (Inl rc, w) \<Rightarrow> ((if rc = ENOMEM then - ENOMEM else - EAGAIN), out_key, s\<lparr>tls_world := w\<rparr>)
      | (Inr key, w) \<Rightarrow>
         (case tls_mint mem_ok key (s\<lparr>tls_world := w\<rparr>) of
            None \<Rightarrow> (- ENOMEM, out_key, s\<lparr>tls_world := snd (pthread_key_delete H key w)\<rparr>)
          | Some (uid, s') \<Rightarrow> (0, Some uid, s')))"

definition mjs_tls_get :: "('k, 'w) tls_host \<Rightarrow> nat \<Rightarrow> u64 \<Rightarrow> ('k, 'w) tls_state \<Rightarrow> addr" where
  "mjs_tls_get H tid key s =
     (case tls_find key s of
        None \<Rightarrow> 0
      | Some i \<Rightarrow> pthread_getspecific H tid (slot_key (g_slots s ! i)) (tls_world s))"

definition mjs_tls_set ::
    "('k, 'w) tls_host \<Rightarrow> nat \<Rightarrow> u64 \<Rightarrow> addr \<Rightarrow> ('k, 'w) tls_state
      \<Rightarrow> int \<times> ('k, 'w) tls_state" where
  "mjs_tls_set H tid key v s =
     (case tls_find key s of
        None \<Rightarrow> (- EINVAL, s)
      | Some i \<Rightarrow>
          (case pthread_setspecific H tid (slot_key (g_slots s ! i)) v (tls_world s) of
             (rc, w) \<Rightarrow> (neg_rc rc, s\<lparr>tls_world := w\<rparr>)))"

definition mjs_tls_destroy ::
    "('k, 'w) tls_host \<Rightarrow> u64 \<Rightarrow> ('k, 'w) tls_state \<Rightarrow> int \<times> ('k, 'w) tls_state" where
  "mjs_tls_destroy H key s =
     (case tls_find key s of
        None \<Rightarrow> (- EINVAL, s)
      | Some i \<Rightarrow>
          let pkey = slot_key (g_slots s ! i);
              s1 = s\<lparr>g_slots := (g_slots s)[i := (g_slots s ! i)\<lparr>slot_live := False\<rparr>]\<rparr>
          in (case pthread_key_delete H pkey (tls_world s1) of
                (rc, w) \<Rightarrow> (neg_rc rc, s1\<lparr>tls_world := w\<rparr>)))"

text \<open>A history of calls; the second component of a creation is the caller's out slot.\<close>

datatype tls_call = Create bool addr "u64 slot" | Bind nat u64 addr | Destroy u64

fun tls_exec :: "('k, 'w) tls_host \<Rightarrow> tls_call \<Rightarrow> ('k, 'w) tls_state \<Rightarrow> ('k, 'w) tls_state" where
  "tls_exec H (Create mem_ok d out) s = snd (snd (mjs_tls_create H mem_ok d out s))"
| "tls_exec H (Bind tid key v) s = snd (mjs_tls_set H tid key v s)"
| "tls_exec H (Destroy key) s = snd (mjs_tls_destroy H key s)"

fun tls_run :: "('k, 'w) tls_host \<Rightarrow> tls_call list \<Rightarrow> ('k, 'w) tls_state \<Rightarrow> ('k, 'w) tls_state" where
  "tls_run H [] s = s"
| "tls_run H (c # cs) s = tls_run H cs (tls_exec H c s)"

section \<open>What the host promises\<close>

text \<open>
  POSIX thread-specific data, over the set \<open>L w\<close> of existing keys and the values \<open>B w t k\<close>
  bound in thread \<open>t\<close>: a created key did not exist and is unbound (0 is NULL) in every thread;
  set and delete act on an existing key and touch no other; a failing call changes nothing.
\<close>

definition key_create_law ::
    "('k, 'w) tls_host \<Rightarrow> ('w \<Rightarrow> 'k set) \<Rightarrow> ('w \<Rightarrow> nat \<Rightarrow> 'k \<Rightarrow> addr) \<Rightarrow> bool" where
  "key_create_law H L B \<longleftrightarrow> (\<forall>d w r w'. pthread_key_create H d w = (r, w') \<longrightarrow>
     (case r of
        Inl e \<Rightarrow> 0 < e \<and> L w' = L w \<and> B w' = B w
      | Inr k \<Rightarrow> k \<notin> L w \<and> L w' = insert k (L w) \<and>
          (\<forall>t k'. B w' t k' = (if k' = k then 0 else B w t k'))))"

definition key_set_law ::
    "('k, 'w) tls_host \<Rightarrow> ('w \<Rightarrow> 'k set) \<Rightarrow> ('w \<Rightarrow> nat \<Rightarrow> 'k \<Rightarrow> addr) \<Rightarrow> bool" where
  "key_set_law H L B \<longleftrightarrow>
     (\<forall>t k v w rc w'. k \<in> L w \<longrightarrow> pthread_setspecific H t k v w = (rc, w') \<longrightarrow>
        0 \<le> rc \<and> L w' = L w \<and>
        (\<forall>t' k'. B w' t' k' = (if rc = 0 \<and> t' = t \<and> k' = k then v else B w t' k')))"

definition key_delete_law ::
    "('k, 'w) tls_host \<Rightarrow> ('w \<Rightarrow> 'k set) \<Rightarrow> ('w \<Rightarrow> nat \<Rightarrow> 'k \<Rightarrow> addr) \<Rightarrow> bool" where
  "key_delete_law H L B \<longleftrightarrow>
     (\<forall>k w rc w'. k \<in> L w \<longrightarrow> pthread_key_delete H k w = (rc, w') \<longrightarrow>
        0 \<le> rc \<and> L w' = (if rc = 0 then L w - {k} else L w) \<and>
        (\<forall>t k'. k' \<noteq> k \<longrightarrow> B w' t k' = B w t k'))"

definition pthread_keys_law ::
    "('k, 'w) tls_host \<Rightarrow> ('w \<Rightarrow> 'k set) \<Rightarrow> ('w \<Rightarrow> nat \<Rightarrow> 'k \<Rightarrow> addr) \<Rightarrow> bool" where
  "pthread_keys_law H L B \<longleftrightarrow>
     key_create_law H L B \<and> key_set_law H L B \<and> key_delete_law H L B \<and>
     (\<forall>t k w. k \<in> L w \<longrightarrow> pthread_getspecific H t k w = B w t k)"

text \<open>A host that numbers its keys.\<close>

type_synonym key_store = "nat \<times> (nat \<Rightarrow> bool) \<times> (nat \<Rightarrow> nat \<Rightarrow> addr)"

definition key_host :: "(nat, key_store) tls_host" where
  "key_host = \<lparr>
     pthread_key_create = (\<lambda>d (n, del, B). (Inr n, Suc n, del(n := False), \<lambda>t. (B t)(n := 0))),
     pthread_getspecific = (\<lambda>t k (n, del, B). B t k),
     pthread_setspecific = (\<lambda>t k v (n, del, B). (0, n, del, B(t := (B t)(k := v)))),
     pthread_key_delete = (\<lambda>k (n, del, B). (0, n, del(k := True), B))\<rparr>"

definition key_live :: "key_store \<Rightarrow> nat set" where
  "key_live w = {k. k < fst w \<and> \<not> fst (snd w) k}"

definition key_bound :: "key_store \<Rightarrow> nat \<Rightarrow> nat \<Rightarrow> addr" where
  "key_bound w = snd (snd w)"

text \<open>The module's state before its first call.\<close>

definition tls_boot :: "'w \<Rightarrow> ('k, 'w) tls_state" where
  "tls_boot w = \<lparr>g_slots = [], g_cap = 0, g_next_id = 1, tls_world = w\<rparr>"

section \<open>Invariant and abstraction\<close>

text \<open>
  Live ids are distinct, positive and below the id counter; live slots hold distinct existing
  host keys. The abstraction is a map from ids to the values bound per thread.
\<close>

definition tls_inv :: "('w \<Rightarrow> 'k set) \<Rightarrow> ('k, 'w) tls_state \<Rightarrow> bool" where
  "tls_inv L s \<longleftrightarrow>
     length (g_slots s) \<le> g_cap s \<and> 0 < g_next_id s \<and>
     slots_wf slot_live slot_id (g_slots s) \<and> slots_wf slot_live slot_key (g_slots s) \<and>
     (\<forall>sl \<in> set (g_slots s). slot_live sl \<longrightarrow>
        0 < slot_id sl \<and> slot_id sl < g_next_id s \<and> slot_key sl \<in> L (tls_world s))"

definition tls_abs ::
    "('w \<Rightarrow> nat \<Rightarrow> 'k \<Rightarrow> addr) \<Rightarrow> ('k, 'w) tls_state \<Rightarrow> u64 \<Rightarrow> (nat \<Rightarrow> addr) option" where
  "tls_abs B s uid =
     map_option (\<lambda>sl t. B (tls_world s) t (slot_key sl))
       (slot_lookup slot_live slot_id uid (g_slots s))"

section \<open>Lemmas\<close>

lemma key_host_law: "pthread_keys_law key_host key_live key_bound"
  by (auto simp: pthread_keys_law_def key_create_law_def key_set_law_def key_delete_law_def
      key_host_def key_live_def key_bound_def)

interpretation tlsid: slot_registry slot_live slot_id "\<lambda>sl. sl\<lparr>slot_live := False\<rparr>"
  by unfold_locales simp

interpretation tlskey: slot_registry slot_live slot_key "\<lambda>sl. sl\<lparr>slot_live := False\<rparr>"
  by unfold_locales simp

lemma key_create_failD:
  assumes "pthread_keys_law H L B" and "pthread_key_create H d w = (Inl e, w')"
  shows "0 < e" and "L w' = L w" and "B w' = B w"
  using assms unfolding pthread_keys_law_def key_create_law_def by fastforce+

lemma key_create_lawD:
  assumes "pthread_keys_law H L B" and "pthread_key_create H d w = (Inr k, w')"
  shows "k \<notin> L w" and "L w' = insert k (L w)"
    and "B w' t k' = (if k' = k then 0 else B w t k')"
  using assms unfolding pthread_keys_law_def key_create_law_def by fastforce+

lemma key_get_lawD:
  "pthread_keys_law H L B \<Longrightarrow> k \<in> L w \<Longrightarrow> pthread_getspecific H t k w = B w t k"
  by (simp add: pthread_keys_law_def)

lemma key_set_lawD:
  assumes "pthread_keys_law H L B" and "k \<in> L w" and "pthread_setspecific H t k v w = (rc, w')"
  shows "0 \<le> rc" and "L w' = L w"
    and "B w' t' k' = (if rc = 0 \<and> t' = t \<and> k' = k then v else B w t' k')"
proof -
  from assms have "0 \<le> rc \<and> L w' = L w \<and>
      (\<forall>t' k'. B w' t' k' = (if rc = 0 \<and> t' = t \<and> k' = k then v else B w t' k'))"
    unfolding pthread_keys_law_def key_set_law_def by blast
  then show "0 \<le> rc" and "L w' = L w"
    and "B w' t' k' = (if rc = 0 \<and> t' = t \<and> k' = k then v else B w t' k')"
    by blast+
qed

lemma key_delete_lawD:
  assumes "pthread_keys_law H L B" and "k \<in> L w" and "pthread_key_delete H k w = (rc, w')"
  shows "0 \<le> rc" and "L w - {k} \<subseteq> L w'" and "L w' \<subseteq> L w" and "k' \<noteq> k \<Longrightarrow> B w' t k' = B w t k'"
proof -
  from assms have "0 \<le> rc \<and> L w' = (if rc = 0 then L w - {k} else L w) \<and>
      (\<forall>t k'. k' \<noteq> k \<longrightarrow> B w' t k' = B w t k')"
    unfolding pthread_keys_law_def key_delete_law_def by blast
  then show "0 \<le> rc" and "L w - {k} \<subseteq> L w'" and "L w' \<subseteq> L w"
    and "k' \<noteq> k \<Longrightarrow> B w' t k' = B w t k'"
    by (auto split: if_splits)
qed

lemma tls_mint_SomeD:
  assumes "tls_mint mem_ok key s = Some (uid, s')"
  shows "uid = g_next_id s" and "g_next_id s' = g_next_id s + 1"
    and "g_slots s' = slot_place slot_live
      \<lparr>slot_id = g_next_id s, slot_key = key, slot_live = True\<rparr> (g_slots s)"
    and "tls_world s' = tls_world s"
    and "length (g_slots s) \<le> g_cap s \<Longrightarrow> length (g_slots s') \<le> g_cap s'"
  using assms unfolding tls_mint_def slot_place_def tls_grow_def Let_def
  by (auto split: option.splits if_splits prod.splits dest: scan_SomeD)

text \<open>A found slot carries its entry in the abstraction, and an entry a found slot.\<close>

lemma tls_find_abs:
  "tls_abs B s uid = (case tls_find uid s of None \<Rightarrow> None
     | Some i \<Rightarrow> Some (\<lambda>t. B (tls_world s) t (slot_key (g_slots s ! i))))"
  by (simp add: tls_abs_def tls_find_def slot_lookup_def split: option.splits)

lemma tls_find_SomeD:
  assumes "tls_inv L s" and "tls_find uid s = Some i"
  shows "i < length (g_slots s)" and "slot_live (g_slots s ! i)" and "slot_id (g_slots s ! i) = uid"
    and "slot_key (g_slots s ! i) \<in> L (tls_world s)" and "g_slots s ! i \<in> set (g_slots s)"
proof -
  show i: "i < length (g_slots s)" "slot_live (g_slots s ! i)" "slot_id (g_slots s ! i) = uid"
    using scan_SomeD [OF assms(2) [unfolded tls_find_def]] by auto
  then show "g_slots s ! i \<in> set (g_slots s)" by simp
  with assms(1) i show "slot_key (g_slots s ! i) \<in> L (tls_world s)"
    unfolding tls_inv_def by blast
qed

text \<open>Distinct live ids have distinct host keys.\<close>

lemma tls_key_inj:
  assumes "tls_inv L s" and "tls_find u s = Some i" and "tls_find v s = Some j" and "u \<noteq> v"
  shows "slot_key (g_slots s ! i) \<noteq> slot_key (g_slots s ! j)"
  using tls_find_SomeD [OF assms(1,2)] tls_find_SomeD [OF assms(1,3)] assms(1,4)
  unfolding tls_inv_def slots_wf_def by metis

lemma tls_world_change:
  assumes "tls_inv L s" and "L (tls_world s) \<subseteq> L w"
  shows "tls_inv L (s\<lparr>tls_world := w\<rparr>)"
  using assms by (auto simp: tls_inv_def)

text \<open>Only the values of keys the registry holds matter to the abstraction.\<close>

lemma tls_abs_world:
  assumes "tls_inv L s"
    and "\<And>t k. k \<in> L (tls_world s) \<Longrightarrow> B w t k = B (tls_world s) t k"
  shows "tls_abs B (s\<lparr>tls_world := w\<rparr>) = tls_abs B s"
proof
  fix uid
  have same: "tls_find uid (s\<lparr>tls_world := w\<rparr>) = tls_find uid s"
    by (simp add: tls_find_def)
  show "tls_abs B (s\<lparr>tls_world := w\<rparr>) uid = tls_abs B s uid"
  proof (cases "tls_find uid s")
    case None
    then show ?thesis by (simp add: tls_find_abs same)
  next
    case (Some i)
    with assms(2) [OF tls_find_SomeD(4) [OF assms(1) Some]] show ?thesis
      by (simp add: tls_find_abs same)
  qed
qed

lemma mjs_tls_create_cases:
  assumes "mjs_tls_create H mem_ok d out s = (rc, out', s')" and "out \<noteq> None"
  obtains (nokey) e w where "pthread_key_create H d (tls_world s) = (Inl e, w)"
      "rc < 0" "out' = out" "s' = s\<lparr>tls_world := w\<rparr>"
    | (noslot) k w where "pthread_key_create H d (tls_world s) = (Inr k, w)"
      "rc = - ENOMEM" "out' = out" "s' = s\<lparr>tls_world := snd (pthread_key_delete H k w)\<rparr>"
    | (ok) k w uid where "pthread_key_create H d (tls_world s) = (Inr k, w)"
      "tls_mint mem_ok k (s\<lparr>tls_world := w\<rparr>) = Some (uid, s')" "rc = 0" "out' = Some uid"
proof -
  obtain r w where r: "pthread_key_create H d (tls_world s) = (r, w)"
    by (cases "pthread_key_create H d (tls_world s)")
  show ?thesis
  proof (cases r)
    case (Inl e)
    with assms r show ?thesis
      by (intro nokey [of e w]) (auto simp: mjs_tls_create_def)
  next
    case (Inr k)
    show ?thesis
    proof (cases "tls_mint mem_ok k (s\<lparr>tls_world := w\<rparr>)")
      case None
      with assms r Inr show ?thesis
        by (intro noslot [of k w]) (auto simp: mjs_tls_create_def)
    next
      case (Some us)
      with assms r Inr show ?thesis
        by (intro ok [of k w "fst us"]) (auto simp: mjs_tls_create_def split: prod.splits)
    qed
  qed
qed

lemma tls_mint_inv:
  assumes inv: "tls_inv L s" and nxt: "g_next_id s \<noteq> - 1" and fresh: "k \<notin> L (tls_world s)"
    and w: "L w = insert k (L (tls_world s))"
    and mint: "tls_mint mem_ok k (s\<lparr>tls_world := w\<rparr>) = Some (uid, s')"
  shows "tls_inv L s'" and "uid \<noteq> 0" and "tls_abs B s uid = None"
    and "tls_abs B s' u = (if u = uid then Some (\<lambda>t. B w t k)
      else tls_abs B (s\<lparr>tls_world := w\<rparr>) u)"
proof -
  note mintD = tls_mint_SomeD [OF mint, simplified]
  let ?sl = "\<lparr>slot_id = g_next_id s, slot_key = k, slot_live = True\<rparr>"
  have wf: "slots_wf slot_live slot_id (g_slots s)" "slots_wf slot_live slot_key (g_slots s)"
    using inv by (auto simp: tls_inv_def)
  have lid: "slot_lookup slot_live slot_id (slot_id ?sl) (g_slots s) = None"
    using inv unfolding tlsid.lookup_None_iff tls_inv_def by force
  have lkey: "slot_lookup slot_live slot_key (slot_key ?sl) (g_slots s) = None"
    using inv fresh unfolding tlskey.lookup_None_iff tls_inv_def by force
  have inc: "g_next_id s < g_next_id s + 1" and pos: "0 < g_next_id s + 1"
    using unat_inc64 [OF nxt] by (simp_all add: word_less_unat)
  show "uid \<noteq> 0"
    using inv mintD(1) by (auto simp: tls_inv_def)
  show "tls_abs B s uid = None"
    using lid mintD(1) by (simp add: tls_abs_def)
  show "tls_inv L s'"
    unfolding tls_inv_def
  proof (intro conjI ballI impI)
    show "length (g_slots s') \<le> g_cap s'" "0 < g_next_id s'"
      using mintD(2,5) inv pos by (simp_all add: tls_inv_def)
    show "slots_wf slot_live slot_id (g_slots s')" "slots_wf slot_live slot_key (g_slots s')"
      unfolding mintD(3) by (rule tlsid.wf_place [OF wf(1) lid] tlskey.wf_place [OF wf(2) lkey])+
    fix sl assume sl: "sl \<in> set (g_slots s')" "slot_live sl"
    then have "sl = ?sl \<or> sl \<in> set (g_slots s)"
      by (simp add: mintD(3) tlsid.in_place_iff)
    with inv sl(2) inc w mintD(2,4) show "0 < slot_id sl" "slot_id sl < g_next_id s'"
      "slot_key sl \<in> L (tls_world s')"
      unfolding tls_inv_def by (auto intro: less_trans)
  qed
  show "tls_abs B s' u = (if u = uid then Some (\<lambda>t. B w t k)
      else tls_abs B (s\<lparr>tls_world := w\<rparr>) u)"
    using tlsid.lookup_place [OF wf(1) _ lid, of u] mintD(1)
    by (simp add: tls_abs_def mintD(3,4))
qed

text \<open>What each call does to the invariant and to the abstract map.\<close>

lemma tls_create_step:
  assumes law: "pthread_keys_law H L B" and inv: "tls_inv L s" and nxt: "g_next_id s \<noteq> - 1"
    and res: "mjs_tls_create H mem_ok d (Some x) s = (rc, out, s')"
  shows "tls_inv L s'"
    and "rc = 0 \<Longrightarrow> \<exists>uid. out = Some uid \<and> uid = g_next_id s \<and> uid \<noteq> 0 \<and>
      g_next_id s' = g_next_id s + 1 \<and>
      tls_abs B s uid = None \<and> tls_abs B s' = (tls_abs B s)(uid \<mapsto> \<lambda>_. 0)"
    and "rc \<noteq> 0 \<Longrightarrow> rc < 0 \<and> out = Some x \<and> g_next_id s' = g_next_id s \<and> tls_abs B s' = tls_abs B s"
proof -
  have "tls_inv L s' \<and>
    (rc = 0 \<longrightarrow> (\<exists>uid. out = Some uid \<and> uid = g_next_id s \<and> uid \<noteq> 0 \<and>
      g_next_id s' = g_next_id s + 1 \<and>
      tls_abs B s uid = None \<and> tls_abs B s' = (tls_abs B s)(uid \<mapsto> \<lambda>_. 0))) \<and>
    (rc \<noteq> 0 \<longrightarrow> rc < 0 \<and> out = Some x \<and> g_next_id s' = g_next_id s \<and> tls_abs B s' = tls_abs B s)"
    using res option.distinct(2)
  proof (cases rule: mjs_tls_create_cases)
    case (nokey e w)
    note h = key_create_failD [OF law nokey(1)]
    show ?thesis
      using tls_world_change [OF inv, of w] tls_abs_world [OF inv, of B w] nokey(2) h
      by (simp add: nokey(3,4))
  next
    case (noslot k w)
    note h = key_create_lawD [OF law noslot(1)]
    obtain rc' w' where del: "pthread_key_delete H k w = (rc', w')"
      by (cases "pthread_key_delete H k w")
    note hd = key_delete_lawD [OF law _ del]
    have "L (tls_world s) \<subseteq> L w'"
      using h(1,2) hd(2) by auto
    moreover have "B w' t j = B (tls_world s) t j" if "j \<in> L (tls_world s)" for t j
      using h hd(4) [of j t] that by auto
    ultimately show ?thesis
      using tls_world_change [OF inv, of w'] tls_abs_world [OF inv, of B w']
      by (simp add: noslot(2-4) del)
  next
    case (ok k w uid)
    note h = key_create_lawD [OF law ok(1)]
    note m = tls_mint_inv [OF inv nxt h(1,2) ok(2)] and md = tls_mint_SomeD [OF ok(2)]
    have "tls_abs B (s\<lparr>tls_world := w\<rparr>) = tls_abs B s"
      using h by (intro tls_abs_world [OF inv]) auto
    then have "tls_abs B s' = (tls_abs B s)(uid \<mapsto> \<lambda>_. 0)"
      using m(4) [of B] h(3) by (auto simp: fun_eq_iff)
    with m md show ?thesis
      by (simp add: ok(3,4))
  qed
  then show "tls_inv L s'"
    "rc = 0 \<Longrightarrow> \<exists>uid. out = Some uid \<and> uid = g_next_id s \<and> uid \<noteq> 0 \<and>
      g_next_id s' = g_next_id s + 1 \<and>
      tls_abs B s uid = None \<and> tls_abs B s' = (tls_abs B s)(uid \<mapsto> \<lambda>_. 0)"
    "rc \<noteq> 0 \<Longrightarrow> rc < 0 \<and> out = Some x \<and> g_next_id s' = g_next_id s \<and> tls_abs B s' = tls_abs B s"
    by blast+
qed

lemma tls_set_step:
  assumes law: "pthread_keys_law H L B" and inv: "tls_inv L s"
    and res: "mjs_tls_set H tid key v s = (rc, s')"
  shows "tls_inv L s' \<and> g_next_id s' = g_next_id s \<and>
    (tls_abs B s key = None \<longrightarrow> rc = - EINVAL \<and> s' = s) \<and>
    (\<forall>f. tls_abs B s key = Some f \<longrightarrow> rc \<le> 0 \<and>
       tls_abs B s' = (if rc = 0 then (tls_abs B s)(key \<mapsto> f(tid := v)) else tls_abs B s))"
proof (cases "tls_find key s")
  case None
  with res inv show ?thesis
    by (simp add: mjs_tls_set_def tls_find_abs)
next
  case (Some i)
  note found = tls_find_SomeD [OF inv Some]
  obtain rc0 w where h: "pthread_setspecific H tid (slot_key (g_slots s ! i)) v (tls_world s) = (rc0, w)"
    by (cases "pthread_setspecific H tid (slot_key (g_slots s ! i)) v (tls_world s)")
  note hs = key_set_lawD [OF law found(4) h]
  have s': "s' = s\<lparr>tls_world := w\<rparr>" and rc: "rc = neg_rc rc0"
    using res Some h by (auto simp: mjs_tls_set_def)
  have same: "tls_find u (s\<lparr>tls_world := w\<rparr>) = tls_find u s" for u
    by (simp add: tls_find_def)
  have "tls_abs B s' u = (if rc = 0 \<and> u = key
      then Some ((\<lambda>t. B (tls_world s) t (slot_key (g_slots s ! i)))(tid := v)) else tls_abs B s u)" for u
  proof (cases "tls_find u s")
    case None
    with Some show ?thesis by (auto simp: s' tls_find_abs same)
  next
    case (Some j)
    show ?thesis
    proof (cases "u = key")
      case True
      with Some \<open>tls_find key s = Some i\<close> show ?thesis
        by (auto simp: s' tls_find_abs same hs(3) rc fun_eq_iff)
    next
      case False
      with tls_key_inj [OF inv Some \<open>tls_find key s = Some i\<close>] Some show ?thesis
        by (auto simp: s' tls_find_abs same hs(3))
    qed
  qed
  then have "tls_abs B s' = (if rc = 0 then (tls_abs B s)(key \<mapsto>
      (\<lambda>t. B (tls_world s) t (slot_key (g_slots s ! i)))(tid := v)) else tls_abs B s)"
    by (auto simp: fun_eq_iff)
  with tls_world_change [OF inv, of w] hs(1,2) Some show ?thesis
    by (simp add: s' rc tls_find_abs)
qed

text \<open>
  Retiring the slot of a key: the live slots that stay are old ones with other ids and other host
  keys, and the invariant is kept as long as the host keeps those keys.
\<close>

lemma tls_retire_kept:
  assumes inv: "tls_inv L s" and fnd: "tls_find key s = Some i"
    and sl: "sl \<in> set ((g_slots s)[i := (g_slots s ! i)\<lparr>slot_live := False\<rparr>])" "slot_live sl"
  shows "sl \<in> set (g_slots s)" and "slot_id sl \<noteq> key" and "slot_key sl \<noteq> slot_key (g_slots s ! i)"
proof -
  have wf: "slots_wf slot_live slot_id (g_slots s)" "slots_wf slot_live slot_key (g_slots s)"
    using inv by (auto simp: tls_inv_def)
  show old: "sl \<in> set (g_slots s)" "slot_id sl \<noteq> key"
    using sl tlsid.in_retire_iff [OF wf(1) fnd [unfolded tls_find_def] sl(2)] by blast+
  then obtain j where "j < length (g_slots s)" "g_slots s ! j = sl"
    by (auto simp: in_set_conv_nth)
  with wf(2) tls_find_SomeD [OF inv fnd] sl(2) old(2) show "slot_key sl \<noteq> slot_key (g_slots s ! i)"
    unfolding slots_wf_def by metis
qed

lemma tls_retire_inv:
  assumes inv: "tls_inv L s" and fnd: "tls_find key s = Some i"
    and s': "s' = s\<lparr>g_slots := (g_slots s)[i := (g_slots s ! i)\<lparr>slot_live := False\<rparr>], tls_world := w\<rparr>"
    and keys: "\<And>k. k \<in> L (tls_world s) \<Longrightarrow> k \<noteq> slot_key (g_slots s ! i) \<Longrightarrow> k \<in> L w"
  shows "tls_inv L s'"
  unfolding tls_inv_def
proof (intro conjI ballI impI)
  show "length (g_slots s') \<le> g_cap s'" "0 < g_next_id s'"
    using inv by (simp_all add: tls_inv_def s')
  show "slots_wf slot_live slot_id (g_slots s')" "slots_wf slot_live slot_key (g_slots s')"
    using inv by (auto simp: tls_inv_def s' intro: tlsid.wf_retire tlskey.wf_retire)
  fix sl assume sl: "sl \<in> set (g_slots s')" "slot_live sl"
  then have old: "sl \<in> set (g_slots s)" "slot_key sl \<noteq> slot_key (g_slots s ! i)"
    using tls_retire_kept [OF inv fnd] by (simp_all add: s')
  with inv sl(2) have "0 < slot_id sl \<and> slot_id sl < g_next_id s" "slot_key sl \<in> L (tls_world s)"
    unfolding tls_inv_def by blast+
  then show "0 < slot_id sl" "slot_id sl < g_next_id s'" "slot_key sl \<in> L (tls_world s')"
    using keys old(2) by (simp_all add: s')
qed

lemma tls_destroy_step:
  assumes law: "pthread_keys_law H L B" and inv: "tls_inv L s"
    and res: "mjs_tls_destroy H key s = (rc, s')"
  shows "tls_inv L s' \<and> g_next_id s' = g_next_id s \<and>
    (tls_abs B s key = None \<longrightarrow> rc = - EINVAL \<and> s' = s) \<and>
    (tls_abs B s key \<noteq> None \<longrightarrow> rc \<le> 0) \<and> tls_abs B s' = (tls_abs B s)(key := None)"
proof (cases "tls_find key s")
  case None
  with res inv show ?thesis
    by (auto simp: mjs_tls_destroy_def tls_find_abs)
next
  case (Some i)
  note found = tls_find_SomeD [OF inv Some]
  let ?k = "slot_key (g_slots s ! i)"
  obtain rc0 w where h: "pthread_key_delete H ?k (tls_world s) = (rc0, w)"
    by (cases "pthread_key_delete H ?k (tls_world s)")
  note hs = key_delete_lawD [OF law found(4) h]
  let ?ss = "(g_slots s)[i := (g_slots s ! i)\<lparr>slot_live := False\<rparr>]"
  have s': "s' = s\<lparr>g_slots := ?ss, tls_world := w\<rparr>" and rc: "rc = neg_rc rc0"
    using res Some h by (auto simp: mjs_tls_destroy_def Let_def)
  have wf: "slots_wf slot_live slot_id (g_slots s)"
    using inv by (auto simp: tls_inv_def)
  note sc = Some [unfolded tls_find_def]
  note kept = tls_retire_kept [OF inv Some]
  have inv': "tls_inv L s'"
    using hs(2) by (intro tls_retire_inv [OF inv Some s']) blast
  have "tls_abs B s' u = ((tls_abs B s)(key := None)) u" for u
  proof (cases "slot_lookup slot_live slot_id u ?ss")
    case None
    with tlsid.lookup_retire [OF wf sc, of u] show ?thesis
      by (auto simp: tls_abs_def s' split: if_splits)
  next
    case (Some sl)
    have "sl \<in> set ?ss" "slot_live sl"
      using Some tlsid.lookup_Some_iff [OF tlsid.wf_retire [OF wf]] by blast+
    from hs(4) [OF kept(3) [OF this]] Some tlsid.lookup_retire [OF wf sc, of u] show ?thesis
      by (auto simp: tls_abs_def s' split: if_splits)
  qed
  then have "tls_abs B s' = (tls_abs B s)(key := None)" ..
  with inv' hs(1) Some show ?thesis
    by (simp add: rc tls_find_abs) (simp add: s')
qed

lemma tls_exec_step:
  assumes law: "pthread_keys_law H L B" and inv: "tls_inv L s" and nxt: "g_next_id s \<noteq> - 1"
  shows "tls_inv L (tls_exec H c s)"
    and "unat (g_next_id s) \<le> unat (g_next_id (tls_exec H c s))"
    and "unat (g_next_id (tls_exec H c s)) \<le> Suc (unat (g_next_id s))"
    and "uid < g_next_id s \<Longrightarrow> tls_abs B s uid = None \<Longrightarrow> tls_abs B (tls_exec H c s) uid = None"
proof -
  have "tls_inv L (tls_exec H c s) \<and>
    unat (g_next_id s) \<le> unat (g_next_id (tls_exec H c s)) \<and>
    unat (g_next_id (tls_exec H c s)) \<le> Suc (unat (g_next_id s)) \<and>
    (uid < g_next_id s \<longrightarrow> tls_abs B s uid = None \<longrightarrow> tls_abs B (tls_exec H c s) uid = None)"
  proof (cases c)
    case (Create mem_ok d out)
    obtain rc out' s' where res: "mjs_tls_create H mem_ok d out s = (rc, out', s')"
      by (cases "mjs_tls_create H mem_ok d out s")
    show ?thesis
    proof (cases out)
      case None
      with inv Create show ?thesis by (simp add: mjs_tls_create_def)
    next
      case (Some x)
      note step = tls_create_step [OF law inv nxt res [unfolded Some]]
      show ?thesis
      proof (cases "rc = 0")
        case True
        with step(1) step(2) [OF True] unat_inc64 [OF nxt] Create Some res show ?thesis by auto
      next
        case False
        with step(1) step(3) [OF False] Create Some res show ?thesis by auto
      qed
    qed
  next
    case (Bind tid key v)
    obtain rc s' where res: "mjs_tls_set H tid key v s = (rc, s')"
      by (cases "mjs_tls_set H tid key v s")
    with tls_set_step [OF law inv res] show ?thesis
      by (cases "tls_abs B s key") (auto simp: Bind)
  next
    case (Destroy key)
    obtain rc s' where res: "mjs_tls_destroy H key s = (rc, s')"
      by (cases "mjs_tls_destroy H key s")
    with tls_destroy_step [OF law inv res] show ?thesis
      by (auto simp: Destroy)
  qed
  then show "tls_inv L (tls_exec H c s)"
    "unat (g_next_id s) \<le> unat (g_next_id (tls_exec H c s))"
    "unat (g_next_id (tls_exec H c s)) \<le> Suc (unat (g_next_id s))"
    "uid < g_next_id s \<Longrightarrow> tls_abs B s uid = None \<Longrightarrow> tls_abs B (tls_exec H c s) uid = None"
    by blast+
qed

lemma tls_run_stale:
  assumes law: "pthread_keys_law H L B"
  shows "tls_inv L s \<Longrightarrow> unat (g_next_id s) + length cs < 18446744073709551616 \<Longrightarrow>
    uid < g_next_id s \<Longrightarrow> tls_abs B s uid = None \<Longrightarrow>
    tls_inv L (tls_run H cs s) \<and> tls_abs B (tls_run H cs s) uid = None"
proof (induction cs arbitrary: s)
  case Nil
  then show ?case by simp
next
  case (Cons c cs)
  have nxt: "g_next_id s \<noteq> - 1"
    using Cons.prems(2) by (auto simp: unat_max64)
  note step = tls_exec_step [OF law Cons.prems(1) nxt, where c = c]
  have "uid < g_next_id (tls_exec H c s)"
    using Cons.prems(3) step(2) by (simp add: word_less_unat)
  moreover have "unat (g_next_id (tls_exec H c s)) + length cs < 18446744073709551616"
    using Cons.prems(2) step(3) by simp
  ultimately show ?case
    using Cons.IH [OF step(1)] step(4) Cons.prems by simp
qed

lemma tls_get_abs:
  assumes "pthread_keys_law H L B" and "tls_inv L s"
  shows "mjs_tls_get H tid key s = (case tls_abs B s key of None \<Rightarrow> 0 | Some f \<Rightarrow> f tid)"
proof (cases "tls_find key s")
  case None
  then show ?thesis by (simp add: mjs_tls_get_def tls_find_abs)
next
  case (Some i)
  with key_get_lawD [OF assms(1) tls_find_SomeD(4) [OF assms(2) Some]] show ?thesis
    by (simp add: mjs_tls_get_def tls_find_abs)
qed

section \<open>Properties\<close>

text \<open>
  (C13) The registry refines a map from ids to per-thread values. With the documented host
  behaviour and the registry invariant, \<open>mjs_tls_create\<close> adds an id that was not in the map,
  unbound in every thread, or fails with a negative code, the out slot and the map unchanged;
  \<open>mjs_tls_set\<close> updates one id in the calling thread only; \<open>mjs_tls_destroy\<close> removes one id;
  \<open>mjs_tls_get\<close> reads the map (NULL for an unknown id); set and destroy of an unknown id give
  \<open>-EINVAL\<close> and change nothing. All keep the invariant.
\<close>
theorem tls_refines_map:
  assumes "pthread_keys_law H L B" and "tls_inv L s" and "g_next_id s \<noteq> - 1"
  shows "(\<forall>rc out s'. mjs_tls_create H mem_ok d (Some x) s = (rc, out, s') \<longrightarrow> tls_inv L s' \<and>
       (if rc = 0 then \<exists>uid. out = Some uid \<and> uid \<noteq> 0 \<and> tls_abs B s uid = None \<and>
            tls_abs B s' = (tls_abs B s)(uid \<mapsto> \<lambda>_. 0)
        else rc < 0 \<and> out = Some x \<and> tls_abs B s' = tls_abs B s)) \<and>
    (\<forall>rc s'. mjs_tls_set H tid key v s = (rc, s') \<longrightarrow> tls_inv L s' \<and>
       (case tls_abs B s key of None \<Rightarrow> rc = - EINVAL \<and> s' = s
        | Some f \<Rightarrow> rc \<le> 0 \<and> tls_abs B s' =
            (if rc = 0 then (tls_abs B s)(key \<mapsto> f(tid := v)) else tls_abs B s))) \<and>
    (\<forall>rc s'. mjs_tls_destroy H key s = (rc, s') \<longrightarrow> tls_inv L s' \<and>
       tls_abs B s' = (tls_abs B s)(key := None) \<and>
       (tls_abs B s key = None \<longrightarrow> rc = - EINVAL \<and> s' = s)) \<and>
    mjs_tls_get H tid key s = (case tls_abs B s key of None \<Rightarrow> 0 | Some f \<Rightarrow> f tid)"
proof (intro conjI allI impI)
  fix rc out s' assume res: "mjs_tls_create H mem_ok d (Some x) s = (rc, out, s')"
  note step = tls_create_step [OF assms res]
  from step(1) show "tls_inv L s'" .
  from step(2,3) show "if rc = 0 then \<exists>uid. out = Some uid \<and> uid \<noteq> 0 \<and> tls_abs B s uid = None \<and>
            tls_abs B s' = (tls_abs B s)(uid \<mapsto> \<lambda>_. 0)
        else rc < 0 \<and> out = Some x \<and> tls_abs B s' = tls_abs B s"
    by auto
next
  fix rc s' assume res: "mjs_tls_set H tid key v s = (rc, s')"
  note step = tls_set_step [OF assms(1,2) res]
  then show "tls_inv L s'" by blast
  from step show "case tls_abs B s key of None \<Rightarrow> rc = - EINVAL \<and> s' = s
        | Some f \<Rightarrow> rc \<le> 0 \<and> tls_abs B s' =
            (if rc = 0 then (tls_abs B s)(key \<mapsto> f(tid := v)) else tls_abs B s)"
    by (simp split: option.splits)
next
  fix rc s' assume res: "mjs_tls_destroy H key s = (rc, s')"
  note step = tls_destroy_step [OF assms(1,2) res]
  then show "tls_inv L s'" "tls_abs B s' = (tls_abs B s)(key := None)"
    "tls_abs B s key = None \<Longrightarrow> rc = - EINVAL" "tls_abs B s key = None \<Longrightarrow> s' = s"
    by blast+
qed (rule tls_get_abs [OF assms(1,2)])

lemma tls_boot_inv: "tls_inv L (tls_boot w)"
  by (simp add: tls_inv_def tls_boot_def slots_wf_def)

abbreviation (input) tls_demo :: "(nat, key_store) tls_state" where
  "tls_demo \<equiv> tls_boot (0, \<lambda>_. False, \<lambda>_ _. 0)"

theorem tls_refines_map_witness:
  "\<exists>s'. mjs_tls_create key_host True 0 (Some 0) tls_demo = (0, Some 1, s') \<and>
     tls_abs key_bound s' = (tls_abs key_bound tls_demo)(1 \<mapsto> \<lambda>_. 0)"
proof -
  have nxt: "g_next_id tls_demo \<noteq> - 1"
    by (simp add: tls_boot_def)
  obtain s' where res: "mjs_tls_create key_host True 0 (Some 0) tls_demo = (0, Some 1, s')"
    by (simp add: mjs_tls_create_def key_host_def tls_boot_def tls_mint_def tls_grow_def Let_def)
  from tls_refines_map [OF key_host_law tls_boot_inv nxt, of True 0 0] res show ?thesis
    by auto
qed

text \<open>
  (C14) A stale id is never revived. Once an id the registry has handed out is destroyed, no
  sequence of later creations, bindings and destructions makes it valid again, even when its
  slot is reused, until the 64-bit id counter has gone round: setting it fails with
  \<open>-EINVAL\<close> and reading it yields NULL.
\<close>
theorem tls_stale_id_never_revives:
  assumes "pthread_keys_law H L B" and "tls_inv L s" and "uid < g_next_id s"
    and "unat (g_next_id s) + length cs < 18446744073709551616"
    and "mjs_tls_destroy H uid s = (rc, s1)"
  shows "mjs_tls_set H tid uid v (tls_run H cs s1) = (- EINVAL, tls_run H cs s1) \<and>
    mjs_tls_get H tid uid (tls_run H cs s1) = 0"
proof -
  have d: "tls_inv L s1" "g_next_id s1 = g_next_id s" "tls_abs B s1 uid = None"
    using tls_destroy_step [OF assms(1,2,5)] by auto
  then have run: "tls_inv L (tls_run H cs s1)" "tls_abs B (tls_run H cs s1) uid = None"
    using tls_run_stale [OF assms(1) d(1)] assms(3,4) by auto
  obtain rc' s2 where res: "mjs_tls_set H tid uid v (tls_run H cs s1) = (rc', s2)"
    by (cases "mjs_tls_set H tid uid v (tls_run H cs s1)")
  from tls_set_step [OF assms(1) run(1) res] tls_get_abs [OF assms(1) run(1), of tid uid] run(2) res
  show ?thesis by simp
qed

theorem tls_stale_id_never_revives_witness:
  "\<exists>s s1. mjs_tls_create key_host True 0 (Some 0) tls_demo = (0, Some 1, s) \<and>
     mjs_tls_destroy key_host 1 s = (0, s1) \<and>
     mjs_tls_get key_host 7 1
       (tls_run key_host [Create True 0 (Some 0), Bind 7 2 99, Bind 7 1 42] s1) = 0"
proof -
  let ?cs = "[Create True 0 (Some 0), Bind 7 2 99, Bind 7 1 42]"
  obtain s where res: "mjs_tls_create key_host True 0 (Some 0) tls_demo = (0, Some 1, s)"
    by (simp add: mjs_tls_create_def key_host_def tls_boot_def tls_mint_def tls_grow_def Let_def)
  have nxt: "g_next_id tls_demo \<noteq> - 1" and one: "g_next_id tls_demo = 1"
    by (simp_all add: tls_boot_def)
  note step = tls_create_step [OF key_host_law tls_boot_inv nxt res]
  have two: "g_next_id s = 2"
    using step(2) one by auto
  obtain rc s1 where del: "mjs_tls_destroy key_host 1 s = (rc, s1)"
    by (cases "mjs_tls_destroy key_host 1 s")
  have "rc = 0"
    using del res by (auto simp: mjs_tls_create_def key_host_def tls_boot_def tls_mint_def tls_grow_def
        Let_def mjs_tls_destroy_def tls_find_def)
  moreover have "mjs_tls_get key_host 7 1 (tls_run key_host ?cs s1) = 0"
    using tls_stale_id_never_revives [OF key_host_law step(1) _ _ del, of ?cs 7 0] two by simp
  ultimately show ?thesis
    using res del by blast
qed

end
