(* ===== verification/Mjs_Thread.thy ===== *)
theory Mjs_Thread
  imports Mjs_Prelude
begin

text \<open>
  OS threads (native/posix/mjs\_thread.c). Handles live on a heap from addresses to handle
  records; an access to a freed handle is \<^term>\<open>None\<close>. The operations are given twice over the
  same heap actions: as whole calls, and as a step relation in which the trampoline of the new
  thread and the owner's join and detach calls interleave between any two heap accesses.
\<close>

section \<open>Definitions\<close>

abbreviation (input) MJS_THREAD_NAME_MAX :: nat where "MJS_THREAD_NAME_MAX \<equiv> 15"

datatype thread_state = MJS_TS_JOINABLE | MJS_TS_DETACHED | MJS_TS_JOINED

record mjs_thread =
  th_pt :: nat
  th_entry :: addr
  th_userdata :: addr
  th_name :: string
  th_state :: thread_state
  th_refs :: int
  th_status :: int

type_synonym thread_heap = "addr \<Rightarrow> mjs_thread option"

subsection \<open>Heap actions\<close>

definition mjs_thread_unref :: "addr \<Rightarrow> thread_heap \<Rightarrow> thread_heap option" where
  "mjs_thread_unref h H =
     (case H h of
        None \<Rightarrow> None
      | Some r \<Rightarrow> Some (if th_refs r = 1 then H(h := None)
                        else H(h \<mapsto> r\<lparr>th_refs := th_refs r - 1\<rparr>)))"

text \<open>\<open>atomic_compare_exchange_strong\<close> on the state field.\<close>

definition cas_state ::
    "addr \<Rightarrow> thread_state \<Rightarrow> thread_state \<Rightarrow> thread_heap \<Rightarrow> (bool \<times> thread_heap) option" where
  "cas_state h expected desired H =
     (case H h of
        None \<Rightarrow> None
      | Some r \<Rightarrow> Some (if th_state r = expected then (True, H(h \<mapsto> r\<lparr>th_state := desired\<rparr>))
                        else (False, H)))"

text \<open>
  What the trampoline passes to \<open>pthread_setname_np\<close>, whose answer it ignores: \<^term>\<open>None\<close> when the
  name is empty and the call is skipped.
\<close>

definition name_arg :: "string \<Rightarrow> string option" where
  "name_arg n = (if n \<noteq> [] then Some n else None)"

definition trampoline_name :: "addr \<Rightarrow> thread_heap \<Rightarrow> string option option" where
  "trampoline_name h H = map_option (\<lambda>r. name_arg (th_name r)) (H h)"

text \<open>The trampoline's call of the entry point, \<open>run entry userdata\<close>, and its status store.\<close>

definition trampoline_call :: "(addr \<Rightarrow> addr \<Rightarrow> int) \<Rightarrow> addr \<Rightarrow> thread_heap \<Rightarrow> int option" where
  "trampoline_call run h H = map_option (\<lambda>r. run (th_entry r) (th_userdata r)) (H h)"

definition trampoline_store :: "int \<Rightarrow> addr \<Rightarrow> thread_heap \<Rightarrow> thread_heap option" where
  "trampoline_store v h H =
     (case H h of
        None \<Rightarrow> None
      | Some r \<Rightarrow> Some (H(h \<mapsto> r\<lparr>th_status := v\<rparr>)))"

definition mjs_thread_trampoline ::
    "(addr \<Rightarrow> addr \<Rightarrow> int) \<Rightarrow> addr \<Rightarrow> thread_heap \<Rightarrow> (string option \<times> thread_heap) option" where
  "mjs_thread_trampoline run h H =
     (case trampoline_name h H of
        None \<Rightarrow> None
      | Some nm \<Rightarrow>
          (case trampoline_call run h H of
             None \<Rightarrow> None
           | Some v \<Rightarrow>
               (case trampoline_store v h H of
                  None \<Rightarrow> None
                | Some H' \<Rightarrow> map_option (Pair nm) (mjs_thread_unref h H'))))"

subsection \<open>Whole calls\<close>

text \<open>
  The host's answers to one spawn: \<open>pthread_attr_init\<close>, \<open>pthread_attr_setstacksize\<close>,
  \<open>calloc\<close> (\<^term>\<open>None\<close> is NULL), \<open>pthread_create\<close> with the new thread's id.
\<close>

record spawn_host =
  sp_attr_init :: int
  sp_setstacksize :: "size_t \<Rightarrow> int"
  sp_calloc :: "addr option"
  sp_create :: int
  sp_tid :: nat

text \<open>
  \<open>mjs_thread_spawn\<close>: \<open>attrs\<close> counts the initialised and not yet destroyed attribute objects.
  Once the thread is created it may already run; the heap returned is the one at creation.
\<close>

definition mjs_thread_spawn ::
    "spawn_host \<Rightarrow> addr \<Rightarrow> addr \<Rightarrow> size_t \<Rightarrow> string option \<Rightarrow> addr slot \<Rightarrow> thread_heap \<times> nat
      \<Rightarrow> int \<times> addr slot \<times> (thread_heap \<times> nat)" where
  "mjs_thread_spawn S entry userdata stack_size name out Ha =
     (let (H, attrs) = Ha in
      if entry = 0 \<or> out = None then (- EINVAL, out, H, attrs)
      else if name \<noteq> None \<and> length (the name) > MJS_THREAD_NAME_MAX
      then (- ENAMETOOLONG, out, H, attrs)
      else if sp_attr_init S \<noteq> 0 then (- sp_attr_init S, out, H, attrs)
      else
        let attrs1 = attrs + 1;
            rc = (if stack_size \<noteq> 0 then sp_setstacksize S stack_size else 0)
        in if rc \<noteq> 0 then (- rc, out, H, attrs1 - 1)
           else case sp_calloc S of
             None \<Rightarrow> (- ENOMEM, out, H, attrs1 - 1)
           | Some h \<Rightarrow>
               let H1 = H(h \<mapsto> \<lparr>th_pt = sp_tid S, th_entry = entry, th_userdata = userdata,
                      th_name = (case name of None \<Rightarrow> [] | Some n \<Rightarrow> n),
                      th_state = MJS_TS_JOINABLE, th_refs = 2, th_status = 0\<rparr>)
               in if sp_create S \<noteq> 0 then (- sp_create S, out, H1(h := None), attrs1 - 1)
                  else (0, Some h, H1, attrs1 - 1))"

text \<open>
  \<open>mjs_thread_join\<close>: \<open>pj pt H\<close> is what \<open>pthread_join\<close> answers and the heap when it returns (the
  target thread runs meanwhile); a NULL \<open>out_result\<close> is \<^term>\<open>None\<close>.
\<close>

definition mjs_thread_join ::
    "(nat \<Rightarrow> thread_heap \<Rightarrow> int \<times> thread_heap) \<Rightarrow> addr slot \<Rightarrow> int slot \<Rightarrow> thread_heap
      \<Rightarrow> (int \<times> addr slot \<times> int slot \<times> thread_heap) option" where
  "mjs_thread_join pj t out_result H =
     (if t = None \<or> t = Some 0 then Some (- EINVAL, t, out_result, H)
      else
        let h = the t in
        case cas_state h MJS_TS_JOINABLE MJS_TS_JOINED H of
          None \<Rightarrow> None
        | Some (ok, H1) \<Rightarrow>
            if \<not> ok then Some (- EINVAL, t, out_result, H1)
            else
              let (rc, H2) = pj (th_pt (the (H1 h))) H1
              in if rc \<noteq> 0
                 then (case cas_state h MJS_TS_JOINED MJS_TS_JOINABLE H2 of
                         None \<Rightarrow> None
                       | Some (_, H3) \<Rightarrow> Some (- rc, t, out_result, H3))
                 else (case H2 h of
                         None \<Rightarrow> None
                       | Some r \<Rightarrow>
                           (case mjs_thread_unref h H2 of
                              None \<Rightarrow> None
                            | Some H3 \<Rightarrow>
                                Some (0, Some 0, map_option (\<lambda>_. th_status r) out_result, H3))))"

definition mjs_thread_detach ::
    "(nat \<Rightarrow> int) \<Rightarrow> addr slot \<Rightarrow> thread_heap \<Rightarrow> (int \<times> addr slot \<times> thread_heap) option" where
  "mjs_thread_detach pd t H =
     (if t = None \<or> t = Some 0 then Some (- EINVAL, t, H)
      else
        let h = the t in
        case cas_state h MJS_TS_JOINABLE MJS_TS_DETACHED H of
          None \<Rightarrow> None
        | Some (ok, H1) \<Rightarrow>
            if \<not> ok then Some (- EINVAL, t, H1)
            else
              let drc = pd (th_pt (the (H1 h)))
              in if drc \<noteq> 0 then Some (- drc, t, H1)
                 else (case mjs_thread_unref h H1 of
                         None \<Rightarrow> None
                       | Some H2 \<Rightarrow> Some (0, Some 0, H2)))"

definition mjs_thread_self_id :: "u64 \<Rightarrow> u64" where
  "mjs_thread_self_id pthread_self = pthread_self"

definition mjs_thread_set_name :: "(string \<Rightarrow> int) \<Rightarrow> string option \<Rightarrow> int" where
  "mjs_thread_set_name setname name =
     (case name of
        None \<Rightarrow> - EINVAL
      | Some n \<Rightarrow> if length n > MJS_THREAD_NAME_MAX then - ENAMETOOLONG
                  else if setname n = 0 then 0 else - setname n)"

subsection \<open>Interleavings\<close>

text \<open>
  Where the trampoline and the owner stand. The owner makes any sequence of join and detach
  calls on its slot \<open>cf_t\<close>; each program point lies between two heap accesses of the code.
\<close>

datatype tram_pc = TStart | TRunning | TReturned int | TStored | TDone

datatype owner_pc = OIdle | OJoinPt | OJoinWait | OJoinRead | OJoinUnref | ODetachPt | ODetach | ODetachUnref

record thread_cfg =
  cf_heap :: thread_heap
  cf_tram :: tram_pc
  cf_name :: "string option"
  cf_own :: owner_pc
  cf_t :: addr
  cf_out :: "int option"
  cf_rc :: int
  cf_frees :: nat
  cf_bad :: bool

text \<open>
  The effect of a heap action on a configuration: an access to freed memory sets \<open>cf_bad\<close>;
  a handle that disappears is counted in \<open>cf_frees\<close>.
\<close>

definition heap_act :: "addr \<Rightarrow> thread_heap option \<Rightarrow> thread_cfg \<Rightarrow> thread_cfg" where
  "heap_act h r c =
     (case r of
        None \<Rightarrow> c\<lparr>cf_bad := True\<rparr>
      | Some H \<Rightarrow> c\<lparr>cf_heap := H,
          cf_frees := cf_frees c + (if cf_heap c h \<noteq> None \<and> H h = None then 1 else 0)\<rparr>)"

inductive tstep :: "(addr \<Rightarrow> addr \<Rightarrow> int) \<Rightarrow> addr \<Rightarrow> thread_cfg \<Rightarrow> thread_cfg \<Rightarrow> bool"
  for run :: "addr \<Rightarrow> addr \<Rightarrow> int" and h :: addr where
  tram_name: "cf_tram c = TStart \<Longrightarrow>
     tstep run h c ((heap_act h (map_option (\<lambda>_. cf_heap c) (trampoline_name h (cf_heap c))) c)
       \<lparr>cf_tram := TRunning, cf_name := Option.bind (trampoline_name h (cf_heap c)) id\<rparr>)"
| tram_call: "cf_tram c = TRunning \<Longrightarrow>
     tstep run h c ((heap_act h (map_option (\<lambda>_. cf_heap c) (cf_heap c h)) c)
       \<lparr>cf_tram := TReturned (the (trampoline_call run h (cf_heap c)))\<rparr>)"
| tram_store: "cf_tram c = TReturned v \<Longrightarrow>
     tstep run h c ((heap_act h (trampoline_store v h (cf_heap c)) c)\<lparr>cf_tram := TStored\<rparr>)"
| tram_unref: "cf_tram c = TStored \<Longrightarrow>
     tstep run h c ((heap_act h (mjs_thread_unref h (cf_heap c)) c)\<lparr>cf_tram := TDone\<rparr>)"
| null_call: "cf_own c = OIdle \<Longrightarrow> cf_t c = 0 \<Longrightarrow> tstep run h c (c\<lparr>cf_rc := - EINVAL\<rparr>)"
| join_cas: "cf_own c = OIdle \<Longrightarrow> cf_t c = h \<Longrightarrow> h \<noteq> 0 \<Longrightarrow>
     cas_state h MJS_TS_JOINABLE MJS_TS_JOINED (cf_heap c) = Some (True, H) \<Longrightarrow>
     tstep run h c ((heap_act h (Some H) c)\<lparr>cf_own := OJoinPt\<rparr>)"
| join_pt: "cf_own c = OJoinPt \<Longrightarrow>
     tstep run h c ((heap_act h (map_option (\<lambda>_. cf_heap c) (cf_heap c h)) c)\<lparr>cf_own := OJoinWait\<rparr>)"
| detach_cas: "cf_own c = OIdle \<Longrightarrow> cf_t c = h \<Longrightarrow> h \<noteq> 0 \<Longrightarrow>
     cas_state h MJS_TS_JOINABLE MJS_TS_DETACHED (cf_heap c) = Some (True, H) \<Longrightarrow>
     tstep run h c ((heap_act h (Some H) c)\<lparr>cf_own := ODetachPt\<rparr>)"
| detach_pt: "cf_own c = ODetachPt \<Longrightarrow>
     tstep run h c ((heap_act h (map_option (\<lambda>_. cf_heap c) (cf_heap c h)) c)\<lparr>cf_own := ODetach\<rparr>)"
| cas_lost: "cf_own c = OIdle \<Longrightarrow> cf_t c = h \<Longrightarrow> h \<noteq> 0 \<Longrightarrow>
     cas_state h MJS_TS_JOINABLE new (cf_heap c) = Some (False, H) \<Longrightarrow>
     tstep run h c (c\<lparr>cf_rc := - EINVAL\<rparr>)"
| cas_freed: "cf_own c = OIdle \<Longrightarrow> cf_t c = h \<Longrightarrow> h \<noteq> 0 \<Longrightarrow>
     cas_state h MJS_TS_JOINABLE new (cf_heap c) = None \<Longrightarrow>
     tstep run h c (heap_act h None c)"
| join_reaped: "cf_own c = OJoinWait \<Longrightarrow> cf_tram c = TDone \<Longrightarrow>
     tstep run h c (c\<lparr>cf_own := OJoinRead\<rparr>)"
| join_failed: "cf_own c = OJoinWait \<Longrightarrow> 0 < rc \<Longrightarrow>
     tstep run h c ((heap_act h
       (map_option snd (cas_state h MJS_TS_JOINED MJS_TS_JOINABLE (cf_heap c))) c)
       \<lparr>cf_own := OIdle, cf_rc := - rc\<rparr>)"
| join_read: "cf_own c = OJoinRead \<Longrightarrow>
     tstep run h c ((heap_act h (map_option (\<lambda>_. cf_heap c) (cf_heap c h)) c)
       \<lparr>cf_own := OJoinUnref, cf_t := 0, cf_out := map_option th_status (cf_heap c h)\<rparr>)"
| join_unref: "cf_own c = OJoinUnref \<Longrightarrow>
     tstep run h c ((heap_act h (mjs_thread_unref h (cf_heap c)) c)\<lparr>cf_own := OIdle, cf_rc := 0\<rparr>)"
| detach_failed: "cf_own c = ODetach \<Longrightarrow> 0 < rc \<Longrightarrow>
     tstep run h c (c\<lparr>cf_own := OIdle, cf_rc := - rc\<rparr>)"
| detach_done: "cf_own c = ODetach \<Longrightarrow>
     tstep run h c (c\<lparr>cf_own := ODetachUnref, cf_t := 0\<rparr>)"
| detach_unref: "cf_own c = ODetachUnref \<Longrightarrow>
     tstep run h c ((heap_act h (mjs_thread_unref h (cf_heap c)) c)\<lparr>cf_own := OIdle, cf_rc := 0\<rparr>)"

text \<open>The configuration in which a successful spawn leaves the owner and the new thread.\<close>

definition spawned :: "thread_heap \<Rightarrow> addr \<Rightarrow> thread_cfg" where
  "spawned H h = \<lparr>cf_heap = H, cf_tram = TStart, cf_name = None, cf_own = OIdle, cf_t = h, cf_out = None,
     cf_rc = 0, cf_frees = 0, cf_bad = False\<rparr>"

text \<open>Who still holds a reference, and the invariant of the protocol.\<close>

definition owner_ref :: "addr \<Rightarrow> thread_cfg \<Rightarrow> bool" where
  "owner_ref h c \<longleftrightarrow> cf_t c = h \<or> cf_own c = OJoinUnref \<or> cf_own c = ODetachUnref"

definition thread_inv ::
    "(addr \<Rightarrow> addr \<Rightarrow> int) \<Rightarrow> addr \<Rightarrow> addr \<Rightarrow> addr \<Rightarrow> string \<Rightarrow> thread_cfg \<Rightarrow> bool" where
  "thread_inv run h e u n c \<longleftrightarrow>
     h \<noteq> 0 \<and> \<not> cf_bad c \<and> (cf_t c = h \<or> cf_t c = 0) \<and>
     (case cf_heap c h of
        None \<Rightarrow> cf_tram c = TDone \<and> \<not> owner_ref h c \<and> cf_frees c = 1
      | Some r \<Rightarrow> th_refs r = of_bool (cf_tram c \<noteq> TDone) + of_bool (owner_ref h c) \<and>
          0 < th_refs r \<and> cf_frees c = 0 \<and> th_entry r = e \<and> th_userdata r = u \<and> th_name r = n \<and>
          (cf_tram c \<in> {TStored, TDone} \<longrightarrow> th_status r = run e u) \<and>
          (cf_tram c = TReturned (run e u) \<or> (\<forall>v. cf_tram c \<noteq> TReturned v)) \<and>
          (cf_own c \<in> {OJoinPt, OJoinWait} \<longrightarrow> th_state r = MJS_TS_JOINED) \<and>
          (cf_own c \<in> {ODetachPt, ODetach} \<longrightarrow> th_state r = MJS_TS_DETACHED)) \<and>
     (cf_own c \<in> {OJoinPt, OJoinWait, OJoinRead, ODetachPt, ODetach} \<longrightarrow> cf_t c = h) \<and>
     (cf_own c \<in> {OJoinUnref, ODetachUnref} \<longrightarrow> cf_t c = 0) \<and>
     (cf_own c = OJoinRead \<longrightarrow> cf_tram c = TDone) \<and>
     (cf_out c \<noteq> None \<longrightarrow> cf_out c = Some (run e u)) \<and>
     (cf_tram c \<noteq> TStart \<longrightarrow> cf_name c = name_arg n)"

section \<open>Lemmas\<close>

lemmas thread_defs = heap_act_def mjs_thread_unref_def cas_state_def trampoline_call_def trampoline_store_def
  trampoline_name_def owner_ref_def

inductive_cases tstepE: "tstep run h c c'"

lemma tstep_inv:
  assumes "tstep run h c c'" and inv: "thread_inv run h e u n c"
  shows "thread_inv run h e u n c'"
  using assms
proof (induction rule: tstep.induct)
  case (tram_call c)
  then show ?case
    by (cases "cf_heap c h") (auto simp: thread_inv_def thread_defs)
next
  case (tram_store c v)
  then show ?case
    by (cases "cf_heap c h") (auto simp: thread_inv_def thread_defs)
next
  case (join_pt c)
  then show ?case
    by (cases "cf_heap c h") (auto simp: thread_inv_def thread_defs)
next
  case (detach_pt c)
  then show ?case
    by (cases "cf_heap c h") (auto simp: thread_inv_def thread_defs)
next
  case (tram_unref c)
  then show ?case
    by (cases "cf_heap c h") (auto simp: thread_inv_def thread_defs)
next
  case (join_unref c)
  then show ?case
    by (cases "cf_heap c h") (auto simp: thread_inv_def thread_defs)
next
  case (detach_unref c)
  then show ?case
    by (cases "cf_heap c h") (auto simp: thread_inv_def thread_defs)
next
  case (cas_freed c new)
  then show ?case
    by (cases "cf_heap c h") (simp_all add: thread_inv_def thread_defs)
next
  case (join_failed c rc)
  then show ?case
    by (cases "cf_heap c h") (auto simp: thread_inv_def thread_defs)
next
  case (join_cas c H)
  then show ?case
    by (cases "cf_heap c h") (auto simp: thread_inv_def thread_defs split: if_splits)
next
  case (detach_cas c H)
  then show ?case
    by (cases "cf_heap c h") (auto simp: thread_inv_def thread_defs split: if_splits)
next
  case (join_read c)
  then show ?case
    by (cases "cf_heap c h") (auto simp: thread_inv_def thread_defs)
qed (auto simp: thread_inv_def thread_defs split: option.splits)

lemma thread_reachable_inv:
  assumes "(tstep run h)\<^sup>*\<^sup>* c c'" and "thread_inv run h e u n c"
  shows "thread_inv run h e u n c'"
  using assms by (induction rule: rtranclp_induct) (auto intro: tstep_inv)

lemma spawned_inv:
  assumes "H h = Some r" and "th_refs r = 2" and "h \<noteq> 0"
  shows "thread_inv run h (th_entry r) (th_userdata r) (th_name r) (spawned H h)"
  using assms by (auto simp: thread_inv_def spawned_def owner_ref_def)

text \<open>A handle whose detach failed: DETACHED, still owned, no call in progress.\<close>

lemma stranded_step:
  assumes "tstep run h c c'" and "cf_own c = OIdle" and "cf_t c = h" and "h \<noteq> 0"
    and "thread_inv run h e u n c" and "\<exists>r. cf_heap c h = Some r \<and> th_state r = MJS_TS_DETACHED"
  shows "cf_own c' = OIdle \<and> cf_t c' = h \<and> cf_rc c' \<in> {cf_rc c, - EINVAL} \<and>
    (\<exists>r. cf_heap c' h = Some r \<and> th_state r = MJS_TS_DETACHED)"
  using assms
  by (induction rule: tstep.induct)
    (auto simp: thread_inv_def thread_defs split: if_splits)

section \<open>Properties\<close>

text \<open>
  (C15) Handle lifetime under every interleaving. From the configuration a spawn leaves, no
  interleaving of the trampoline with any sequence of join and detach calls of the owner
  touches a freed handle or frees it twice; the handle is freed exactly when the trampoline
  has finished and the owner's call that consumed the slot has dropped its reference, a status a
  join publishes is the value the entry point returned, and before the entry point runs the thread
  has been given the name of the spawn, if there is one.
\<close>
theorem thread_handle_lifetime:
  assumes "H h = Some r" and "th_refs r = 2" and "h \<noteq> 0"
    and "(tstep run h)\<^sup>*\<^sup>* (spawned H h) c"
  shows "\<not> cf_bad c \<and> cf_frees c \<le> 1 \<and>
    (cf_heap c h = None \<longleftrightarrow> cf_tram c = TDone \<and> cf_own c = OIdle \<and> cf_t c = 0) \<and>
    (cf_heap c h = None \<longleftrightarrow> cf_frees c = 1) \<and>
    (\<forall>v. cf_out c = Some v \<longrightarrow> v = run (th_entry r) (th_userdata r)) \<and>
    (cf_tram c \<noteq> TStart \<longrightarrow> cf_name c = name_arg (th_name r))"
proof -
  have "thread_inv run h (th_entry r) (th_userdata r) (th_name r) c"
    by (intro thread_reachable_inv [OF assms(4)] spawned_inv assms(1-3))
  then show ?thesis
    by (cases "cf_own c"; cases "cf_heap c h")
      (auto simp: thread_inv_def owner_ref_def split: if_splits)
qed

definition demo_thread :: mjs_thread where
  "demo_thread = \<lparr>th_pt = 1, th_entry = 64, th_userdata = 5, th_name = ''worker'',
     th_state = MJS_TS_JOINABLE, th_refs = 2, th_status = 0\<rparr>"

definition demo_heap :: thread_heap where
  "demo_heap = [16 \<mapsto> demo_thread]"

text \<open>A run in which the trampoline finishes and the owner then joins.\<close>

lemma join_run:
  "\<exists>c. (tstep run 16)\<^sup>*\<^sup>* (spawned demo_heap 16) c \<and> cf_heap c 16 = None \<and>
     cf_out c = Some (run 64 5) \<and> cf_rc c = 0 \<and> cf_own c = OIdle"
proof -
  let ?r = demo_thread
  note defs = name_arg_def spawned_def demo_heap_def demo_thread_def thread_defs
  let ?c0 = "spawned demo_heap 16"
  let ?cn = "?c0\<lparr>cf_tram := TRunning, cf_name := Some ''worker''\<rparr>"
  let ?cr = "?cn\<lparr>cf_tram := TReturned (run 64 5)\<rparr>"
  let ?c1 = "?cr\<lparr>cf_heap := [16 \<mapsto> ?r\<lparr>th_status := run 64 5\<rparr>], cf_tram := TStored\<rparr>"
  let ?c2 = "?c1\<lparr>cf_heap := [16 \<mapsto> ?r\<lparr>th_status := run 64 5, th_refs := 1\<rparr>], cf_tram := TDone\<rparr>"
  let ?c3 = "?c2\<lparr>cf_heap := [16 \<mapsto> ?r\<lparr>th_status := run 64 5, th_refs := 1,
     th_state := MJS_TS_JOINED\<rparr>], cf_own := OJoinPt\<rparr>"
  let ?cp = "?c3\<lparr>cf_own := OJoinWait\<rparr>"
  let ?c4 = "?cp\<lparr>cf_own := OJoinRead\<rparr>"
  let ?c5 = "?c4\<lparr>cf_own := OJoinUnref, cf_t := 0, cf_out := Some (run 64 5)\<rparr>"
  let ?c6 = "?c5\<lparr>cf_heap := Map.empty, cf_own := OIdle, cf_rc := 0, cf_frees := 1\<rparr>"
  have "tstep run 16 ?c0 ?cn"
    using tstep.tram_name [of ?c0 run 16] by (simp add: defs)
  moreover have "tstep run 16 ?cn ?cr"
    using tstep.tram_call [of ?cn run 16] by (simp add: defs)
  moreover have "tstep run 16 ?cr ?c1"
    using tstep.tram_store [of ?cr "run 64 5" run 16] by (simp add: defs)
  moreover have "tstep run 16 ?c1 ?c2"
    using tstep.tram_unref [of ?c1 run 16] by (simp add: defs)
  moreover have "tstep run 16 ?c2 ?c3"
    using tstep.join_cas [of ?c2 16 "cf_heap ?c3" run] by (simp add: defs)
  moreover have "tstep run 16 ?c3 ?cp"
    using tstep.join_pt [of ?c3 run 16] by (simp add: defs)
  moreover have "tstep run 16 ?cp ?c4"
    using tstep.join_reaped [of ?cp run 16] by (simp add: defs)
  moreover have "tstep run 16 ?c4 ?c5"
    using tstep.join_read [of ?c4 run 16] by (simp add: defs)
  moreover have "tstep run 16 ?c5 ?c6"
    using tstep.join_unref [of ?c5 run 16] by (simp add: defs)
  ultimately have "(tstep run 16)\<^sup>*\<^sup>* ?c0 ?c6"
    by (meson converse_rtranclp_into_rtranclp rtranclp.rtrancl_refl)
  then show ?thesis
    by (intro exI [of _ ?c6]) (simp add: spawned_def)
qed

theorem thread_handle_lifetime_witness:
  "\<exists>c. (tstep (\<lambda>e u. uint (e + u)) 16)\<^sup>*\<^sup>* (spawned demo_heap 16) c \<and>
     cf_heap c 16 = None \<and> cf_frees c = 1 \<and> \<not> cf_bad c \<and> cf_out c = Some 69"
proof -
  define run :: "addr \<Rightarrow> addr \<Rightarrow> int" where "run = (\<lambda>e u. uint (e + u))"
  obtain c where c: "(tstep run 16)\<^sup>*\<^sup>* (spawned demo_heap 16) c" "cf_heap c 16 = None"
    "cf_out c = Some (run 64 5)"
    using join_run [of run] by blast
  have r: "demo_heap 16 = Some demo_thread" "th_refs demo_thread = 2"
    by (simp_all add: demo_heap_def demo_thread_def)
  have h: "(16 :: addr) \<noteq> 0" by simp
  have "cf_frees c = 1 \<and> \<not> cf_bad c"
    using thread_handle_lifetime [OF r h c(1)] c(2) by blast
  moreover have "run 64 5 = 69"
    by (simp add: run_def)
  ultimately show ?thesis
    using c unfolding run_def [symmetric] by (intro exI [of _ c]) simp
qed

text \<open>
  \<open>mjs_thread_spawn\<close> leaks nothing. On success it stores a fresh JOINABLE handle with two
  references that carries the entry, its argument and the whole name; on every failure it
  returns a negative code and leaves the out slot and the heap as they were; and on every path
  the attribute object it initialised has been destroyed.
\<close>
theorem thread_spawn_clean:
  assumes "0 \<le> sp_attr_init S" and "\<And>n. 0 \<le> sp_setstacksize S n" and "0 \<le> sp_create S"
    and "\<And>h. sp_calloc S = Some h \<Longrightarrow> H h = None"
    and "mjs_thread_spawn S entry userdata stack_size name out (H, attrs) = (rc, out', H', attrs')"
  shows "attrs' = attrs \<and> rc \<le> 0 \<and>
    (rc \<noteq> 0 \<longrightarrow> out' = out \<and> H' = H) \<and>
    (rc = 0 \<longrightarrow> (\<exists>h r. sp_calloc S = Some h \<and> out' = Some h \<and> H' = H(h \<mapsto> r) \<and>
       th_refs r = 2 \<and> th_state r = MJS_TS_JOINABLE \<and> th_entry r = entry \<and>
       th_userdata r = userdata \<and> (\<forall>n. name = Some n \<longrightarrow> th_name r = n \<and> length n \<le> 15))) \<and>
    (\<forall>n. name = Some n \<longrightarrow> 15 < length n \<longrightarrow> entry \<noteq> 0 \<longrightarrow> out \<noteq> None \<longrightarrow> rc = - ENAMETOOLONG)"
proof (cases "entry = 0 \<or> out = None \<or> (name \<noteq> None \<and> 15 < length (the name)) \<or> sp_attr_init S \<noteq> 0
    \<or> (stack_size \<noteq> 0 \<and> sp_setstacksize S stack_size \<noteq> 0)")
  case True
  with assms(1) assms(2) [of stack_size] assms(5) show ?thesis
    by (auto simp: mjs_thread_spawn_def Let_def split: if_splits)
next
  case False
  show ?thesis
  proof (cases "sp_calloc S")
    case None
    with False assms(5) show ?thesis
      by (auto simp: mjs_thread_spawn_def Let_def split: if_splits)
  next
    case (Some h)
    with False assms(3,5) assms(4) [OF Some] show ?thesis
      by (cases name) (auto simp: mjs_thread_spawn_def Let_def fun_upd_idem split: if_splits)
  qed
qed

theorem thread_spawn_clean_witness:
  "\<exists>H. mjs_thread_spawn \<lparr>sp_attr_init = 0, sp_setstacksize = (\<lambda>_. 0), sp_calloc = Some 16,
        sp_create = 0, sp_tid = 1\<rparr> 64 5 0 (Some ''worker'') (Some 0) (Map.empty, 3)
      = (0, Some 16, H, 3) \<and> th_name (the (H 16)) = ''worker''"
proof -
  let ?S = "\<lparr>sp_attr_init = 0, sp_setstacksize = (\<lambda>_. 0), sp_calloc = Some 16,
        sp_create = 0, sp_tid = 1\<rparr>"
  obtain H where res: "mjs_thread_spawn ?S 64 5 0 (Some ''worker'') (Some 0) (Map.empty, 3)
      = (0, Some 16, H, 3)"
    by (simp add: mjs_thread_spawn_def Let_def)
  from thread_spawn_clean [OF _ _ _ _ res] res show ?thesis
    by auto
qed

text \<open>
  (C28) A detach that fails strands the handle. When \<open>pthread_detach\<close> reports an error the state
  stays DETACHED (a failed join, by contrast, is rolled back), so from then on every join and
  detach of the owner is \<open>-EINVAL\<close>, the slot is never consumed and the handle is never freed,
  whatever the trampoline does.
\<close>
theorem thread_failed_detach_strands:
  assumes "thread_inv run h e u n c" and "cf_own c = ODetach"
    and "(tstep run h)\<^sup>*\<^sup>* (c\<lparr>cf_own := OIdle, cf_rc := - rc\<rparr>) c'" and "0 < rc"
  shows "tstep run h c (c\<lparr>cf_own := OIdle, cf_rc := - rc\<rparr>) \<and>
    cf_own c' = OIdle \<and> cf_t c' = h \<and> cf_heap c' h \<noteq> None \<and> cf_frees c' = 0 \<and>
    cf_rc c' \<in> {- rc, - EINVAL} \<and>
    (\<forall>pd. \<exists>H. mjs_thread_detach pd (Some h) (cf_heap c') = Some (- EINVAL, Some h, H)) \<and>
    (\<forall>pj out. \<exists>H. mjs_thread_join pj (Some h) out (cf_heap c') = Some (- EINVAL, Some h, out, H))"
proof -
  let ?c0 = "c\<lparr>cf_own := OIdle, cf_rc := - rc\<rparr>"
  have h: "h \<noteq> 0" "cf_t c = h" "\<exists>r. cf_heap c h = Some r \<and> th_state r = MJS_TS_DETACHED"
    using assms(1,2) by (auto simp: thread_inv_def owner_ref_def split: option.splits)
  have step: "tstep run h c ?c0"
    using assms(2,4) by (rule tstep.detach_failed)
  then have inv0: "thread_inv run h e u n ?c0"
    using assms(1) by (rule tstep_inv)
  have "cf_own c' = OIdle \<and> cf_t c' = h \<and> cf_rc c' \<in> {- rc, - EINVAL} \<and> thread_inv run h e u n c' \<and>
    (\<exists>r. cf_heap c' h = Some r \<and> th_state r = MJS_TS_DETACHED)"
    using assms(3)
  proof (induction rule: rtranclp_induct)
    case base
    with h inv0 show ?case by simp
  next
    case (step y z)
    then show ?case
      using stranded_step [OF step(2) _ _ h(1)] tstep_inv [OF step(2)] by force
  qed
  then obtain r where c': "cf_own c' = OIdle" "cf_t c' = h" "cf_rc c' \<in> {- rc, - EINVAL}"
    and inv': "thread_inv run h e u n c'" and r: "cf_heap c' h = Some r" "th_state r = MJS_TS_DETACHED" by blast
  have "cf_frees c' = 0" using inv' r(1) by (simp add: thread_inv_def)
  then show ?thesis
    using step h(1) c' r by (simp add: mjs_thread_detach_def mjs_thread_join_def cas_state_def)
qed

theorem thread_failed_detach_strands_witness:
  "\<exists>c. cf_own c = ODetach \<and> thread_inv (\<lambda>_ _. 7) 16 64 5 [] c \<and>
     cf_t (c\<lparr>cf_own := OIdle, cf_rc := - 3\<rparr>) = 16 \<and>
     (\<exists>H. mjs_thread_detach (\<lambda>_. 0) (Some 16) (cf_heap c) = Some (- EINVAL, Some 16, H))"
proof -
  let ?c = "(spawned [16 \<mapsto> \<lparr>th_pt = 1, th_entry = 64, th_userdata = 5, th_name = [],
     th_state = MJS_TS_DETACHED, th_refs = 2, th_status = 0\<rparr>] 16)\<lparr>cf_own := ODetach\<rparr>"
  have inv: "thread_inv (\<lambda>_ _. 7) 16 64 5 [] ?c"
    by (simp add: thread_inv_def spawned_def owner_ref_def)
  have own: "cf_own ?c = ODetach" by simp
  from thread_failed_detach_strands [OF inv own rtranclp.rtrancl_refl, of 3] inv show ?thesis
    by (intro exI [of _ ?c]) auto
qed

end
