(* ===== verification/Mjs_CPU.thy ===== *)
theory Mjs_CPU
  imports Mjs_Slots
begin

unbundle bit_operations_syntax

text \<open>
  CPU topology and affinity (native/posix/mjs\_cpu.c): the logical count, the sysfs-based
  physical count of Linux, the sysctl one of macOS, and the affinity call of both. Directory
  entries, sysfs files and the scheduler call are arguments.
\<close>

section \<open>Definitions\<close>

definition mjs_cpu_logical :: "int \<Rightarrow> int \<Rightarrow> int" where
  "mjs_cpu_logical n errno =
     (if n \<le> 0 then - (if errno \<noteq> 0 then errno else ENOTSUP)
      else if n > 2147483647 then - EOVERFLOW else n)"

subsection \<open>Physical count\<close>

definition mjs_cpu_physical_mach :: "int host \<Rightarrow> int slot \<Rightarrow> int \<times> int slot" where
  "mjs_cpu_physical_mach sysctl out =
     (if out = None then (- ENOTSUP, out)
      else case sysctl of
             Inl _ \<Rightarrow> (- ENOTSUP, out)
           | Inr phys \<Rightarrow> if phys \<le> 0 then (- ENOTSUP, out) else (0, Some phys))"

text \<open>
  \<open>sscanf(name, "cpu%ld%c", ...) == 1\<close>: the literal, optional white space, an optional sign,
  at least one digit, and nothing after the digits.
\<close>

definition is_cpu_entry :: "string \<Rightarrow> bool" where
  "is_cpu_entry name \<longleftrightarrow>
     take 3 name = ''cpu'' \<and>
     (let r = dropWhile (\<lambda>c. c \<in> set '' '' \<or> c \<in> {CHR 0x09, CHR 0x0A, CHR 0x0B, CHR 0x0C, CHR 0x0D})
                (drop 3 name);
          ds = (case r of [] \<Rightarrow> [] | c # cs \<Rightarrow> if c = CHR ''+'' \<or> c = CHR ''-'' then cs else r)
      in ds \<noteq> [] \<and> (\<forall>c \<in> set ds. c \<in> set ''0123456789''))"

text \<open>
  \<open>read_sysfs_long\<close>: \<open>fs path\<close> is \<^term>\<open>None\<close> when the file cannot be opened, and otherwise the
  number \<open>fscanf\<close> reads from it, if any.
\<close>

definition read_sysfs_long :: "(string \<Rightarrow> int option option) \<Rightarrow> string \<Rightarrow> int option" where
  "read_sysfs_long fs path = (case fs path of None \<Rightarrow> None | Some v \<Rightarrow> v)"

text \<open>The two paths, cut to the 255 characters \<open>snprintf\<close> leaves in the buffer.\<close>

definition package_path :: "string \<Rightarrow> string" where
  "package_path name =
     take 255 (''/sys/devices/system/cpu/'' @ name @ ''/topology/physical_package_id'')"

definition core_path :: "string \<Rightarrow> string" where
  "core_path name = take 255 (''/sys/devices/system/cpu/'' @ name @ ''/topology/core_id'')"

text \<open>
  The \<open>readdir\<close> loop over the remaining entries: the recorded pairs, the array capacity and the
  \<open>undetermined\<close> flag; \<open>mem_ok\<close> tells whether \<open>realloc\<close> to a capacity succeeds, and
  \<^term>\<open>None\<close> is the early return when it does not.
\<close>

fun pairs_loop ::
    "(string \<Rightarrow> int option option) \<Rightarrow> (nat \<Rightarrow> bool) \<Rightarrow> string list
      \<Rightarrow> (int \<times> int) list \<Rightarrow> nat \<Rightarrow> bool \<Rightarrow> ((int \<times> int) list \<times> bool) option" where
  "pairs_loop fs mem_ok [] pairs cap und = Some (pairs, und)"
| "pairs_loop fs mem_ok (name # ds) pairs cap und =
     (if \<not> is_cpu_entry name then pairs_loop fs mem_ok ds pairs cap und
      else case read_sysfs_long fs (package_path name) of
        None \<Rightarrow> pairs_loop fs mem_ok ds pairs cap True
      | Some pkg \<Rightarrow>
         (case read_sysfs_long fs (core_path name) of
            None \<Rightarrow> pairs_loop fs mem_ok ds pairs cap True
          | Some core \<Rightarrow>
              if scan (\<lambda>p. fst p = pkg \<and> snd p = core) pairs \<noteq> None
              then pairs_loop fs mem_ok ds pairs cap und
              else if length pairs = cap
              then let ncap = (if cap \<noteq> 0 then cap * 2 else 64)
                   in if mem_ok ncap
                      then pairs_loop fs mem_ok ds (pairs @ [(pkg, core)]) ncap und
                      else None
              else pairs_loop fs mem_ok ds (pairs @ [(pkg, core)]) cap und))"

definition mjs_cpu_physical ::
    "string list option \<Rightarrow> (string \<Rightarrow> int option option) \<Rightarrow> (nat \<Rightarrow> bool) \<Rightarrow> int slot
      \<Rightarrow> int \<times> int slot" where
  "mjs_cpu_physical dir fs mem_ok out =
     (if out = None then (- ENOTSUP, out)
      else case dir of
        None \<Rightarrow> (- ENOTSUP, out)
      | Some ds \<Rightarrow>
         (case pairs_loop fs mem_ok ds [] 0 False of
            None \<Rightarrow> (- ENOTSUP, out)
          | Some (pairs, und) \<Rightarrow>
              if und \<or> length pairs = 0 \<or> int (length pairs) > 2147483647
              then (- ENOTSUP, out)
              else (0, Some (int (length pairs)))))"

subsection \<open>Affinity\<close>

text \<open>\<open>__builtin_ctzll\<close>: the index of the lowest set bit (of a non-zero word).\<close>

definition ctzll :: "u64 \<Rightarrow> nat" where
  "ctzll x = length (takeWhile (\<lambda>n. \<not> bit x n) [0..<64])"

text \<open>The inner loop over one word: \<open>bits &= bits - 1\<close> until no bit is left.\<close>

function bits_loop :: "nat \<Rightarrow> u64 \<Rightarrow> nat set \<Rightarrow> nat set" where
  "bits_loop w bits cs =
     (if bits = 0 then cs
      else let b = ctzll bits
           in bits_loop w (bits AND (bits - 1)) (insert (w * 64 + b) cs))"
  by pat_completeness auto

lemma and_pred_less: "(x :: u64) \<noteq> 0 \<Longrightarrow> unat (x AND (x - 1)) < unat x"
proof -
  assume x: "x \<noteq> 0"
  have "unat (x AND (x - 1)) \<le> unat (x - 1)"
    using word_and_le1 [of x "x - 1"] by (simp add: word_le_unat)
  also have "\<dots> < unat x"
    using x by (subst unat_sub64) (simp_all add: unat_gt_0 Suc_le_eq)
  finally show ?thesis .
qed

termination bits_loop
  by (relation "measure (\<lambda>(w, bits, cs). unat bits)") (simp_all add: and_pred_less)

declare bits_loop.simps [simp del]

text \<open>
  \<open>mjs_cpu_affinity_set_current\<close> on Linux: \<open>alloc_ok\<close> is \<open>CPU_ALLOC\<close>, \<open>sched setsize cpus\<close> the
  answer of \<open>sched_setaffinity\<close> for the calling thread.
\<close>

definition mjs_cpu_affinity_set_current ::
    "bool \<Rightarrow> (nat \<Rightarrow> nat set \<Rightarrow> unit host) \<Rightarrow> u64 list option \<Rightarrow> u32 \<Rightarrow> int" where
  "mjs_cpu_affinity_set_current alloc_ok sched msk nwords =
     (if msk = None \<or> nwords = 0 then - EINVAL
      else if unat nwords > 18446744073709551615 div 8 then - EINVAL
      else if \<not> alloc_ok then - ENOMEM
      else
        let setsize = unat nwords * 64 div 8;
            cpus = fold (\<lambda>w. bits_loop w (the msk ! w)) [0..<unat nwords] {}
        in case sched setsize cpus of Inl saved \<Rightarrow> - saved | Inr _ \<Rightarrow> 0)"

datatype kern_return = KERN_SUCCESS | KERN_NOT_SUPPORTED | KERN_INVALID_ARGUMENT
  | KERN_INVALID_POLICY | KERN_OTHER

fun kern_rc :: "kern_return \<Rightarrow> int" where
  "kern_rc KERN_SUCCESS = 0"
| "kern_rc KERN_NOT_SUPPORTED = - ENOTSUP"
| "kern_rc KERN_INVALID_ARGUMENT = - EINVAL"
| "kern_rc KERN_INVALID_POLICY = - EINVAL"
| "kern_rc KERN_OTHER = - EIO"

definition mjs_cpu_affinity_set_current_mach :: "kern_return \<Rightarrow> u64 list option \<Rightarrow> u32 \<Rightarrow> int" where
  "mjs_cpu_affinity_set_current_mach kr msk nwords =
     (if msk = None \<or> nwords = 0 then - EINVAL
      else if unat nwords > 18446744073709551615 div 8 then - EINVAL
      else if scan (\<lambda>x. x \<noteq> 0) (take (unat nwords) (the msk)) = None then - EINVAL
      else kern_rc kr)"

text \<open>The topology a directory exposes: what the two files of each cpu entry give.\<close>

definition cpu_pair :: "(string \<Rightarrow> int option option) \<Rightarrow> string \<Rightarrow> (int \<times> int) option" where
  "cpu_pair fs name =
     (case (read_sysfs_long fs (package_path name), read_sysfs_long fs (core_path name)) of
        (Some pkg, Some core) \<Rightarrow> Some (pkg, core)
      | _ \<Rightarrow> None)"

definition topology :: "(string \<Rightarrow> int option option) \<Rightarrow> string list \<Rightarrow> (int \<times> int) option set" where
  "topology fs ds = cpu_pair fs ` {name \<in> set ds. is_cpu_entry name}"

section \<open>Lemmas\<close>

subsection \<open>Bits\<close>

text \<open>Subtracting one flips the bits up to the lowest set one and keeps the others.\<close>

lemma bit_pred_nat:
  assumes "bit (x :: nat) k" and "\<And>j. j < k \<Longrightarrow> \<not> bit x j"
  shows "bit (x - 1) n \<longleftrightarrow> n < k \<or> n \<noteq> k \<and> bit x n"
  using assms
proof (induction k arbitrary: x n)
  case 0
  then have "odd x" by (simp add: bit_0)
  then show ?case
    using odd_bit_iff_bit_pred [of x n] by (cases n) (auto simp: bit_0)
next
  case (Suc k)
  have "even x"
    using Suc.prems(2) [of 0] by (simp add: bit_0)
  then obtain y where x: "x = 2 * y" by (rule evenE)
  have yk: "bit y k"
    using Suc.prems(1) by (simp add: x bit_Suc)
  have yl: "\<not> bit y j" if "j < k" for j
    using Suc.prems(2) [of "Suc j"] that by (simp add: x bit_Suc)
  have "y \<noteq> 0"
    using yk by (rule contrapos_pn) simp
  then have pred: "x - 1 = 1 + 2 * (y - 1)"
    by (simp add: x)
  show ?case
  proof (cases n)
    case 0
    then show ?thesis unfolding pred by (simp add: bit_0)
  next
    case (Suc m)
    then show ?thesis
      using Suc.IH [OF yk yl, of m] unfolding pred by (simp add: x bit_Suc)
  qed
qed

lemma ctzll_lowest:
  assumes "x \<noteq> 0"
  shows "bit x (ctzll x)" and "j < ctzll x \<Longrightarrow> \<not> bit x j" and "ctzll x < 64"
proof -
  let ?P = "\<lambda>n. \<not> bit x n"
  obtain n where n: "bit x n" "n < 64"
  proof -
    from assms obtain n where "bit x n"
      by (auto simp: bit_eq_iff)
    moreover from this have "n < 64"
      using bit_imp_le_length [of x n] by simp
    ultimately show ?thesis using that by blast
  qed
  have len: "ctzll x < 64"
    unfolding ctzll_def
  proof (rule ccontr)
    assume "\<not> length (takeWhile ?P [0..<64]) < 64"
    then have "takeWhile ?P [0..<64] = [0..<64]"
      by (metis diff_zero length_takeWhile_le length_upt not_less order_antisym
          takeWhile_eq_take take_all)
    then have "\<forall>m \<in> set [0..<64]. ?P m"
      by (metis takeWhile_eq_all_conv)
    with n show False by simp
  qed
  then show "ctzll x < 64" .
  have "\<not> ?P ([0..<64] ! ctzll x)"
    unfolding ctzll_def by (rule nth_length_takeWhile) (use len in \<open>simp add: ctzll_def\<close>)
  with len show "bit x (ctzll x)" by simp
  show "\<not> bit x j" if "j < ctzll x"
  proof -
    have "takeWhile ?P [0..<64] ! j = j"
      using that len unfolding ctzll_def by (subst takeWhile_nth) simp_all
    moreover have "takeWhile ?P [0..<64] ! j \<in> set (takeWhile ?P [0..<64])"
      using that unfolding ctzll_def by (rule nth_mem)
    ultimately show ?thesis
      by (metis set_takeWhileD)
  qed
qed

lemma bit_clear_lowest:
  assumes "x \<noteq> 0"
  shows "bit (x AND (x - 1)) n \<longleftrightarrow> bit x n \<and> n \<noteq> ctzll x"
proof (cases "n < 64")
  case True
  have "unat (x - 1) = unat x - 1"
    using assms by (subst unat_sub64) (simp_all add: unat_gt_0 Suc_le_eq)
  then have "bit (x - 1) n \<longleftrightarrow> bit (unat x - 1) n"
    using True bit_unsigned_iff [of "x - 1" n, where 'a = nat] by simp
  also have "\<dots> \<longleftrightarrow> n < ctzll x \<or> n \<noteq> ctzll x \<and> bit (unat x) n"
    using ctzll_lowest [OF assms] by (intro bit_pred_nat) (auto simp: bit_unsigned_iff)
  finally show ?thesis
    using ctzll_lowest(2) [OF assms] by (auto simp: bit_and_iff bit_unsigned_iff)
next
  case False
  then show ?thesis
    by (auto simp: bit_and_iff dest: bit_imp_le_length)
qed

lemma bits_loop_eq: "bits_loop w bits cs = cs \<union> {w * 64 + b |b. bit bits b}"
proof (induction w bits cs rule: bits_loop.induct)
  case (1 w bits cs)
  show ?case
  proof (cases "bits = 0")
    case True
    then show ?thesis by (subst bits_loop.simps) simp
  next
    case False
    have "bits_loop w bits cs = bits_loop w (bits AND (bits - 1)) (insert (w * 64 + ctzll bits) cs)"
      by (subst bits_loop.simps) (simp add: False Let_def)
    also have "\<dots> = insert (w * 64 + ctzll bits) cs \<union> {w * 64 + b |b. bit bits b \<and> b \<noteq> ctzll bits}"
      using 1 [OF False refl] by (simp only: bit_clear_lowest [OF False])
    also have "\<dots> = cs \<union> {w * 64 + b |b. bit bits b}"
      using ctzll_lowest(1) [OF False] by auto
    finally show ?thesis .
  qed
qed

lemma affinity_fold:
  "fold (\<lambda>w. bits_loop w (m w)) [0..<n] cs
     = cs \<union> {i. i < n * 64 \<and> bit (m (i div 64)) (i mod 64)}"
proof (induction n)
  case 0
  show ?case by simp
next
  case (Suc n)
  have new: "{n * 64 + b |b. bit (m n) b} = {i. n * 64 \<le> i \<and> i < Suc n * 64 \<and> bit (m (i div 64)) (i mod 64)}"
    (is "?A = ?B")
  proof (intro equalityI subsetI)
    fix i assume "i \<in> ?A"
    then obtain b where b: "i = n * 64 + b" "bit (m n) b" by blast
    then have "b < 64"
      using bit_imp_le_length [of "m n" b] by simp
    with b show "i \<in> ?B" by simp
  next
    fix i assume i: "i \<in> ?B"
    then have "i div 64 = n" by auto
    with i show "i \<in> ?A"
      using div_mult_mod_eq [of i 64] by (auto intro!: exI [of _ "i mod 64"])
  qed
  have "fold (\<lambda>w. bits_loop w (m w)) [0..<Suc n] cs
      = cs \<union> {i. i < n * 64 \<and> bit (m (i div 64)) (i mod 64)} \<union> ?A"
    unfolding bits_loop_eq [of n, symmetric] using Suc by simp
  moreover have "{i. i < n * 64 \<and> P i} \<union> {i. n * 64 \<le> i \<and> i < Suc n * 64 \<and> P i}
      = {i. i < Suc n * 64 \<and> P i}" for P
    by auto
  ultimately show ?case
    unfolding new by (simp only: Un_assoc)
qed

subsection \<open>Topology\<close>

lemma topology_simps [simp]:
  "topology fs [] = {}"
  "topology fs (d # ds) = (if is_cpu_entry d then insert (cpu_pair fs d) (topology fs ds)
     else topology fs ds)"
  by (auto simp: topology_def)

lemma pairs_loop_Cons:
  assumes "pairs_loop fs mem_ok (d # ds) pairs cap und = Some r"
  obtains (other) "\<not> is_cpu_entry d" "pairs_loop fs mem_ok ds pairs cap und = Some r"
    | (unread) "is_cpu_entry d" "cpu_pair fs d = None" "pairs_loop fs mem_ok ds pairs cap True = Some r"
    | (dup) p where "is_cpu_entry d" "cpu_pair fs d = Some p" "p \<in> set pairs"
        "pairs_loop fs mem_ok ds pairs cap und = Some r"
    | (add) p cap' where "is_cpu_entry d" "cpu_pair fs d = Some p" "p \<notin> set pairs"
        "pairs_loop fs mem_ok ds (pairs @ [p]) cap' und = Some r"
proof (cases "is_cpu_entry d")
  case False
  with assms other show ?thesis by simp
next
  case cpu: True
  show ?thesis
  proof (cases "cpu_pair fs d")
    case None
    with assms cpu unread show ?thesis
      by (simp add: cpu_pair_def split: option.splits)
  next
    case (Some p)
    then obtain pkg core where p: "p = (pkg, core)"
      and rd: "read_sysfs_long fs (package_path d) = Some pkg" "read_sysfs_long fs (core_path d) = Some core"
      by (auto simp: cpu_pair_def split: option.splits)
    have eq: "scan (\<lambda>p. fst p = pkg \<and> snd p = core) pairs \<noteq> None \<longleftrightarrow> p \<in> set pairs"
      by (force simp: scan_None_iff p)
    show ?thesis
    proof (cases "p \<in> set pairs")
      case True
      with assms cpu eq rd dup [OF cpu Some] show ?thesis by simp
    next
      case False
      with assms cpu eq rd add [OF cpu Some] show ?thesis
        by (simp add: Let_def p split: if_splits)
    qed
  qed
qed

lemma pairs_loop_SomeD:
  assumes "pairs_loop fs mem_ok ds pairs cap und = Some (pairs', und')" and "distinct pairs"
  shows "distinct pairs' \<and> Some ` set pairs' = Some ` set pairs \<union> (topology fs ds - {None}) \<and>
    (und' \<longleftrightarrow> und \<or> None \<in> topology fs ds)"
  using assms
proof (induction ds arbitrary: pairs cap und)
  case Nil
  then show ?case by simp
next
  case (Cons d ds)
  from Cons.prems(1) show ?case
  proof (cases rule: pairs_loop_Cons)
    case other
    with Cons.IH [OF other(2)] Cons.prems(2) show ?thesis by simp
  next
    case unread
    with Cons.IH [OF unread(3)] Cons.prems(2) show ?thesis by simp
  next
    case (dup p)
    with Cons.IH [OF dup(4)] Cons.prems(2) show ?thesis by auto
  next
    case (add p cap')
    with Cons.IH [OF add(4)] Cons.prems(2) show ?thesis by auto
  qed
qed

lemma pairs_loop_total:
  assumes "\<And>n. mem_ok n"
  shows "pairs_loop fs mem_ok ds pairs cap und \<noteq> None"
  using assms
  by (induction fs mem_ok ds pairs cap und rule: pairs_loop.induct)
    (auto simp: Let_def split: option.splits)

section \<open>Properties\<close>

text \<open>
  (C25) \<open>mjs_cpu_affinity_set_current\<close> hands the kernel exactly the CPUs of the mask: CPU \<open>i\<close> is
  in the set passed to \<open>sched_setaffinity\<close> if and only if bit \<open>i mod 64\<close> of word \<open>i div 64\<close> is
  set, and no CPU beyond the mask is. The loop that clears the lowest bit visits every set bit
  and ends. The call returns 0 or the kernel's negated error.
\<close>
theorem affinity_set_exact:
  assumes "nwords \<noteq> 0" and "unat nwords \<le> length ws"
  shows "mjs_cpu_affinity_set_current True sched (Some ws) nwords =
    (case sched (unat nwords * 8) {i. i < unat nwords * 64 \<and> bit (ws ! (i div 64)) (i mod 64)} of
       Inl e \<Rightarrow> - e | Inr _ \<Rightarrow> 0) \<and>
    mjs_cpu_affinity_set_current False sched (Some ws) nwords = - ENOMEM"
proof -
  have "unat nwords < 4294967296" by (rule unat_lt32)
  then have "\<not> unat nwords > 18446744073709551615 div 8" by linarith
  then show ?thesis
    using assms(1) by (simp add: mjs_cpu_affinity_set_current_def affinity_fold mult.commute [of _ 8])
qed

theorem affinity_set_exact_witness:
  "mjs_cpu_affinity_set_current True
     (\<lambda>n cpus. if n = 16 \<and> 1 \<in> cpus \<and> 65 \<in> cpus \<and> 2 \<notin> cpus then Inr () else Inl EINVAL)
     (Some [2, 2]) 2 = 0"
proof -
  have "unat (2 :: u32) \<le> length [2, 2 :: u64]" by simp
  from affinity_set_exact [OF _ this] show ?thesis
    by (simp add: bit_0 bit_1_iff bit_numeral_rec)
qed

text \<open>
  (C26) \<open>mjs_cpu_physical\<close> counts physical cores. When every cpu entry of the directory exposes
  both topology files, memory does not run out and there is at least one entry (and fewer than
  2\^31 cores), the call returns 0 and stores the number of distinct (package, core) pairs;
  when any entry is unreadable, or there is none, it returns \<open>-ENOTSUP\<close> and leaves the slot
  untouched.
\<close>
theorem cpu_physical_counts_cores:
  assumes "\<And>n. mem_ok n" and "card (topology fs ds) \<le> 2147483647"
  shows "mjs_cpu_physical (Some ds) fs mem_ok (Some x) =
    (if None \<in> topology fs ds \<or> topology fs ds = {} then (- ENOTSUP, Some x)
     else (0, Some (int (card (topology fs ds)))))"
proof -
  obtain pairs und where loop: "pairs_loop fs mem_ok ds [] 0 False = Some (pairs, und)"
    using pairs_loop_total [of mem_ok fs ds "[]" 0 False] assms(1) by auto
  have d: "distinct pairs" "Some ` set pairs = topology fs ds - {None}"
    "und \<longleftrightarrow> None \<in> topology fs ds"
    using pairs_loop_SomeD [OF loop] by auto
  show ?thesis
  proof (cases und)
    case True
    with loop d show ?thesis by (simp add: mjs_cpu_physical_def)
  next
    case False
    then have eq: "topology fs ds = Some ` set pairs"
      using d by auto
    have "card (topology fs ds) = length pairs"
      unfolding eq using d(1) by (simp add: card_image distinct_card)
    moreover have "topology fs ds = {} \<longleftrightarrow> pairs = []"
      unfolding eq by simp
    ultimately show ?thesis
      using loop False d(3) assms(2) by (auto simp: mjs_cpu_physical_def)
  qed
qed

theorem cpu_physical_counts_cores_witness:
  "mjs_cpu_physical (Some [''cpu0'', ''cpufreq'', ''cpu1'', ''cpu12''])
     (\<lambda>path. if path = core_path ''cpu12'' then Some (Some 1) else Some (Some 0))
     (\<lambda>_. True) (Some 9) = (0, Some 2)"
proof -
  let ?fs = "\<lambda>path. if path = core_path ''cpu12'' then Some (Some 1) else Some (Some 0)"
  let ?ds = "[''cpu0'', ''cpufreq'', ''cpu1'', ''cpu12'']"
  have top: "topology ?fs ?ds = {Some (0, 0), Some (0, 1)}"
    by (simp add: cpu_pair_def is_cpu_entry_def read_sysfs_long_def core_path_def package_path_def
        insert_commute)
  have "mjs_cpu_physical (Some ?ds) ?fs (\<lambda>_. True) (Some 9) =
    (if None \<in> topology ?fs ?ds \<or> topology ?fs ?ds = {} then (- ENOTSUP, Some 9)
     else (0, Some (int (card (topology ?fs ?ds)))))"
    by (rule cpu_physical_counts_cores) (simp, subst top, simp)
  then show ?thesis
    unfolding top by simp
qed

end
