(* ===== verification/Mjs_Sync.thy ===== *)
theory Mjs_Sync
  imports Mjs_Time
begin

text \<open>
  Mutexes and condition variables (native/posix/mjs\_mutex.c, mjs\_condvar.c,
  mjs\_sync\_internal.h). Both are heap objects around one pthread object; \<open>live\<close> is the set of
  addresses currently allocated by these layers. The answers of \<open>malloc\<close> (\<^term>\<open>None\<close> is NULL)
  and of the pthread calls are arguments, and the deadline arithmetic is modelled on words.
\<close>

section \<open>Mutex\<close>

definition mjs_mutex_init ::
    "addr option \<Rightarrow> int \<Rightarrow> addr slot \<Rightarrow> addr set \<Rightarrow> int \<times> addr slot \<times> addr set" where
  "mjs_mutex_init mem rc out live =
     (if out = None then (- EFAULT, out, live)
      else case mem of
        None \<Rightarrow> (- ENOMEM, out, live)
      | Some m \<Rightarrow>
          let live1 = insert m live
          in if rc \<noteq> 0 then (- rc, out, live1 - {m}) else (0, Some m, live1))"

text \<open>
  Lock, try-lock and unlock pass the pthread result through; the model keeps the NULL guard and
  the sign change. \<open>prc\<close> is the pthread call's answer.
\<close>

definition mjs_mutex_lock :: "addr \<Rightarrow> int \<Rightarrow> int" where
  "mjs_mutex_lock m prc = (if m = 0 then - EINVAL else if prc = 0 then 0 else - prc)"

definition mjs_mutex_try_lock :: "addr \<Rightarrow> int \<Rightarrow> int" where
  "mjs_mutex_try_lock m prc = (if m = 0 then - EINVAL else if prc = 0 then 0 else - prc)"

definition mjs_mutex_unlock :: "addr \<Rightarrow> int \<Rightarrow> int" where
  "mjs_mutex_unlock m prc = (if m = 0 then - EINVAL else if prc = 0 then 0 else - prc)"

definition mjs_mutex_destroy ::
    "int \<Rightarrow> addr slot \<Rightarrow> addr set \<Rightarrow> int \<times> addr slot \<times> addr set" where
  "mjs_mutex_destroy rc m live =
     (case m of
        None \<Rightarrow> (- EINVAL, m, live)
      | Some a \<Rightarrow>
          if a = 0 then (- EINVAL, m, live)
          else if rc \<noteq> 0 then (- rc, m, live)
          else (0, Some 0, live - {a}))"

section \<open>Condition variable\<close>

text \<open>The host's answers to one initialisation; the attribute calls are the Linux path.\<close>

record cv_host =
  cv_malloc :: "addr option"
  cv_attr_init :: int
  cv_setclock :: int
  cv_init :: int

definition mjs_condvar_init ::
    "cv_host \<Rightarrow> addr slot \<Rightarrow> addr set \<times> nat \<Rightarrow> int \<times> addr slot \<times> (addr set \<times> nat)" where
  "mjs_condvar_init C out la =
     (let (live, attrs) = la in
      if out = None then (- EFAULT, out, live, attrs)
      else case cv_malloc C of
        None \<Rightarrow> (- ENOMEM, out, live, attrs)
      | Some c \<Rightarrow>
          let live1 = insert c live
          in if cv_attr_init C \<noteq> 0 then (- cv_attr_init C, out, live1 - {c}, attrs)
             else
               let attrs1 = attrs + 1
               in if cv_setclock C \<noteq> 0 then (- cv_setclock C, out, live1 - {c}, attrs1 - 1)
                  else if cv_init C \<noteq> 0 then (- cv_init C, out, live1 - {c}, attrs1 - 1)
                  else (0, Some c, live1, attrs1 - 1))"

definition mjs_condvar_init_mach ::
    "cv_host \<Rightarrow> addr slot \<Rightarrow> addr set \<Rightarrow> int \<times> addr slot \<times> addr set" where
  "mjs_condvar_init_mach C out live =
     (if out = None then (- EFAULT, out, live)
      else case cv_malloc C of
        None \<Rightarrow> (- ENOMEM, out, live)
      | Some c \<Rightarrow>
          let live1 = insert c live
          in if cv_init C \<noteq> 0 then (- cv_init C, out, live1 - {c}) else (0, Some c, live1))"

definition mjs_condvar_wait :: "addr \<Rightarrow> addr \<Rightarrow> int \<Rightarrow> int" where
  "mjs_condvar_wait c m prc =
     (if c = 0 \<or> m = 0 then - EINVAL else if prc = 0 then 0 else - prc)"

text \<open>
  The timespec of a count of nanoseconds: seconds and nanoseconds, read back as signed 64-bit
  numbers.
\<close>

definition ns_timespec :: "u64 \<Rightarrow> int \<times> int" where
  "ns_timespec ns = (sint (ns div 1000000000), sint (ns mod 1000000000))"

text \<open>\<open>timedwait ts\<close> is what \<open>pthread_cond_timedwait\<close> answers for the absolute time \<open>ts\<close>.\<close>

definition mjs_condvar_wait_until ::
    "(int \<times> int \<Rightarrow> int) \<Rightarrow> addr \<Rightarrow> addr \<Rightarrow> u64 \<Rightarrow> int" where
  "mjs_condvar_wait_until timedwait c m deadline_ns =
     (if c = 0 \<or> m = 0 then - EINVAL
      else let rc = timedwait (ns_timespec deadline_ns)
           in if rc = ETIMEDOUT then - ETIMEDOUT else if rc = 0 then 0 else - rc)"

text \<open>The macOS path: \<open>clock\<close> is the result of \<open>mjs_clock_now\<close>, the wait is relative.\<close>

definition mjs_condvar_wait_until_mach ::
    "int \<times> u64 \<Rightarrow> (int \<times> int \<Rightarrow> int) \<Rightarrow> addr \<Rightarrow> addr \<Rightarrow> u64 \<Rightarrow> int" where
  "mjs_condvar_wait_until_mach clock timedwait_rel c m deadline_ns =
     (if c = 0 \<or> m = 0 then - EINVAL
      else if fst clock \<noteq> 0 then - EINVAL
      else if deadline_ns \<le> snd clock then - ETIMEDOUT
      else let remaining = deadline_ns - snd clock;
               rc = timedwait_rel (ns_timespec remaining)
           in if rc = ETIMEDOUT then - ETIMEDOUT else if rc = 0 then 0 else - rc)"

definition mjs_condvar_signal :: "addr \<Rightarrow> int \<Rightarrow> int" where
  "mjs_condvar_signal c prc = (if c = 0 then - EINVAL else if prc = 0 then 0 else - prc)"

definition mjs_condvar_broadcast :: "addr \<Rightarrow> int \<Rightarrow> int" where
  "mjs_condvar_broadcast c prc = (if c = 0 then - EINVAL else if prc = 0 then 0 else - prc)"

definition mjs_condvar_destroy ::
    "int \<Rightarrow> addr slot \<Rightarrow> addr set \<Rightarrow> int \<times> addr slot \<times> addr set" where
  "mjs_condvar_destroy rc c live =
     (case c of
        None \<Rightarrow> (- EINVAL, c, live)
      | Some a \<Rightarrow>
          if a = 0 then (- EINVAL, c, live)
          else if rc \<noteq> 0 then (- rc, c, live)
          else (0, Some 0, live - {a}))"

section \<open>Lemmas\<close>

text \<open>A timespec is normalised and stands for exactly the nanoseconds it was made from.\<close>

lemma ns_timespec_exact:
  assumes "ns_timespec ns = (s, n)"
  shows "0 \<le> s" and "0 \<le> n" and "n < 1000000000" and "s * 1000000000 + n = uint ns"
proof -
  have q: "uint (ns div 1000000000) = uint ns div 1000000000"
    and r: "uint (ns mod 1000000000) = uint ns mod 1000000000"
    by (simp_all add: uint_div uint_mod)
  have lt: "uint ns < 18446744073709551616"
    using uint_lt2p [of ns] by simp
  have small: "sint w = uint w" if "uint w < 9223372036854775808" for w :: u64
  proof -
    have "- 9223372036854775808 \<le> uint w"
      by (rule order_trans [of _ 0]) simp_all
    then show ?thesis
      using that unfolding sint_uint by (intro signed_take_bit_int_eq_self) simp_all
  qed
  have "uint ns div 1000000000 < 9223372036854775808" "uint ns mod 1000000000 < 9223372036854775808"
    using lt by linarith+
  then have "sint (ns div 1000000000) = uint ns div 1000000000"
    and "sint (ns mod 1000000000) = uint ns mod 1000000000"
    using small [of "ns div 1000000000"] small [of "ns mod 1000000000"] by (simp_all only: q r)
  then have s: "s = uint ns div 1000000000" and n: "n = uint ns mod 1000000000"
    using assms by (simp_all add: ns_timespec_def)
  show "0 \<le> s" "0 \<le> n" "n < 1000000000" "s * 1000000000 + n = uint ns"
    unfolding s n by (simp_all add: pos_imp_zdiv_nonneg_iff)
qed

section \<open>Properties\<close>

text \<open>
  Deadline arithmetic. For every 64-bit deadline, \<open>mjs_condvar_wait_until\<close> asks the host
  to wait for a normalised, non-negative timespec that stands for exactly the deadline (Linux),
  or, on macOS, for exactly what remains of it after the current clock reading, without
  wrap-around; a deadline not after the reading is \<open>-ETIMEDOUT\<close> with no wait at all. A
  timeout is reported as \<open>-ETIMEDOUT\<close> and nothing else is.
\<close>
theorem condvar_deadline_exact:
  assumes "c \<noteq> 0" and "m \<noteq> 0"
  shows "(\<exists>s n. mjs_condvar_wait_until tw c m deadline = - tw (s, n) \<and>
       0 \<le> s \<and> 0 \<le> n \<and> n < 1000000000 \<and> s * 1000000000 + n = uint deadline) \<and>
    (deadline \<le> now \<longrightarrow> mjs_condvar_wait_until_mach (0, now) tw c m deadline = - ETIMEDOUT) \<and>
    (now < deadline \<longrightarrow> (\<exists>s n. mjs_condvar_wait_until_mach (0, now) tw c m deadline = - tw (s, n) \<and>
       0 \<le> s \<and> 0 \<le> n \<and> n < 1000000000 \<and>
       s * 1000000000 + n = uint deadline - uint now))"
proof (intro conjI impI)
  obtain s n where sn: "ns_timespec deadline = (s, n)"
    by (cases "ns_timespec deadline")
  have "mjs_condvar_wait_until tw c m deadline = - tw (s, n)"
    using assms by (simp add: mjs_condvar_wait_until_def Let_def sn)
  with ns_timespec_exact [OF sn]
  show "\<exists>s n. mjs_condvar_wait_until tw c m deadline = - tw (s, n) \<and>
       0 \<le> s \<and> 0 \<le> n \<and> n < 1000000000 \<and> s * 1000000000 + n = uint deadline"
    by blast
next
  assume "deadline \<le> now"
  with assms show "mjs_condvar_wait_until_mach (0, now) tw c m deadline = - ETIMEDOUT"
    by (simp add: mjs_condvar_wait_until_mach_def)
next
  assume lt: "now < deadline"
  obtain s n where sn: "ns_timespec (deadline - now) = (s, n)"
    by (cases "ns_timespec (deadline - now)")
  have "mjs_condvar_wait_until_mach (0, now) tw c m deadline = - tw (s, n)"
    using assms lt by (simp add: mjs_condvar_wait_until_mach_def Let_def sn not_le)
  moreover have "uint (deadline - now) = uint deadline - uint now"
    using lt by (intro uint_sub_lem [THEN iffD1]) (simp add: word_less_def)
  ultimately show "\<exists>s n. mjs_condvar_wait_until_mach (0, now) tw c m deadline = - tw (s, n) \<and>
       0 \<le> s \<and> 0 \<le> n \<and> n < 1000000000 \<and>
       s * 1000000000 + n = uint deadline - uint now"
    using ns_timespec_exact [OF sn] by metis
qed

theorem condvar_deadline_exact_witness:
  "mjs_condvar_wait_until_mach (0, 500) (\<lambda>_. ETIMEDOUT) 8 16 400 = - ETIMEDOUT \<and>
   (\<exists>s n. mjs_condvar_wait_until (\<lambda>_. 0) 8 16 2500000000 = - 0 \<and>
      s * 1000000000 + n = (2500000000 :: int) \<and> 0 \<le> n \<and> n < 1000000000)"
proof -
  have c: "(8 :: addr) \<noteq> 0" and m: "(16 :: addr) \<noteq> 0" by simp_all
  show ?thesis
    using condvar_deadline_exact [OF c m, of "\<lambda>_. ETIMEDOUT" 400 500]
      condvar_deadline_exact [OF c m, of "\<lambda>_. 0" 2500000000 0]
    by simp blast
qed

end
