(* ===== verification/Mjs_Monitor.thy ===== *)
theory Mjs_Monitor
  imports Mjs_Sync
begin

text \<open>
  The monitor pattern that the event and the semaphore share (native/posix/mjs\_event.c and
  mjs\_sem.c): a permit count guarded by one mutex, waiters parked on one condition variable,
  predicate loops. Any number of threads run the calls; a step is what one thread does between
  two points at which another may run. The two components differ in what a waiter does to the
  count (\<open>take\<close>) and in what a release does to it and whether it signals (\<open>release\<close>); those are
  arguments here and definitions of the component theories. The mutex and the condition
  variable behave as POSIX says: a wait releases the mutex and parks atomically, a signal wakes
  one parked thread if there is one, wake-ups may be spurious, a wait that is refused with an
  error has neither released the mutex nor parked.
\<close>

section \<open>Definitions\<close>

datatype wait_kind = Wait | WaitUntil | TryWait

text \<open>
  Where a thread stands: outside; about to lock; at the loop head with the mutex held; parked;
  woken with the wait's result and about to re-lock; back from the wait with the mutex held;
  about to unlock and return. \<open>PLock\<close> and \<open>PRelease\<close> are the points of a release call.
\<close>

datatype mon_pc = Outside | WLock wait_kind | WCheck wait_kind | Parked wait_kind
  | Relock wait_kind int | Recheck wait_kind int | PLock | PRelease | Unlock int

record mon =
  mo_owner :: "nat option"
  mo_count :: int
  mo_pc :: "nat \<Rightarrow> mon_pc"
  mo_ret :: "nat \<Rightarrow> int option"
  mo_stored :: nat
  mo_taken :: nat

definition at :: "nat \<Rightarrow> mon_pc \<Rightarrow> mon \<Rightarrow> mon" where
  "at t p c = c\<lparr>mo_pc := (mo_pc c)(t := p)\<rparr>"

text \<open>
  After a wait came back with result \<open>rc\<close>: the plain wait propagates every error; the timed wait
  does so only when no permit is visible at this re-check.
\<close>

fun after_wait :: "wait_kind \<Rightarrow> int \<Rightarrow> int \<Rightarrow> mon_pc" where
  "after_wait Wait rc count = (if rc \<noteq> 0 then Unlock rc else WCheck Wait)"
| "after_wait WaitUntil rc count = (if rc \<noteq> 0 \<and> count = 0 then Unlock rc else WCheck WaitUntil)"
| "after_wait TryWait rc count = WCheck TryWait"

inductive mstep ::
    "(int \<Rightarrow> int) \<Rightarrow> (int \<Rightarrow> int \<times> bool) \<Rightarrow> nat \<Rightarrow> mon \<Rightarrow> mon \<Rightarrow> bool"
  for take :: "int \<Rightarrow> int" and release :: "int \<Rightarrow> int \<times> bool" and N :: nat where
  call_wait: "t < N \<Longrightarrow> mo_pc c t = Outside \<Longrightarrow> mstep take release N c (at t (WLock k) c)"
| call_release: "t < N \<Longrightarrow> mo_pc c t = Outside \<Longrightarrow> mstep take release N c (at t PLock c)"
| lock_failed: "t < N \<Longrightarrow> mo_pc c t = WLock k \<or> mo_pc c t = PLock \<Longrightarrow> 0 < e \<Longrightarrow>
    mstep take release N c ((at t Outside c)\<lparr>mo_ret := (mo_ret c)(t \<mapsto> - e)\<rparr>)"
| lock: "t < N \<Longrightarrow> mo_pc c t = WLock k \<Longrightarrow> mo_owner c = None \<Longrightarrow>
    mstep take release N c ((at t (WCheck k) c)\<lparr>mo_owner := Some t\<rparr>)"
| take_permit: "t < N \<Longrightarrow> mo_pc c t = WCheck k \<Longrightarrow> mo_count c \<noteq> 0 \<Longrightarrow>
    mstep take release N c
      ((at t (Unlock 0) c)\<lparr>mo_count := take (mo_count c), mo_taken := mo_taken c + 1\<rparr>)"
| try_empty: "t < N \<Longrightarrow> mo_pc c t = WCheck TryWait \<Longrightarrow> mo_count c = 0 \<Longrightarrow>
    mstep take release N c (at t (Unlock (- EBUSY)) c)"
| park: "t < N \<Longrightarrow> mo_pc c t = WCheck k \<Longrightarrow> k \<noteq> TryWait \<Longrightarrow> mo_count c = 0 \<Longrightarrow>
    mstep take release N c ((at t (Parked k) c)\<lparr>mo_owner := None\<rparr>)"
| wait_refused: "t < N \<Longrightarrow> mo_pc c t = WCheck k \<Longrightarrow> k \<noteq> TryWait \<Longrightarrow> mo_count c = 0 \<Longrightarrow>
    0 < e \<Longrightarrow> e \<noteq> ETIMEDOUT \<Longrightarrow>
    mstep take release N c (at t (Recheck k (- e)) c)"
| spurious: "t < N \<Longrightarrow> mo_pc c t = Parked k \<Longrightarrow> mstep take release N c (at t (Relock k 0) c)"
| expire: "t < N \<Longrightarrow> mo_pc c t = Parked WaitUntil \<Longrightarrow>
    mstep take release N c (at t (Relock WaitUntil (- ETIMEDOUT)) c)"
| relock: "t < N \<Longrightarrow> mo_pc c t = Relock k rc \<Longrightarrow> mo_owner c = None \<Longrightarrow>
    mstep take release N c ((at t (Recheck k rc) c)\<lparr>mo_owner := Some t\<rparr>)"
| recheck: "t < N \<Longrightarrow> mo_pc c t = Recheck k rc \<Longrightarrow>
    mstep take release N c (at t (after_wait k rc (mo_count c)) c)"
| release_lock: "t < N \<Longrightarrow> mo_pc c t = PLock \<Longrightarrow> mo_owner c = None \<Longrightarrow>
    mstep take release N c ((at t PRelease c)\<lparr>mo_owner := Some t\<rparr>)"
| release_wake: "t < N \<Longrightarrow> mo_pc c t = PRelease \<Longrightarrow> release (mo_count c) = (n, True) \<Longrightarrow>
    t' < N \<Longrightarrow> mo_pc c t' = Parked k \<Longrightarrow>
    mstep take release N c
      ((at t' (Relock k 0) (at t (Unlock 0) c))\<lparr>mo_count := n, mo_stored := mo_stored c + 1\<rparr>)"
| release_nobody: "t < N \<Longrightarrow> mo_pc c t = PRelease \<Longrightarrow> release (mo_count c) = (n, True) \<Longrightarrow>
    (\<forall>t' < N. \<forall>k. mo_pc c t' \<noteq> Parked k) \<Longrightarrow>
    mstep take release N c
      ((at t (Unlock 0) c)\<lparr>mo_count := n, mo_stored := mo_stored c + 1\<rparr>)"
| release_coalesced: "t < N \<Longrightarrow> mo_pc c t = PRelease \<Longrightarrow> release (mo_count c) = (n, False) \<Longrightarrow>
    mstep take release N c ((at t (Unlock 0) c)\<lparr>mo_count := n\<rparr>)"
| unlock: "t < N \<Longrightarrow> mo_pc c t = Unlock rc \<Longrightarrow>
    mstep take release N c
      ((at t Outside c)\<lparr>mo_owner := None, mo_ret := (mo_ret c)(t \<mapsto> rc)\<rparr>)"

definition mon_init :: "int \<Rightarrow> mon" where
  "mon_init n = \<lparr>mo_owner = None, mo_count = n, mo_pc = \<lambda>_. Outside, mo_ret = \<lambda>_. None,
     mo_stored = 0, mo_taken = 0\<rparr>"

text \<open>Threads that hold the mutex, and waiters that will look at the count before they sleep.\<close>

fun critical :: "mon_pc \<Rightarrow> bool" where
  "critical (WCheck _) = True"
| "critical (Recheck _ _) = True"
| "critical PRelease = True"
| "critical (Unlock _) = True"
| "critical _ = False"

fun awake :: "mon_pc \<Rightarrow> bool" where
  "awake (WCheck k) = (k \<noteq> TryWait)"
| "awake (Relock k _) = (k \<noteq> TryWait)"
| "awake (Recheck k _) = (k \<noteq> TryWait)"
| "awake _ = False"

definition is_parked :: "mon_pc \<Rightarrow> bool" where
  "is_parked p \<longleftrightarrow> (\<exists>k. p = Parked k)"

definition awake_set :: "nat \<Rightarrow> mon \<Rightarrow> nat set" where
  "awake_set N c = {t. t < N \<and> awake (mo_pc c t)}"

definition parked_set :: "nat \<Rightarrow> mon \<Rightarrow> nat set" where
  "parked_set N c = {t. t < N \<and> is_parked (mo_pc c t)}"

text \<open>
  The invariant: one owner, who is the thread in its critical section; the count is what was
  stored and not taken, and is never negative; and no lost wake-up: while a waiter is parked,
  there are at least as many awake waiters as permits. A try-wait never parks, and the
  last two conjuncts say which results a pending wait can carry.
\<close>

definition mon_inv :: "(int \<Rightarrow> bool) \<Rightarrow> nat \<Rightarrow> int \<Rightarrow> mon \<Rightarrow> bool" where
  "mon_inv valid N n c \<longleftrightarrow>
     (\<forall>t < N. critical (mo_pc c t) \<longleftrightarrow> mo_owner c = Some t) \<and>
     valid (mo_count c) \<and> mo_count c = n + int (mo_stored c) - int (mo_taken c) \<and>
     (parked_set N c \<noteq> {} \<longrightarrow> mo_count c \<le> int (card (awake_set N c))) \<and>
     (\<forall>t < N. mo_pc c t \<noteq> Parked TryWait) \<and>
     (\<forall>t < N. \<forall>rc. mo_pc c t = Relock Wait rc \<longrightarrow> rc = 0) \<and>
     (\<forall>t < N. \<forall>rc. mo_pc c t = Recheck Wait rc \<longrightarrow> rc \<noteq> 0 \<longrightarrow> mo_count c = 0)"

section \<open>Lemmas\<close>

lemma at_simps [simp]:
  "mo_owner (at t p c) = mo_owner c" "mo_count (at t p c) = mo_count c"
  "mo_pc (at t p c) = (mo_pc c)(t := p)" "mo_ret (at t p c) = mo_ret c"
  "mo_stored (at t p c) = mo_stored c" "mo_taken (at t p c) = mo_taken c"
  by (simp_all add: at_def)

lemma is_parked_simps [simp]:
  "is_parked (Parked k)" "\<not> is_parked Outside" "\<not> is_parked (WLock k)" "\<not> is_parked (WCheck k)"
  "\<not> is_parked (Relock k rc)" "\<not> is_parked (Recheck k rc)" "\<not> is_parked PLock"
  "\<not> is_parked PRelease" "\<not> is_parked (Unlock rc)"
  by (auto simp: is_parked_def)

lemma awake_parked: "is_parked p \<Longrightarrow> \<not> awake p"
  by (auto simp: is_parked_def)

lemma finite_awake [simp]: "finite (awake_set N c)"
  by (simp add: awake_set_def)

lemma awake_set_upd:
  assumes "mo_pc c' = (mo_pc c)(t := p)" and "t < N"
  shows "awake_set N c' = (if awake p then insert t (awake_set N c) else awake_set N c - {t})"
  using assms by (auto simp: awake_set_def)

lemma parked_set_upd:
  assumes "mo_pc c' = (mo_pc c)(t := p)" and "t < N"
  shows "parked_set N c' = (if is_parked p then insert t (parked_set N c) else parked_set N c - {t})"
  using assms by (auto simp: parked_set_def)

text \<open>The wake-up condition, and the two ways in which a step of one thread keeps it.\<close>

definition wakeup_ok :: "nat \<Rightarrow> mon \<Rightarrow> bool" where
  "wakeup_ok N c \<longleftrightarrow> (parked_set N c \<noteq> {} \<longrightarrow> mo_count c \<le> int (card (awake_set N c)))"

lemma wakeup_keep:
  assumes "wakeup_ok N c" and "mo_pc c' = (mo_pc c)(t := p)" and "t < N"
    and "awake (mo_pc c t) \<Longrightarrow> awake p" and "\<not> is_parked p" and "mo_count c' = mo_count c"
  shows "wakeup_ok N c'"
proof -
  have "awake_set N c \<subseteq> awake_set N c'"
    using assms(3,4) unfolding awake_set_upd [OF assms(2,3)] by (auto simp: awake_set_def)
  then have "card (awake_set N c) \<le> card (awake_set N c')"
    by (intro card_mono) simp_all
  with assms(1,5,6) show ?thesis
    unfolding wakeup_ok_def parked_set_upd [OF assms(2,3)] by auto
qed

lemma wakeup_take:
  assumes "wakeup_ok N c" and "mo_pc c' = (mo_pc c)(t := p)" and "t < N"
    and "\<not> is_parked p" and "mo_count c' = mo_count c - 1"
  shows "wakeup_ok N c'"
proof -
  have "card (awake_set N c - {t}) \<le> card (awake_set N c')"
    unfolding awake_set_upd [OF assms(2,3)] by (intro card_mono) auto
  moreover have "card (awake_set N c) \<le> card (awake_set N c - {t}) + 1"
    using diff_card_le_card_Diff [of "{t}" "awake_set N c"] by simp
  ultimately show ?thesis
    using assms(1,4,5) unfolding wakeup_ok_def parked_set_upd [OF assms(2,3)] by auto
qed

lemma wakeup_empty: "mo_count c = 0 \<Longrightarrow> wakeup_ok N c"
  by (simp add: wakeup_ok_def)

lemma wakeup_signal:
  assumes "wakeup_ok N c" and t: "t < N" "t' < N" and pc: "mo_pc c t = PRelease" "mo_pc c t' = Parked k"
    and k: "k \<noteq> TryWait"
    and "mo_pc c' = (mo_pc c)(t := Unlock 0, t' := Relock k 0)" and "mo_count c' = mo_count c + 1"
  shows "wakeup_ok N c'"
proof -
  have "t' \<notin> awake_set N c" and "t' \<in> parked_set N c"
    using pc t by (simp_all add: awake_set_def parked_set_def)
  moreover have "awake_set N c' = insert t' (awake_set N c)"
    using pc t k assms(7) by (auto simp: awake_set_def)
  ultimately show ?thesis
    using assms(1,8) unfolding wakeup_ok_def by auto
qed

section \<open>The contract of a component\<close>

text \<open>
  \<open>valid\<close> are the counts the component can hold, \<open>room\<close> those at which a release cannot
  overflow.
\<close>

locale permit_monitor =
  fixes take :: "int \<Rightarrow> int" and release :: "int \<Rightarrow> int \<times> bool"
    and valid :: "int \<Rightarrow> bool" and room :: "int \<Rightarrow> bool"
  assumes valid_nonneg: "valid n \<Longrightarrow> 0 \<le> n"
    and take_one: "valid n \<Longrightarrow> n \<noteq> 0 \<Longrightarrow> take n = n - 1 \<and> valid (n - 1)"
    and release_one: "valid n \<Longrightarrow> room n \<Longrightarrow> release n = (m, s) \<Longrightarrow>
      valid m \<and> m = n + of_bool s \<and> (\<not> s \<longrightarrow> n \<noteq> 0)"
begin

lemma step_wakeup:
  assumes "mstep take release N c c'" and "mon_inv valid N n c" and "room (mo_count c)"
  shows "wakeup_ok N c'"
proof -
  have ok: "wakeup_ok N c" and v: "valid (mo_count c)"
    using assms(2) by (auto simp: mon_inv_def wakeup_ok_def)
  from assms(1) show ?thesis
  proof cases
    case (take_permit t k)
    then show ?thesis
      using take_one [OF v] by (intro wakeup_take [OF ok, of _ t "Unlock 0"]) auto
  next
    case (recheck t k rc)
    have "mo_count c = 0 \<or> after_wait k rc (mo_count c) = WCheck k"
      using assms(2) recheck by (cases k) (auto simp: mon_inv_def)
    then show ?thesis
    proof
      assume "mo_count c = 0"
      with recheck show ?thesis by (intro wakeup_empty) simp
    next
      assume aw: "after_wait k rc (mo_count c) = WCheck k"
      with recheck show ?thesis
        by (intro wakeup_keep [OF ok, of _ t "WCheck k"]) auto
    qed
  next
    case (release_wake t m t' k)
    then show ?thesis
      using release_one [OF v assms(3)] assms(2)
      by (intro wakeup_signal [OF ok, of t t' k]) (auto simp: mon_inv_def)
  next
    case (release_nobody t m)
    then have "parked_set N c' = {}"
      by (auto simp: parked_set_def is_parked_def)
    then show ?thesis by (simp add: wakeup_ok_def)
  next
    case (release_coalesced t m)
    then show ?thesis
      using release_one [OF v assms(3)] by (intro wakeup_keep [OF ok, of _ t "Unlock 0"]) auto
  next
    case (park t k)
    then show ?thesis by (intro wakeup_empty) simp
  qed (auto intro!: wakeup_keep [OF ok])
qed

lemma step_owner:
  assumes "mstep take release N c c'" and "mon_inv valid N n c"
  shows "\<forall>t < N. critical (mo_pc c' t) \<longleftrightarrow> mo_owner c' = Some t"
proof -
  have own: "\<forall>t < N. critical (mo_pc c t) \<longleftrightarrow> mo_owner c = Some t"
    using assms(2) by (simp add: mon_inv_def)
  from assms(1) show ?thesis
  proof cases
    case (recheck t k rc)
    have "critical (after_wait k rc (mo_count c))" by (cases k) simp_all
    with own recheck show ?thesis by force
  next
    case (release_wake t m t' k)
    with own show ?thesis by force
  qed (use own in force)+
qed

lemma step_count:
  assumes "mstep take release N c c'" and "mon_inv valid N n c" and "room (mo_count c)"
  shows "valid (mo_count c') \<and> mo_count c' = n + int (mo_stored c') - int (mo_taken c')"
proof -
  have v: "valid (mo_count c)" and e: "mo_count c = n + int (mo_stored c) - int (mo_taken c)"
    using assms(2) unfolding mon_inv_def by blast+
  from assms(1) show ?thesis
  proof cases
    case (take_permit t k)
    with take_one [OF v] v e show ?thesis by simp
  next
    case (release_wake t m t' k)
    with release_one [OF v assms(3) release_wake(4)] e show ?thesis by auto
  next
    case (release_nobody t m)
    with release_one [OF v assms(3) release_nobody(4)] e show ?thesis by auto
  next
    case (release_coalesced t m)
    with release_one [OF v assms(3) release_coalesced(4)] e show ?thesis by auto
  qed (use v e in simp_all)
qed

text \<open>Only the owner of the mutex changes the count.\<close>

lemma step_count_owner:
  assumes "mstep take release N c c'" and "mon_inv valid N n c" and "mo_count c' \<noteq> mo_count c"
  shows "\<exists>t < N. mo_owner c = Some t \<and> \<not> (\<exists>k rc. mo_pc c t = Recheck k rc)"
  using assms(1)
proof cases
  case (take_permit t k)
  with assms(2) show ?thesis by (auto simp: mon_inv_def)
next
  case (release_wake t m t' k)
  with assms(2) show ?thesis by (auto simp: mon_inv_def)
next
  case (release_nobody t m)
  with assms(2) show ?thesis by (auto simp: mon_inv_def)
next
  case (release_coalesced t m)
  with assms(2) show ?thesis by (auto simp: mon_inv_def)
qed (use assms(3) in simp_all)

lemma step_results:
  assumes "mstep take release N c c'" and inv: "mon_inv valid N n c" and "t < N"
  shows "mo_pc c' t \<noteq> Parked TryWait" and "mo_pc c' t = Relock Wait rc \<Longrightarrow> rc = 0"
    and "mo_pc c' t = Recheck Wait rc \<Longrightarrow> rc \<noteq> 0 \<Longrightarrow> mo_count c' = 0"
proof -
  have old: "mo_pc c t \<noteq> Parked TryWait" "mo_pc c t = Relock Wait rc \<Longrightarrow> rc = 0"
    "mo_pc c t = Recheck Wait rc \<Longrightarrow> rc \<noteq> 0 \<Longrightarrow> mo_count c = 0"
    using inv assms(3) by (auto simp: mon_inv_def)
  have aw: "after_wait k r x \<noteq> Parked TryWait" "after_wait k r x \<noteq> Relock Wait rc"
    "after_wait k r x \<noteq> Recheck Wait rc" for k r x
    by (cases k; simp)+
  show "mo_pc c' t \<noteq> Parked TryWait"
    using assms(1) old(1) aw by cases auto
  show "mo_pc c' t = Relock Wait rc \<Longrightarrow> rc = 0"
    using assms(1) old(2) aw by cases (auto split: if_splits)
  assume re: "mo_pc c' t = Recheck Wait rc" "rc \<noteq> 0"
  show "mo_count c' = 0"
  proof (cases "mo_pc c t = Recheck Wait rc")
    case True
    then have "mo_owner c = Some t"
      using inv assms(3) by (auto simp: mon_inv_def)
    with True step_count_owner [OF assms(1) inv] have "mo_count c' = mo_count c"
      by fastforce
    with old(3) True re(2) show ?thesis by simp
  next
    case False
    from assms(1) show ?thesis
    proof cases
      case (wait_refused t' k e)
      with re False show ?thesis by (auto split: if_splits)
    next
      case (relock t' k r)
      with re False inv assms(3) show ?thesis by (auto simp: mon_inv_def split: if_splits)
    qed (use re False aw in \<open>auto split: if_splits\<close>)
  qed
qed

lemma step_inv:
  assumes "mstep take release N c c'" and "mon_inv valid N n c" and "room (mo_count c)"
  shows "mon_inv valid N n c'"
  unfolding mon_inv_def
  using step_owner [OF assms(1,2)] step_count [OF assms] step_wakeup [OF assms, unfolded wakeup_ok_def]
    step_results [OF assms(1,2)]
  by blast

lemma step_stored: "mstep take release N c c' \<Longrightarrow> mo_stored c \<le> mo_stored c'"
  by (induction rule: mstep.induct) simp_all

text \<open>
  Along every run on which releases have room, the invariant holds; room may be given by a
  bound on the permits ever stored.
\<close>

lemma reachable_inv:
  assumes "(mstep take release N)\<^sup>*\<^sup>* (mon_init n) c" and "valid n"
    and room: "\<And>d. mon_inv valid N n d \<Longrightarrow> mo_stored d \<le> mo_stored c \<Longrightarrow> room (mo_count d)"
  shows "mon_inv valid N n c"
  using assms(1) room
proof (induction rule: rtranclp_induct)
  case base
  with assms(2) show ?case
    by (auto simp: mon_inv_def mon_init_def parked_set_def)
next
  case (step y z)
  have "mo_stored y \<le> mo_stored z"
    using step(2) by (rule step_stored)
  then have "mon_inv valid N n y"
    using step.IH step.prems by force
  with step.prems \<open>mo_stored y \<le> mo_stored z\<close> show ?case
    using step_inv [OF step(2)] by blast
qed

text \<open>No waiter sleeps beside a permit that nobody is about to take.\<close>

lemma no_lost_wakeup:
  assumes "mon_inv valid N n c" and "t < N" and "is_parked (mo_pc c t)" and "mo_count c \<noteq> 0"
  shows "\<exists>t' < N. awake (mo_pc c t')"
proof -
  have "parked_set N c \<noteq> {}"
    using assms(2,3) by (auto simp: parked_set_def)
  then have "mo_count c \<le> int (card (awake_set N c))" and "valid (mo_count c)"
    using assms(1) unfolding mon_inv_def by blast+
  then have "0 < card (awake_set N c)"
    using assms(4) valid_nonneg [of "mo_count c"] by linarith
  then show ?thesis
    by (auto simp: awake_set_def card_gt_0_iff)
qed

lemma mutual_exclusion:
  assumes "mon_inv valid N n c" and "t < N" "t' < N"
    and "critical (mo_pc c t)" "critical (mo_pc c t')"
  shows "t = t'"
  using assms by (auto simp: mon_inv_def)

end

text \<open>Expiry parity: a wait reports a timeout only when no permit is visible at its re-check.\<close>

lemma timeout_only_if_empty:
  assumes "mstep tk release N c c'" and "mo_pc c' t = Unlock (- ETIMEDOUT)"
    and "mo_pc c t \<noteq> Unlock (- ETIMEDOUT)"
  shows "\<exists>k. mo_pc c t = Recheck k (- ETIMEDOUT) \<and> (k = WaitUntil \<longrightarrow> mo_count c = 0) \<and> k \<noteq> TryWait"
  using assms(1)
proof cases
  case (recheck t' k rc)
  with assms(2,3) show ?thesis
    by (cases k) (auto split: if_splits)
qed (use assms(2,3) in \<open>auto split: if_splits\<close>)

text \<open>A run: thread 0 parks, thread 1 releases and wakes it, before thread 0 takes the permit.\<close>

lemma park_and_wake_run:
  assumes "release 0 = (1, True)"
  shows "\<exists>c. (mstep tk release 2)\<^sup>*\<^sup>* (mon_init 0) c \<and> mo_count c = 1 \<and> mo_stored c = 1 \<and>
    mo_pc c 0 = Relock Wait 0 \<and> mo_pc c 1 = Unlock 0"
proof -
  let ?c0 = "mon_init 0"
  let ?c1 = "at 0 (WLock Wait) ?c0"
  let ?c2 = "(at 0 (WCheck Wait) ?c1)\<lparr>mo_owner := Some 0\<rparr>"
  let ?c3 = "(at 0 (Parked Wait) ?c2)\<lparr>mo_owner := None\<rparr>"
  let ?c4 = "at 1 PLock ?c3"
  let ?c5 = "(at 1 PRelease ?c4)\<lparr>mo_owner := Some 1\<rparr>"
  let ?c6 = "(at 0 (Relock Wait 0) (at 1 (Unlock 0) ?c5))\<lparr>mo_count := 1, mo_stored := mo_stored ?c5 + 1\<rparr>"
  let ?R = "mstep tk release 2"
  have "?R ?c0 ?c1" by (rule mstep.call_wait) (simp_all add: mon_init_def)
  moreover have "?R ?c1 ?c2" by (rule mstep.lock) (simp_all add: mon_init_def)
  moreover have "?R ?c2 ?c3" by (rule mstep.park) (simp_all add: mon_init_def)
  moreover have "?R ?c3 ?c4" by (rule mstep.call_release) (simp_all add: mon_init_def)
  moreover have "?R ?c4 ?c5" by (rule mstep.release_lock) (simp_all add: mon_init_def)
  moreover have "?R ?c5 ?c6"
    by (rule mstep.release_wake) (simp_all add: mon_init_def assms)
  ultimately have "?R\<^sup>*\<^sup>* ?c0 ?c6"
    by (meson converse_rtranclp_into_rtranclp rtranclp.rtrancl_refl)
  then show ?thesis
    by (intro exI [of _ ?c6]) (simp add: mon_init_def)
qed

end
