(* ===== verification/Mjs_Event.thy ===== *)
theory Mjs_Event
  imports Mjs_Monitor
begin

text \<open>
  The auto-reset event (native/posix/mjs\_event.c): one token, one mutex, one condition variable.
  Creation and destruction are modelled with the objects they allocate; each call that touches
  the token is modelled as one thread executes it, against the results its condition-variable
  waits return and the token it finds after each; and the interleaving of any number of such
  calls is the monitor relation with this component's \<open>event_take\<close> and \<open>event_release\<close>.
\<close>

section \<open>Definitions\<close>

record mjs_event =
  ev_m :: addr
  ev_cv :: addr
  ev_signaled :: int

text \<open>
  The objects: the event structures by address, the live allocations of the synchronisation
  layers, the condition-variable attribute objects in use.
\<close>

record event_objs =
  eo_events :: "addr \<Rightarrow> mjs_event option"
  eo_live :: "addr set"
  eo_attrs :: nat

text \<open>The host's answers to one creation; \<open>ei_m_destroy\<close> is used when it has to be undone.\<close>

record init_host =
  ei_malloc :: "addr option"
  ei_m_malloc :: "addr option"
  ei_m_init :: int
  ei_cv :: cv_host
  ei_m_destroy :: int

definition mjs_event_init :: "init_host \<Rightarrow> addr slot \<Rightarrow> event_objs \<Rightarrow> int \<times> addr slot \<times> event_objs" where
  "mjs_event_init I out s =
     (if out = None then (- EFAULT, out, s)
      else case ei_malloc I of
        None \<Rightarrow> (- ENOMEM, out, s)
      | Some e \<Rightarrow>
          let live1 = insert e (eo_live s);
              (rc, m, live2) = mjs_mutex_init (ei_m_malloc I) (ei_m_init I) (Some 0) live1
          in if rc \<noteq> 0 then (rc, out, s\<lparr>eo_live := live2 - {e}\<rparr>)
             else
               let (rc, cv, live3, attrs) = mjs_condvar_init (ei_cv I) (Some 0) (live2, eo_attrs s)
               in if rc \<noteq> 0
                  then let (_, _, live4) = mjs_mutex_destroy (ei_m_destroy I) m live3
                       in (rc, out, s\<lparr>eo_live := live4 - {e}, eo_attrs := attrs\<rparr>)
                  else (0, Some e,
                        s\<lparr>eo_events := (eo_events s)(e \<mapsto>
                            \<lparr>ev_m = the m, ev_cv = the cv, ev_signaled = 0\<rparr>),
                          eo_live := live3, eo_attrs := attrs\<rparr>))"

text \<open>\<open>cv_rc\<close> and \<open>m_rc\<close> are the answers of the two pthread destroy calls.\<close>

definition mjs_event_destroy ::
    "int \<Rightarrow> int \<Rightarrow> addr slot \<Rightarrow> event_objs \<Rightarrow> (int \<times> addr slot \<times> event_objs) option" where
  "mjs_event_destroy cv_rc m_rc e s =
     (case e of
        None \<Rightarrow> Some (- EINVAL, e, s)
      | Some a \<Rightarrow>
          if a = 0 then Some (- EINVAL, e, s)
          else case eo_events s a of
            None \<Rightarrow> None
          | Some ev \<Rightarrow>
              let (rc, cv, live1) = mjs_condvar_destroy cv_rc (Some (ev_cv ev)) (eo_live s);
                  ev1 = ev\<lparr>ev_cv := the cv\<rparr>
              in if rc \<noteq> 0 then Some (rc, e, s)
                 else
                   let (rc, m, live2) = mjs_mutex_destroy m_rc (Some (ev_m ev1)) live1
                   in if rc \<noteq> 0
                      then Some (rc, e, s\<lparr>eo_events := (eo_events s)(a \<mapsto> ev1), eo_live := live1\<rparr>)
                      else Some (0, Some 0,
                             s\<lparr>eo_events := (eo_events s)(a := None), eo_live := live2 - {a}\<rparr>))"

subsection \<open>The token\<close>

definition event_take :: "int \<Rightarrow> int" where
  "event_take signaled = 0"

text \<open>What \<open>mjs_event_signal\<close> does to the token, and whether it signals the waiters.\<close>

definition event_release :: "int \<Rightarrow> int \<times> bool" where
  "event_release signaled = (if signaled = 0 then (1, True) else (signaled, False))"

text \<open>
  The predicate loops, against the schedule of their waits: each element is the result of one
  \<open>mjs_condvar_wait\<close> or \<open>mjs_condvar_wait_until\<close> and the token visible when it returns.
  \<^term>\<open>None\<close>: the schedule is exhausted and the call is still blocked. Otherwise the result code
  with which the loop is left and the token.
\<close>

fun event_wait_loop :: "(int \<times> int) list \<Rightarrow> int \<Rightarrow> (int \<times> int) option" where
  "event_wait_loop [] sig = (if sig = 0 then None else Some (0, sig))"
| "event_wait_loop ((rc, sig') # ws) sig =
     (if sig \<noteq> 0 then Some (0, sig)
      else if rc \<noteq> 0 then Some (rc, sig')
      else event_wait_loop ws sig')"

definition mjs_event_wait ::
    "int \<Rightarrow> (int \<times> int) list \<Rightarrow> int \<Rightarrow> addr \<Rightarrow> int \<Rightarrow> (int \<times> int) option" where
  "mjs_event_wait lock_rc ws unlock_rc e sig =
     (if e = 0 then Some (- EINVAL, sig)
      else if lock_rc \<noteq> 0 then Some (lock_rc, sig)
      else case event_wait_loop ws sig of
             None \<Rightarrow> None
           | Some (rc, sig') \<Rightarrow> if rc \<noteq> 0 then Some (rc, sig') else Some (unlock_rc, event_take sig'))"

fun event_wait_until_loop :: "(int \<times> int) list \<Rightarrow> int \<Rightarrow> (int \<times> int) option" where
  "event_wait_until_loop [] sig = (if sig = 0 then None else Some (0, sig))"
| "event_wait_until_loop ((rc, sig') # ws) sig =
     (if sig \<noteq> 0 then Some (0, sig)
      else if rc \<noteq> 0 \<and> sig' = 0 then Some (rc, sig')
      else event_wait_until_loop ws sig')"

definition mjs_event_wait_until ::
    "int \<Rightarrow> (int \<times> int) list \<Rightarrow> int \<Rightarrow> addr \<Rightarrow> int \<Rightarrow> (int \<times> int) option" where
  "mjs_event_wait_until lock_rc ws unlock_rc e sig =
     (if e = 0 then Some (- EINVAL, sig)
      else if lock_rc \<noteq> 0 then Some (lock_rc, sig)
      else case event_wait_until_loop ws sig of
             None \<Rightarrow> None
           | Some (rc, sig') \<Rightarrow> if rc \<noteq> 0 then Some (rc, sig') else Some (unlock_rc, event_take sig'))"

definition mjs_event_signal :: "int \<Rightarrow> int \<Rightarrow> int \<Rightarrow> addr \<Rightarrow> int \<Rightarrow> int \<times> int" where
  "mjs_event_signal lock_rc signal_rc unlock_rc e sig =
     (if e = 0 then (- EINVAL, sig)
      else if lock_rc \<noteq> 0 then (lock_rc, sig)
      else let (sig', wake) = event_release sig;
               rc = (if wake then signal_rc else 0)
           in (if rc \<noteq> 0 then rc else unlock_rc, sig'))"

section \<open>Lemmas\<close>

interpretation ev: permit_monitor event_take event_release "\<lambda>n. n = 0 \<or> n = 1" "\<lambda>_. True"
  by unfold_locales (auto simp: event_take_def event_release_def split: if_splits)

lemma event_reachable_inv:
  "(mstep event_take event_release N)\<^sup>*\<^sup>* (mon_init 0) c \<Longrightarrow> mon_inv (\<lambda>n. n = 0 \<or> n = 1) N 0 c"
  by (erule ev.reachable_inv) (rule disjI1 refl TrueI)+

lemma event_wait_until_loop_SomeD:
  assumes "event_wait_until_loop ws sig = Some (rc, sig')"
  shows "(rc = 0 \<longrightarrow> sig' \<noteq> 0) \<and> (rc \<noteq> 0 \<longrightarrow> sig = 0 \<and> sig' = 0 \<and> (rc, 0) \<in> set ws)"
  using assms
proof (induction ws sig rule: event_wait_until_loop.induct)
  case (1 sig)
  then show ?case by (simp split: if_splits)
next
  case (2 r s ws sig)
  consider (token) "sig \<noteq> 0" | (leave) "sig = 0" "r \<noteq> 0" "s = 0"
    | (again) "sig = 0" "\<not> (r \<noteq> 0 \<and> s = 0)"
    by blast
  then show ?case
  proof cases
    case token
    with "2.prems" show ?thesis by auto
  next
    case leave
    with "2.prems" show ?thesis by auto
  next
    case again
    then have "event_wait_until_loop ws s = Some (rc, sig')"
      using "2.prems" by auto
    with "2.IH" again
    have "(rc = 0 \<longrightarrow> sig' \<noteq> 0) \<and> (rc \<noteq> 0 \<longrightarrow> s = 0 \<and> sig' = 0 \<and> (rc, 0) \<in> set ws)"
      by blast
    with again(1) show ?thesis by (metis list.set_intros(2))
  qed
qed

text \<open>The loop ends as soon as its schedule shows a token, whatever the waits returned before.\<close>

lemma event_wait_until_loop_token:
  assumes "sig \<noteq> 0 \<or> (\<exists>ws1 ws2 rc. ws = ws1 @ (rc, 1) # ws2 \<and> (\<forall>(r, s) \<in> set ws1. r = 0))"
  shows "\<exists>sig'. event_wait_until_loop ws sig = Some (0, sig') \<and> sig' \<noteq> 0"
  using assms
proof (induction ws sig rule: event_wait_until_loop.induct)
  case (1 sig)
  then show ?case by auto
next
  case (2 rc sig' ws sig)
  show ?case
  proof (cases "sig \<noteq> 0")
    case True
    then show ?thesis by simp
  next
    case False
    with "2.prems" obtain ws1 ws2 rc1 where
      split: "(rc, sig') # ws = ws1 @ (rc1, 1) # ws2" and ok: "\<forall>(r, s) \<in> set ws1. r = 0"
      by auto
    show ?thesis
    proof (cases ws1)
      case Nil
      with split False have "sig' = 1" by simp
      with False "2.IH" show ?thesis by simp
    next
      case (Cons w ws1')
      with split ok have "rc = 0" "ws = ws1' @ (rc1, 1) # ws2" "\<forall>(r, s) \<in> set ws1'. r = 0"
        by auto
      with False "2.IH" show ?thesis by auto
    qed
  qed
qed

section \<open>Properties\<close>

text \<open>
  (C20) The event under every interleaving of any number of waiting, timed-waiting and
  signalling threads: at most one thread is inside the critical section; there is never more
  than one token; every token taken was stored by exactly one signal (stored = taken + pending);
  and no wake-up is lost: while the token is pending and some waiter sleeps, another waiter is
  awake and will look at the token before it sleeps again.
\<close>
theorem event_monitor_correct:
  assumes "(mstep event_take event_release N)\<^sup>*\<^sup>* (mon_init 0) c"
  shows "(\<forall>t < N. \<forall>t' < N. critical (mo_pc c t) \<longrightarrow> critical (mo_pc c t') \<longrightarrow> t = t') \<and>
    (mo_count c = 0 \<or> mo_count c = 1) \<and> int (mo_stored c) = int (mo_taken c) + mo_count c \<and>
    (\<forall>t < N. is_parked (mo_pc c t) \<longrightarrow> mo_count c \<noteq> 0 \<longrightarrow> (\<exists>t' < N. awake (mo_pc c t')))"
proof -
  note inv = event_reachable_inv [OF assms]
  have "(mo_count c = 0 \<or> mo_count c = 1) \<and> mo_count c = 0 + int (mo_stored c) - int (mo_taken c)"
    using inv unfolding mon_inv_def by blast
  with ev.mutual_exclusion [OF inv] ev.no_lost_wakeup [OF inv] show ?thesis
    by auto
qed

theorem event_monitor_correct_witness:
  "\<exists>c. (mstep event_take event_release 2)\<^sup>*\<^sup>* (mon_init 0) c \<and> mo_count c = 1 \<and>
     int (mo_stored c) = int (mo_taken c) + mo_count c \<and> mo_pc c 0 = Relock Wait 0"
proof -
  obtain c where c: "(mstep event_take event_release 2)\<^sup>*\<^sup>* (mon_init 0) c"
    "mo_count c = 1" "mo_pc c 0 = Relock Wait 0"
    using park_and_wake_run [of event_release event_take] by (auto simp: event_release_def)
  with event_monitor_correct [OF c(1)] show ?thesis by blast
qed

text \<open>
  Expiry parity of \<open>mjs_event_wait_until\<close>. The call reports an expired deadline (or any
  other wait error) only when no token was visible at the re-check under the mutex; when the
  token is visible at a re-check, even one after an expired wait, it is consumed and the
  result is that of the unlock.
\<close>
theorem event_expiry_parity:
  assumes "e \<noteq> 0"
  shows "(\<forall>rc sig'. mjs_event_wait_until 0 ws 0 e sig = Some (rc, sig') \<longrightarrow>
       sig' = 0 \<and> (rc \<noteq> 0 \<longrightarrow> sig = 0 \<and> (rc, 0) \<in> set ws)) \<and>
    (\<forall>ws1 ws2 rc. ws = ws1 @ (rc, 1) # ws2 \<longrightarrow> (\<forall>(r, s) \<in> set ws1. r = 0) \<longrightarrow>
       mjs_event_wait_until 0 ws 0 e sig = Some (0, 0))"
proof (intro conjI allI impI)
  fix rc sig' assume res: "mjs_event_wait_until 0 ws 0 e sig = Some (rc, sig')"
  then obtain rc1 s1 where loop: "event_wait_until_loop ws sig = Some (rc1, s1)"
    and rc: "(rc, sig') = (if rc1 \<noteq> 0 then (rc1, s1) else (0, 0))"
    using assms by (auto simp: mjs_event_wait_until_def event_take_def split: option.splits if_splits)
  with event_wait_until_loop_SomeD [OF loop] show "sig' = 0" "rc \<noteq> 0 \<Longrightarrow> sig = 0"
    "rc \<noteq> 0 \<Longrightarrow> (rc, 0) \<in> set ws"
    by (auto split: if_splits)
next
  fix ws1 ws2 rc assume "ws = ws1 @ (rc, 1) # ws2" and "\<forall>(r, s) \<in> set ws1. r = 0"
  then obtain sig' where "event_wait_until_loop ws sig = Some (0, sig')"
    using event_wait_until_loop_token [of sig ws] by blast
  with assms show "mjs_event_wait_until 0 ws 0 e sig = Some (0, 0)"
    by (simp add: mjs_event_wait_until_def event_take_def)
qed

theorem event_expiry_parity_witness:
  "mjs_event_wait_until 0 [(0, 0), (- ETIMEDOUT, 1)] 0 8 0 = Some (0, 0) \<and>
   mjs_event_wait_until 0 [(0, 0), (- ETIMEDOUT, 0)] 0 8 0 = Some (- ETIMEDOUT, 0)"
proof -
  have e: "(8 :: addr) \<noteq> 0" by simp
  have "\<forall>(r, s) \<in> set [(0 :: int, 0 :: int)]. r = 0" by simp
  then have "mjs_event_wait_until 0 ([(0, 0)] @ (- ETIMEDOUT, 1) # []) 0 8 0 = Some (0, 0)"
    using event_expiry_parity [OF e, of "[(0, 0)] @ (- ETIMEDOUT, 1) # []" 0] by blast
  then show ?thesis
    by (simp add: mjs_event_wait_until_def)
qed

text \<open>
  \<open>mjs_event_init\<close> leaks nothing and \<open>mjs_event_destroy\<close> is not retryable after a partial
  failure. A failed creation leaves the out slot, every live allocation and every attribute
  object as before, provided the fresh mutex it undoes can be destroyed; a successful one adds
  exactly the event, its mutex and its condition variable, with no token. If the mutex
  destruction fails once the condition variable is gone, the event is not consumed, and every
  later destroy returns \<open>-EINVAL\<close> and frees nothing.
\<close>
theorem event_init_destroy:
  assumes "ei_malloc I = Some e" and "ei_m_malloc I = Some m" and "cv_malloc (ei_cv I) = Some cv"
    and "distinct [e, m, cv]" and "{e, m, cv} \<inter> insert 0 (eo_live s) = {}"
    and "ei_m_destroy I = 0"
    and "mjs_event_init I (Some x) s = (rc, out, s')"
  shows "(rc \<noteq> 0 \<longrightarrow> out = Some x \<and> eo_live s' = eo_live s \<and> eo_attrs s' = eo_attrs s \<and>
        eo_events s' = eo_events s) \<and>
    (rc = 0 \<longrightarrow> out = Some e \<and> eo_live s' = eo_live s \<union> {e, m, cv} \<and> eo_attrs s' = eo_attrs s \<and>
        eo_events s' e = Some \<lparr>ev_m = m, ev_cv = cv, ev_signaled = 0\<rparr> \<and>
        mjs_event_destroy 0 0 out s' = Some (0, Some 0, s'\<lparr>eo_events := (eo_events s')(e := None),
          eo_live := eo_live s\<rparr>) \<and>
        (\<forall>r s1. 0 < r \<longrightarrow> mjs_event_destroy 0 r out s' = Some (- r, out, s1) \<longrightarrow>
           (\<forall>r1 r2. mjs_event_destroy r1 r2 out s1 = Some (- EINVAL, out, s1))))"
proof -
  have ne: "e \<noteq> 0" "m \<noteq> 0" "cv \<noteq> 0" "e \<notin> eo_live s" "m \<notin> eo_live s" "cv \<notin> eo_live s"
    "e \<noteq> m" "e \<noteq> cv" "m \<noteq> cv"
    using assms(4,5) by auto
  have ls: "insert cv (insert m (insert e (eo_live s))) - {cv} - {m} - {e} = eo_live s"
    "insert m (insert e (eo_live s)) - {m} - {e} = eo_live s"
    using ne by auto
  show ?thesis
  proof (cases "ei_m_init I = 0 \<and> cv_attr_init (ei_cv I) = 0 \<and> cv_setclock (ei_cv I) = 0 \<and> cv_init (ei_cv I) = 0")
    case True
    with assms(1-3,7) ne have res: "rc = 0" "out = Some e"
      "s' = s\<lparr>eo_events := (eo_events s)(e \<mapsto> \<lparr>ev_m = m, ev_cv = cv, ev_signaled = 0\<rparr>),
          eo_live := insert cv (insert m (insert e (eo_live s))), eo_attrs := eo_attrs s\<rparr>"
      by (auto simp: mjs_event_init_def mjs_mutex_init_def mjs_condvar_init_def Let_def)
    with ne ls show ?thesis
      by (auto simp: mjs_event_destroy_def mjs_condvar_destroy_def mjs_mutex_destroy_def Let_def)
  next
    case False
    with assms(1-3,6,7) ne ls show ?thesis
      by (auto simp: mjs_event_init_def mjs_mutex_init_def mjs_condvar_init_def mjs_mutex_destroy_def
          Let_def split: if_splits)
  qed
qed

definition init_demo :: init_host where
  "init_demo = \<lparr>ei_malloc = Some 16, ei_m_malloc = Some 32, ei_m_init = 0,
     ei_cv = \<lparr>cv_malloc = Some 48, cv_attr_init = 0, cv_setclock = 0, cv_init = EAGAIN\<rparr>,
     ei_m_destroy = 0\<rparr>"

theorem event_init_destroy_witness:
  "\<exists>s'. mjs_event_init init_demo (Some 7) \<lparr>eo_events = Map.empty, eo_live = {99}, eo_attrs = 0\<rparr>
      = (- EAGAIN, Some 7, s') \<and> eo_live s' = {99}"
proof -
  let ?s = "\<lparr>eo_events = Map.empty, eo_live = {99}, eo_attrs = 0\<rparr>"
  obtain s' where res: "mjs_event_init init_demo (Some 7) ?s = (- EAGAIN, Some 7, s')"
    by (simp add: mjs_event_init_def init_demo_def mjs_mutex_init_def mjs_condvar_init_def
        mjs_mutex_destroy_def Let_def)
  have "ei_malloc init_demo = Some 16" "ei_m_malloc init_demo = Some 32"
    "cv_malloc (ei_cv init_demo) = Some 48" "distinct [16, 32, 48 :: addr]"
    "{16, 32, 48} \<inter> insert 0 (eo_live ?s) = {}" "ei_m_destroy init_demo = 0"
    by (simp_all add: init_demo_def)
  from event_init_destroy [OF this res] res show ?thesis by simp
qed

end
