(* ===== verification/Mjs_Sem.thy ===== *)
theory Mjs_Sem
  imports Mjs_Event Mjs_Page
begin

text \<open>
  The counting semaphore (native/posix/mjs\_sem.c): a permit count, one mutex, one condition
  variable, modelled like the event. The count is a C \<open>int\<close>; its increment is 32-bit arithmetic.
\<close>

section \<open>Definitions\<close>

record mjs_sem =
  sm_m :: addr
  sm_cv :: addr
  sm_count :: int

record sem_objs =
  so_sems :: "addr \<Rightarrow> mjs_sem option"
  so_live :: "addr set"
  so_attrs :: nat

definition mjs_sem_init ::
    "init_host \<Rightarrow> int \<Rightarrow> addr slot \<Rightarrow> sem_objs \<Rightarrow> int \<times> addr slot \<times> sem_objs" where
  "mjs_sem_init I initial out s =
     (if out = None then (- EFAULT, out, s)
      else if initial < 0 then (- EINVAL, out, s)
      else case ei_malloc I of
        None \<Rightarrow> (- ENOMEM, out, s)
      | Some e \<Rightarrow>
          let live1 = insert e (so_live s);
              (rc, m, live2) = mjs_mutex_init (ei_m_malloc I) (ei_m_init I) (Some 0) live1
          in if rc \<noteq> 0 then (rc, out, s\<lparr>so_live := live2 - {e}\<rparr>)
             else
               let (rc, cv, live3, attrs) = mjs_condvar_init (ei_cv I) (Some 0) (live2, so_attrs s)
               in if rc \<noteq> 0
                  then let (_, _, live4) = mjs_mutex_destroy (ei_m_destroy I) m live3
                       in (rc, out, s\<lparr>so_live := live4 - {e}, so_attrs := attrs\<rparr>)
                  else (0, Some e,
                        s\<lparr>so_sems := (so_sems s)(e \<mapsto>
                            \<lparr>sm_m = the m, sm_cv = the cv, sm_count = initial\<rparr>),
                          so_live := live3, so_attrs := attrs\<rparr>))"

definition mjs_sem_destroy ::
    "int \<Rightarrow> int \<Rightarrow> addr slot \<Rightarrow> sem_objs \<Rightarrow> (int \<times> addr slot \<times> sem_objs) option" where
  "mjs_sem_destroy cv_rc m_rc sl s =
     (case sl of
        None \<Rightarrow> Some (- EINVAL, sl, s)
      | Some a \<Rightarrow>
          if a = 0 then Some (- EINVAL, sl, s)
          else case so_sems s a of
            None \<Rightarrow> None
          | Some sem \<Rightarrow>
              let (rc, cv, live1) = mjs_condvar_destroy cv_rc (Some (sm_cv sem)) (so_live s);
                  sem1 = sem\<lparr>sm_cv := the cv\<rparr>
              in if rc \<noteq> 0 then Some (rc, sl, s)
                 else
                   let (rc, m, live2) = mjs_mutex_destroy m_rc (Some (sm_m sem1)) live1
                   in if rc \<noteq> 0
                      then Some (rc, sl, s\<lparr>so_sems := (so_sems s)(a \<mapsto> sem1), so_live := live1\<rparr>)
                      else Some (0, Some 0,
                             s\<lparr>so_sems := (so_sems s)(a := None), so_live := live2 - {a}\<rparr>))"

subsection \<open>The count\<close>

text \<open>\<open>count--\<close> and \<open>count++\<close> on a C \<open>int\<close>, as two's-complement arithmetic.\<close>

definition sem_take :: "int \<Rightarrow> int" where
  "sem_take count = c_int_of (count - 1)"

text \<open>Every post signals.\<close>

definition sem_release :: "int \<Rightarrow> int \<times> bool" where
  "sem_release count = (c_int_of (count + 1), True)"

definition mjs_sem_post :: "int \<Rightarrow> int \<Rightarrow> int \<Rightarrow> addr \<Rightarrow> int \<Rightarrow> int \<times> int" where
  "mjs_sem_post lock_rc signal_rc unlock_rc s count =
     (if s = 0 then (- EINVAL, count)
      else if lock_rc \<noteq> 0 then (lock_rc, count)
      else (if signal_rc \<noteq> 0 then signal_rc else unlock_rc, fst (sem_release count)))"

text \<open>The predicate loops against a schedule of waits, as for the event.\<close>

fun sem_wait_loop :: "(int \<times> int) list \<Rightarrow> int \<Rightarrow> (int \<times> int) option" where
  "sem_wait_loop [] count = (if count = 0 then None else Some (0, count))"
| "sem_wait_loop ((rc, count') # ws) count =
     (if count \<noteq> 0 then Some (0, count)
      else if rc \<noteq> 0 then Some (rc, count')
      else sem_wait_loop ws count')"

definition mjs_sem_wait ::
    "int \<Rightarrow> (int \<times> int) list \<Rightarrow> int \<Rightarrow> addr \<Rightarrow> int \<Rightarrow> (int \<times> int) option" where
  "mjs_sem_wait lock_rc ws unlock_rc s count =
     (if s = 0 then Some (- EINVAL, count)
      else if lock_rc \<noteq> 0 then Some (lock_rc, count)
      else case sem_wait_loop ws count of
             None \<Rightarrow> None
           | Some (rc, n) \<Rightarrow> if rc \<noteq> 0 then Some (rc, n) else Some (unlock_rc, sem_take n))"

fun sem_wait_until_loop :: "(int \<times> int) list \<Rightarrow> int \<Rightarrow> (int \<times> int) option" where
  "sem_wait_until_loop [] count = (if count = 0 then None else Some (0, count))"
| "sem_wait_until_loop ((rc, count') # ws) count =
     (if count \<noteq> 0 then Some (0, count)
      else if rc \<noteq> 0 \<and> count' = 0 then Some (rc, count')
      else sem_wait_until_loop ws count')"

definition mjs_sem_wait_until ::
    "int \<Rightarrow> (int \<times> int) list \<Rightarrow> int \<Rightarrow> addr \<Rightarrow> int \<Rightarrow> (int \<times> int) option" where
  "mjs_sem_wait_until lock_rc ws unlock_rc s count =
     (if s = 0 then Some (- EINVAL, count)
      else if lock_rc \<noteq> 0 then Some (lock_rc, count)
      else case sem_wait_until_loop ws count of
             None \<Rightarrow> None
           | Some (rc, n) \<Rightarrow> if rc \<noteq> 0 then Some (rc, n) else Some (unlock_rc, sem_take n))"

definition mjs_sem_try_wait :: "int \<Rightarrow> int \<Rightarrow> addr \<Rightarrow> int \<Rightarrow> int \<times> int" where
  "mjs_sem_try_wait lock_rc unlock_rc s count =
     (if s = 0 then (- EINVAL, count)
      else if lock_rc \<noteq> 0 then (lock_rc, count)
      else if count = 0 then (- EBUSY, count)
      else (unlock_rc, sem_take count))"

section \<open>Lemmas\<close>

lemma sem_release_eq:
  "0 \<le> n \<Longrightarrow> n < 2147483647 \<Longrightarrow> sem_release n = (n + 1, True)"
  by (simp add: sem_release_def c_int_of_id)

interpretation sem: permit_monitor sem_take sem_release "\<lambda>n. 0 \<le> n \<and> n < 2147483648" "\<lambda>n. n < 2147483647"
proof unfold_locales
  fix n :: int
  assume "0 \<le> n \<and> n < 2147483648" "n \<noteq> 0"
  then show "sem_take n = n - 1 \<and> (0 \<le> n - 1 \<and> n - 1 < 2147483648)"
    by (simp add: sem_take_def c_int_of_id)
qed (auto simp: sem_release_eq)











section \<open>Properties\<close>



text \<open>
  The count has no overflow guard. A post on a semaphore that holds the largest \<open>int\<close> of
  permits succeeds and leaves the smallest one, so the count the code documents as never
  negative is negative, and a following try-wait still reports an acquired permit.
\<close>
theorem sem_post_overflows:
  assumes "s \<noteq> 0"
  shows "mjs_sem_post 0 0 0 s 2147483647 = (0, - 2147483648) \<and>
    mjs_sem_try_wait 0 0 s (- 2147483648) = (0, 2147483647)"
  using assms by (simp add: mjs_sem_post_def mjs_sem_try_wait_def sem_take_def sem_release_def
      c_int_of_def)

theorem sem_post_overflows_witness:
  "mjs_sem_post 0 0 0 16 2147483647 = (0, - 2147483648)"
  using sem_post_overflows [of 16] by simp

end
