(* ===== verification/Mjs_WaitList.thy ===== *)
theory Mjs_WaitList
  imports Mjs_Sync
begin

text \<open>
  The waiter list of one slot of the atomic-wait fallback (native/posix/mjs\_atomic\_wait.c,
  \<open>aw_waiter\<close>, \<open>aw_slot\<close>, \<open>mjs_aw_link\<close>, \<open>mjs_aw_unlink\<close> and the loop of
  \<open>mjs_atomic_wake_fallback\<close>), at the level of its pointers. The records live in the stack
  frames of waiting threads: \<open>sl_heap\<close> maps the address of a live frame to its record, and
  reading or writing a record whose frame is gone yields \<^term>\<open>None\<close>. The list is singly linked
  with a pointer to its last link field, so a pointer to a pointer is the slot's head
  field, the \<open>next\<close> field of a record, or NULL (in a slot not yet initialised). The lemmas show that the three routines are the list
  operations append, remove, and remove-and-mark of the first or of all records of one address.
\<close>

section \<open>Definitions\<close>

record aw_waiter =
  aw_addr :: addr
  aw_woken :: bool
  aw_linked :: bool
  aw_next :: addr

datatype aw_ref = HeadField | NextField addr | NullRef

record aw_slot =
  sl_mx :: addr
  sl_cv :: addr
  sl_head :: addr
  sl_tail :: aw_ref
  sl_heap :: "addr \<Rightarrow> aw_waiter option"

text \<open>Reading and writing through a pointer to a pointer (\<open>*pp\<close> and \<open>*pp = v\<close>).\<close>

fun aw_deref :: "aw_ref \<Rightarrow> aw_slot \<Rightarrow> addr option" where
  "aw_deref NullRef s = None"
| "aw_deref HeadField s = Some (sl_head s)"
| "aw_deref (NextField w) s = map_option aw_next (sl_heap s w)"

fun aw_assign :: "aw_ref \<Rightarrow> addr \<Rightarrow> aw_slot \<Rightarrow> aw_slot option" where
  "aw_assign NullRef v s = None"
| "aw_assign HeadField v s = Some (s\<lparr>sl_head := v\<rparr>)"
| "aw_assign (NextField w) v s =
     (case sl_heap s w of
        None \<Rightarrow> None
      | Some r \<Rightarrow> Some (s\<lparr>sl_heap := (sl_heap s)(w \<mapsto> r\<lparr>aw_next := v\<rparr>)\<rparr>))"

definition mjs_aw_link :: "addr \<Rightarrow> aw_slot \<Rightarrow> aw_slot option" where
  "mjs_aw_link w s =
     (case sl_heap s w of
        None \<Rightarrow> None
      | Some r \<Rightarrow>
          let s1 = s\<lparr>sl_heap := (sl_heap s)(w \<mapsto> r\<lparr>aw_next := 0, aw_linked := True\<rparr>)\<rparr>
          in case aw_assign (sl_tail s1) w s1 of
               None \<Rightarrow> None
             | Some s2 \<Rightarrow> Some (s2\<lparr>sl_tail := NextField w\<rparr>))"

text \<open>
  Taking the record \<open>w\<close> that \<open>pp\<close> points at out of the list: \<open>*pp = w->next\<close> and the repair of
  the tail pointer, which both loops do.
\<close>

definition aw_cut :: "aw_ref \<Rightarrow> addr \<Rightarrow> aw_slot \<Rightarrow> aw_slot option" where
  "aw_cut pp w s =
     (case sl_heap s w of
        None \<Rightarrow> None
      | Some r \<Rightarrow>
          (case aw_assign pp (aw_next r) s of
             None \<Rightarrow> None
           | Some s1 \<Rightarrow> Some (if sl_tail s1 = NextField w then s1\<lparr>sl_tail := pp\<rparr> else s1)))"

partial_function (option) unlink_loop :: "addr \<Rightarrow> aw_ref \<Rightarrow> aw_slot \<Rightarrow> aw_slot option" where
  "unlink_loop me pp s =
     (case aw_deref pp s of
        None \<Rightarrow> None
      | Some cur \<Rightarrow>
          if cur = 0 then Some s
          else if cur = me then
            (case aw_cut pp me s of
               None \<Rightarrow> None
             | Some s1 \<Rightarrow>
                 (case sl_heap s1 me of
                    None \<Rightarrow> None
                  | Some r \<Rightarrow> Some (s1\<lparr>sl_heap := (sl_heap s1)(me \<mapsto> r\<lparr>aw_linked := False\<rparr>)\<rparr>)))
          else unlink_loop me (NextField cur) s)"

definition mjs_aw_unlink :: "addr \<Rightarrow> aw_slot \<Rightarrow> aw_slot option" where
  "mjs_aw_unlink me s = unlink_loop me HeadField s"

partial_function (option) wake_loop ::
    "addr \<Rightarrow> bool \<Rightarrow> aw_ref \<Rightarrow> int \<Rightarrow> aw_slot \<Rightarrow> (int \<times> aw_slot) option" where
  "wake_loop a every pp n s =
     (case aw_deref pp s of
        None \<Rightarrow> None
      | Some w \<Rightarrow>
          if w = 0 then Some (n, s)
          else case sl_heap s w of
            None \<Rightarrow> None
          | Some r \<Rightarrow>
              if aw_addr r \<noteq> a then wake_loop a every (NextField w) n s
              else case aw_cut pp w s of
                None \<Rightarrow> None
              | Some s1 \<Rightarrow>
                  (case sl_heap s1 w of
                     None \<Rightarrow> None
                   | Some r1 \<Rightarrow>
                       let s2 = s1\<lparr>sl_heap := (sl_heap s1)
                             (w \<mapsto> r1\<lparr>aw_linked := False, aw_next := 0, aw_woken := True\<rparr>)\<rparr>
                       in if \<not> every then Some (n + 1, s2) else wake_loop a every pp (n + 1) s2))"

text \<open>
  What the pointers stand for: \<open>aw_chain s pp ws\<close> says that following the links from \<open>pp\<close> visits
  the records \<open>ws\<close> and ends in NULL; \<open>aw_last pp ws\<close> is the link field behind the last of
  them; a slot represents \<open>ws\<close> when the head leads to it and the tail points behind it.
\<close>

fun aw_chain :: "aw_slot \<Rightarrow> aw_ref \<Rightarrow> addr list \<Rightarrow> bool" where
  "aw_chain s pp [] = (aw_deref pp s = Some 0)"
| "aw_chain s pp (w # ws) =
     (aw_deref pp s = Some w \<and> w \<noteq> 0 \<and> sl_heap s w \<noteq> None \<and> aw_chain s (NextField w) ws)"

definition aw_last :: "aw_ref \<Rightarrow> addr list \<Rightarrow> aw_ref" where
  "aw_last pp ws = (if ws = [] then pp else NextField (last ws))"

definition aw_rep :: "aw_slot \<Rightarrow> addr list \<Rightarrow> bool" where
  "aw_rep s ws \<longleftrightarrow> distinct ws \<and> aw_chain s HeadField ws \<and> sl_tail s = aw_last HeadField ws"

text \<open>The records a wake of address \<open>a\<close> picks from \<open>ws\<close>, in list order.\<close>

definition aw_picked :: "aw_slot \<Rightarrow> addr \<Rightarrow> bool \<Rightarrow> addr list \<Rightarrow> addr list" where
  "aw_picked s a every ws =
     (let m = filter (\<lambda>w. map_option aw_addr (sl_heap s w) = Some a) ws
      in if every then m else take 1 m)"

section \<open>Lemmas\<close>

lemma aw_last_simps [simp]:
  "aw_last pp [] = pp"
  "aw_last pp (w # ws) = aw_last (NextField w) ws"
  by (simp_all add: aw_last_def)

lemma aw_last_cases: "aw_last pp ws = pp \<or> aw_last pp ws \<in> NextField ` set ws"
  by (simp add: aw_last_def)

lemma aw_deref_tail [simp]: "aw_deref q (s\<lparr>sl_tail := x\<rparr>) = aw_deref q s"
  by (cases q) simp_all

text \<open>A chain depends only on the link fields it visits.\<close>

lemma aw_chain_cong:
  assumes "aw_chain s pp ws" and "aw_deref pp s' = aw_deref pp s"
    and "\<forall>w \<in> set ws. map_option aw_next (sl_heap s' w) = map_option aw_next (sl_heap s w)"
  shows "aw_chain s' pp ws"
  using assms
proof (induction ws arbitrary: pp)
  case (Cons w ws)
  then have "sl_heap s' w \<noteq> None"
    by (metis aw_chain.simps(2) list.set_intros(1) map_option_is_None)
  moreover have "aw_chain s' (NextField w) ws"
    using Cons by simp
  ultimately show ?case
    using Cons.prems by simp
qed simp

lemma aw_chain_live: "aw_chain s pp ws \<Longrightarrow> w \<in> set ws \<Longrightarrow> w \<noteq> 0 \<and> sl_heap s w \<noteq> None"
  by (induction ws arbitrary: pp) auto

lemma aw_assign_eff:
  assumes "aw_assign pp v s = Some s'"
  shows "aw_deref pp s' = Some v" and "q \<noteq> pp \<Longrightarrow> aw_deref q s' = aw_deref q s"
    and "NextField w \<noteq> pp \<Longrightarrow> sl_heap s' w = sl_heap s w" and "sl_tail s' = sl_tail s"
    and "map_option (\<lambda>r. r\<lparr>aw_next := 0\<rparr>) (sl_heap s' w) = map_option (\<lambda>r. r\<lparr>aw_next := 0\<rparr>) (sl_heap s w)"
    and "sl_mx s' = sl_mx s" and "sl_cv s' = sl_cv s"
  using assms by (cases pp; cases q; auto split: option.splits)+

text \<open>The cut removes the record at \<open>pp\<close> and keeps the tail behind the last record.\<close>

lemma aw_cut_chain:
  assumes "aw_chain s pp (w # ws)" and "distinct (w # ws)" and "pp \<notin> NextField ` set (w # ws)"
    and "sl_tail s = aw_last pp (w # ws)"
  obtains s1 where "aw_cut pp w s = Some s1" and "aw_chain s1 pp ws" and "sl_tail s1 = aw_last pp ws"
    and "\<And>q. q \<noteq> pp \<Longrightarrow> aw_deref q s1 = aw_deref q s"
    and "sl_heap s1 w = sl_heap s w"
    and "\<And>v. map_option (\<lambda>r. r\<lparr>aw_next := 0\<rparr>) (sl_heap s1 v) = map_option (\<lambda>r. r\<lparr>aw_next := 0\<rparr>) (sl_heap s v)"
    and "\<And>v. NextField v \<noteq> pp \<Longrightarrow> sl_heap s1 v = sl_heap s v"
    and "sl_mx s1 = sl_mx s" and "sl_cv s1 = sl_cv s"
proof -
  obtain r where r: "sl_heap s w = Some r"
    using assms(1) by auto
  define s0 where "s0 = the (aw_assign pp (aw_next r) s)"
  have s0: "aw_assign pp (aw_next r) s = Some s0"
    using assms(1) unfolding s0_def by (cases pp) (auto split: option.splits)
  have d: "aw_deref pp s0 = Some (aw_next r)" "\<And>q. q \<noteq> pp \<Longrightarrow> aw_deref q s0 = aw_deref q s"
    "\<And>v. NextField v \<noteq> pp \<Longrightarrow> sl_heap s0 v = sl_heap s v" "sl_tail s0 = sl_tail s"
    "\<And>v. map_option (\<lambda>r. r\<lparr>aw_next := 0\<rparr>) (sl_heap s0 v) = map_option (\<lambda>r. r\<lparr>aw_next := 0\<rparr>) (sl_heap s v)"
    "sl_mx s0 = sl_mx s" "sl_cv s0 = sl_cv s"
    using s0 aw_assign_eff [OF s0] by simp_all
  have fr: "sl_heap s0 v = sl_heap s v" if "v \<in> set (w # ws)" for v
    using d(3) [of v] assms(3) that by blast
  define s1 where "s1 = (if sl_tail s0 = NextField w then s0\<lparr>sl_tail := pp\<rparr> else s0)"
  have s1: "aw_cut pp w s = Some s1" "sl_heap s1 = sl_heap s0" "\<And>q. aw_deref q s1 = aw_deref q s0"
    "sl_mx s1 = sl_mx s0" "sl_cv s1 = sl_cv s0"
    unfolding s1_def by (auto simp: aw_cut_def r s0)
  have "aw_chain s1 pp ws"
  proof (rule aw_chain_cong [where s = "s0"])
    show "aw_chain s0 pp ws"
    proof (cases ws)
      case Nil
      then show ?thesis using assms(1) d(1) r by simp
    next
      case (Cons v vs)
      have "aw_chain s (NextField v) vs" "aw_next r = v" "v \<noteq> 0" "sl_heap s v \<noteq> None"
        using assms(1) Cons r by auto
      moreover have "aw_chain s0 (NextField v) vs"
        by (rule aw_chain_cong [OF calculation(1)]) (use d(2) [of "NextField v"] assms(3) Cons fr in auto)
      ultimately show ?thesis
        using d(1) fr [of v] Cons by auto
    qed
  qed (simp_all add: s1)
  moreover have "sl_tail s1 = aw_last pp ws"
    using assms(2,4) unfolding s1_def d(4) by (cases ws) (auto simp: aw_last_def d(4))
  ultimately show thesis
    using that [of s1] s1 d fr [of w] by simp
qed

text \<open>What every list operation leaves alone: the addresses, and which frames are alive.\<close>

definition aw_same :: "aw_slot \<Rightarrow> aw_slot \<Rightarrow> bool" where
  "aw_same s s' \<longleftrightarrow> sl_mx s' = sl_mx s \<and> sl_cv s' = sl_cv s \<and>
     (\<forall>v. map_option aw_addr (sl_heap s' v) = map_option aw_addr (sl_heap s v))"

definition aw_is_woken :: "aw_slot \<Rightarrow> addr \<Rightarrow> bool" where
  "aw_is_woken s v \<longleftrightarrow> map_option aw_woken (sl_heap s v) = Some True"

lemma aw_same_refl [simp]: "aw_same s s"
  by (simp add: aw_same_def)

lemma aw_same_trans: "aw_same s s' \<Longrightarrow> aw_same s' s'' \<Longrightarrow> aw_same s s''"
  by (simp add: aw_same_def)

lemma aw_same_live: "aw_same s s' \<Longrightarrow> sl_heap s' v = None \<longleftrightarrow> sl_heap s v = None"
  unfolding aw_same_def by (metis map_option_is_None)

lemma aw_picked_same: "aw_same s s' \<Longrightarrow> aw_picked s' a every ws = aw_picked s a every ws"
  by (simp add: aw_picked_def aw_same_def)

lemma aw_picked_simps:
  "aw_picked s a every [] = []"
  "aw_picked s a every (w # ws) =
     (if map_option aw_addr (sl_heap s w) = Some a
      then (if every then w # aw_picked s a every ws else [w]) else aw_picked s a every ws)"
  by (auto simp: aw_picked_def Let_def)

lemma aw_picked_subset: "set (aw_picked s a every ws) \<subseteq> set ws"
  by (induction ws) (auto simp: aw_picked_simps)

lemma aw_cut_same:
  assumes "\<And>v. map_option (\<lambda>r. r\<lparr>aw_next := 0\<rparr>) (sl_heap s1 v) = map_option (\<lambda>r. r\<lparr>aw_next := 0\<rparr>) (sl_heap s v)"
    and "sl_mx s1 = sl_mx s" and "sl_cv s1 = sl_cv s"
  shows "aw_same s s1" and "aw_is_woken s1 v \<longleftrightarrow> aw_is_woken s v"
proof -
  have k: "map_option f (sl_heap s1 v) = map_option f (sl_heap s v)"
    if "\<And>r. f (r\<lparr>aw_next := 0\<rparr>) = f r" for f :: "aw_waiter \<Rightarrow> 'b" and v
    using arg_cong [OF assms(1) [of v], of "map_option f"] that by (simp add: option.map_comp o_def)
  show "aw_same s s1"
    unfolding aw_same_def using assms(2,3) k [of aw_addr] by simp
  show "aw_is_woken s1 v \<longleftrightarrow> aw_is_woken s v"
    unfolding aw_is_woken_def using k [of aw_woken] by simp
qed

text \<open>Overwriting the other fields of a record off the chain keeps the chain.\<close>

lemma aw_chain_touch:
  assumes "aw_chain s pp ws" and "w \<notin> set ws" and "pp \<noteq> NextField w"
  shows "aw_chain (s\<lparr>sl_heap := (sl_heap s)(w := x)\<rparr>) pp ws"
  by (rule aw_chain_cong [OF assms(1)]) (use assms in \<open>cases pp; auto\<close>)+

lemma unlink_loop_chain:
  assumes "aw_chain s pp ws" and "distinct ws" and "pp \<notin> NextField ` set ws"
    and "sl_tail s = aw_last pp ws"
  shows "\<exists>s'. unlink_loop me pp s = Some s' \<and> aw_chain s' pp (remove1 me ws) \<and>
    sl_tail s' = aw_last pp (remove1 me ws) \<and> aw_same s s' \<and>
    (\<forall>v. aw_is_woken s' v \<longleftrightarrow> aw_is_woken s v) \<and>
    (\<forall>q. q \<noteq> pp \<longrightarrow> q \<notin> NextField ` set ws \<longrightarrow> aw_deref q s' = aw_deref q s)"
  using assms
proof (induction ws arbitrary: pp)
  case Nil
  then show ?case by (simp add: unlink_loop.simps)
next
  case (Cons w ws)
  show ?case
  proof (cases "w = me")
    case True
    obtain s1 where s1: "aw_cut pp w s = Some s1" "aw_chain s1 pp ws" "sl_tail s1 = aw_last pp ws"
      "\<And>q. q \<noteq> pp \<Longrightarrow> aw_deref q s1 = aw_deref q s" "sl_heap s1 w = sl_heap s w"
      "\<And>v. map_option (\<lambda>r. r\<lparr>aw_next := 0\<rparr>) (sl_heap s1 v) = map_option (\<lambda>r. r\<lparr>aw_next := 0\<rparr>) (sl_heap s v)"
      "sl_mx s1 = sl_mx s" "sl_cv s1 = sl_cv s"
      using aw_cut_chain [OF Cons.prems] by metis
    obtain r where r: "sl_heap s1 me = Some r"
      using Cons.prems(1) s1(5) True by auto
    let ?s' = "s1\<lparr>sl_heap := (sl_heap s1)(me \<mapsto> r\<lparr>aw_linked := False\<rparr>)\<rparr>"
    have "unlink_loop me pp s = Some ?s'"
      using Cons.prems(1) s1(1) r True by (subst unlink_loop.simps) simp
    moreover have "aw_chain ?s' pp (remove1 me (w # ws))"
      using aw_chain_touch [OF s1(2), of me] Cons.prems(2,3) True by auto
    moreover have "aw_deref q ?s' = aw_deref q s1" for q
      using r by (cases q) auto
    moreover have "aw_same s1 ?s'" "aw_is_woken ?s' v \<longleftrightarrow> aw_is_woken s1 v" for v
      using r by (auto simp: aw_same_def aw_is_woken_def)
    ultimately show ?thesis
      using s1(3,4) aw_cut_same [OF s1(6,7,8)] True aw_same_trans by (intro exI [of _ ?s']) auto
  next
    case False
    obtain s' where s': "unlink_loop me (NextField w) s = Some s'"
      "aw_chain s' (NextField w) (remove1 me ws)" "sl_tail s' = aw_last (NextField w) (remove1 me ws)"
      "aw_same s s'" "\<And>v. aw_is_woken s' v \<longleftrightarrow> aw_is_woken s v"
      "\<And>q. q \<noteq> NextField w \<Longrightarrow> q \<notin> NextField ` set ws \<Longrightarrow> aw_deref q s' = aw_deref q s"
      using Cons.IH [of "NextField w"] Cons.prems by auto
    have "unlink_loop me pp s = Some s'"
      using Cons.prems(1) s'(1) False by (subst unlink_loop.simps) simp
    moreover have "aw_deref pp s' = Some w"
      using s'(6) [of pp] Cons.prems(1,3) by auto
    ultimately show ?thesis
      using s' False Cons.prems(1) aw_same_live [OF s'(4)] by (intro exI [of _ s']) auto
  qed
qed

text \<open>One match: the record is cut out of the list and marked.\<close>

lemma wake_loop_hit:
  assumes prems: "aw_chain s pp (w # ws)" "distinct (w # ws)" "pp \<notin> NextField ` set (w # ws)"
      "sl_tail s = aw_last pp (w # ws)" and r: "sl_heap s w = Some r" and hit: "aw_addr r = a"
  obtains s2 where "aw_same s s2" "\<And>v. aw_is_woken s2 v \<longleftrightarrow> v = w \<or> aw_is_woken s v"
    "aw_chain s2 pp ws" "sl_tail s2 = aw_last pp ws"
    "\<And>q. q \<noteq> pp \<Longrightarrow> q \<notin> NextField ` set (w # ws) \<Longrightarrow> aw_deref q s2 = aw_deref q s"
    "wake_loop a every pp n s = (if \<not> every then Some (n + 1, s2) else wake_loop a every pp (n + 1) s2)"
proof -
  obtain s1 where s1: "aw_cut pp w s = Some s1" "aw_chain s1 pp ws" "sl_tail s1 = aw_last pp ws"
    "\<And>q. q \<noteq> pp \<Longrightarrow> aw_deref q s1 = aw_deref q s" "sl_heap s1 w = sl_heap s w"
    "\<And>v. map_option (\<lambda>r. r\<lparr>aw_next := 0\<rparr>) (sl_heap s1 v) = map_option (\<lambda>r. r\<lparr>aw_next := 0\<rparr>) (sl_heap s v)"
    "sl_mx s1 = sl_mx s" "sl_cv s1 = sl_cv s"
    using aw_cut_chain [OF prems] by metis
  define s2 where "s2 = s1\<lparr>sl_heap := (sl_heap s1)
    (w \<mapsto> r\<lparr>aw_linked := False, aw_next := 0, aw_woken := True\<rparr>)\<rparr>"
  have same: "aw_same s s2" "aw_is_woken s2 v \<longleftrightarrow> v = w \<or> aw_is_woken s v" for v
    using aw_cut_same [OF s1(6,7,8)] s1(5) r
    by (auto simp: s2_def aw_same_def aw_is_woken_def)
  have chain: "aw_chain s2 pp ws" "sl_tail s2 = aw_last pp ws"
    using aw_chain_touch [OF s1(2), of w] prems(2,3) s1(3) by (auto simp: s2_def)
  have fr: "aw_deref q s2 = aw_deref q s" if "q \<noteq> pp" "q \<notin> NextField ` set (w # ws)" for q
    using that s1(4) [of q] by (cases q) (auto simp: s2_def)
  have unf: "wake_loop a every pp n s =
      (if \<not> every then Some (n + 1, s2) else wake_loop a every pp (n + 1) s2)"
    using prems(1) s1(1,5) r hit by (subst wake_loop.simps) (simp add: s2_def Let_def)
  show ?thesis by (rule that [OF same chain fr unf])
qed

text \<open>What the loop promises from \<open>pp\<close> on, and how the promise for a longer list follows.\<close>

definition wake_post :: "addr \<Rightarrow> bool \<Rightarrow> aw_ref \<Rightarrow> int \<Rightarrow> addr list \<Rightarrow> aw_slot \<Rightarrow> aw_slot \<Rightarrow> bool" where
  "wake_post a every pp n ws s s' \<longleftrightarrow>
     wake_loop a every pp n s = Some (n + int (length (aw_picked s a every ws)), s') \<and>
     aw_chain s' pp (filter (\<lambda>w. w \<notin> set (aw_picked s a every ws)) ws) \<and>
     sl_tail s' = aw_last pp (filter (\<lambda>w. w \<notin> set (aw_picked s a every ws)) ws) \<and> aw_same s s' \<and>
     (\<forall>v. aw_is_woken s' v \<longleftrightarrow> v \<in> set (aw_picked s a every ws) \<or> aw_is_woken s v) \<and>
     (\<forall>q. q \<noteq> pp \<longrightarrow> q \<notin> NextField ` set ws \<longrightarrow> aw_deref q s' = aw_deref q s)"

lemma wake_hit_step:
  assumes "aw_same s s2" and "\<And>v. aw_is_woken s2 v \<longleftrightarrow> v = w \<or> aw_is_woken s v"
    and "\<And>q. q \<noteq> pp \<Longrightarrow> q \<notin> NextField ` set (w # ws) \<Longrightarrow> aw_deref q s2 = aw_deref q s"
    and "wake_loop a True pp n s = wake_loop a True pp (n + 1) s2"
    and "sl_heap s w = Some r" and "aw_addr r = a" and "w \<notin> set ws" and post: "wake_post a True pp (n + 1) ws s2 s'"
  shows "wake_post a True pp n (w # ws) s s'"
proof -
  note s' = post [unfolded wake_post_def aw_picked_same [OF assms(1)]]
  have pk: "aw_picked s a True (w # ws) = w # aw_picked s a True ws"
    using assms(5,6) by (simp add: aw_picked_simps)
  have fl: "filter (\<lambda>v. v \<notin> set (w # aw_picked s a True ws)) (w # ws) = filter (\<lambda>v. v \<notin> set (aw_picked s a True ws)) ws"
    using assms(7) by (auto intro: filter_cong)
  show ?thesis
    unfolding wake_post_def pk fl using s' assms(2-4) aw_same_trans [OF assms(1)] by auto
qed

lemma wake_skip_step:
  assumes "aw_chain s pp (w # ws)" and "w \<notin> set ws" and "pp \<notin> NextField ` set (w # ws)"
    and "sl_heap s w = Some r" and "aw_addr r \<noteq> a" and post: "wake_post a every (NextField w) n ws s s'"
  shows "wake_post a every pp n (w # ws) s s'"
proof -
  note s' = post [unfolded wake_post_def]
  have pk: "aw_picked s a every (w # ws) = aw_picked s a every ws" and notin: "w \<notin> set (aw_picked s a every ws)"
    using assms(2,4,5) aw_picked_subset [of s a every ws] by (auto simp: aw_picked_simps)
  have "wake_loop a every pp n s = wake_loop a every (NextField w) n s"
    using assms(1,4,5) by (subst wake_loop.simps) simp
  moreover have "aw_deref pp s' = Some w"
    using s' assms(1,3) by auto
  ultimately show ?thesis
    unfolding wake_post_def pk using s' notin assms(1) aw_same_live [of s s'] by auto
qed

lemma wake_loop_chain:
  assumes "aw_chain s pp ws" and "distinct ws" and "pp \<notin> NextField ` set ws"
    and "sl_tail s = aw_last pp ws"
  shows "\<exists>s'. wake_post a every pp n ws s s'"
  using assms
proof (induction ws arbitrary: pp n s)
  case Nil
  then show ?case by (simp add: wake_post_def wake_loop.simps aw_picked_simps)
next
  case (Cons w ws)
  obtain r where r: "sl_heap s w = Some r" using Cons.prems(1) by auto
  have w: "w \<notin> set ws" using Cons.prems(2) by simp
  show ?case
  proof (cases "aw_addr r = a")
    case True
    obtain s2 where same: "aw_same s s2" "\<And>v. aw_is_woken s2 v \<longleftrightarrow> v = w \<or> aw_is_woken s v"
      and chain: "aw_chain s2 pp ws" "sl_tail s2 = aw_last pp ws"
      and fr: "\<And>q. q \<noteq> pp \<Longrightarrow> q \<notin> NextField ` set (w # ws) \<Longrightarrow> aw_deref q s2 = aw_deref q s"
      and unf: "wake_loop a every pp n s = (if \<not> every then Some (n + 1, s2) else wake_loop a every pp (n + 1) s2)"
      by (rule wake_loop_hit [OF Cons.prems r True, of every n]) (rule that; assumption?)
    show ?thesis
    proof (cases every)
      case False
      have "filter (\<lambda>v. v \<noteq> w) ws = ws" using w by (intro filter_True) auto
      then show ?thesis
        using unf False chain same fr r True by (intro exI [of _ s2]) (auto simp: wake_post_def aw_picked_simps)
    next
      case ev: True
      obtain s' where "wake_post a every pp (n + 1) ws s2 s'"
        using Cons.IH [OF chain(1) _ _ chain(2), of "n + 1"] Cons.prems(2,3) by auto
      then show ?thesis
        using wake_hit_step [OF same fr _ r True w] unf ev by (intro exI [of _ s']) simp
    qed
  next
    case False
    obtain s' where "wake_post a every (NextField w) n ws s s'"
      using Cons.IH [of s "NextField w" n] Cons.prems by auto
    then show ?thesis using wake_skip_step [OF Cons.prems(1) w Cons.prems(3) r False] by blast
  qed
qed

section \<open>The slot as a queue\<close>

lemma aw_rep_live: "aw_rep s ws \<Longrightarrow> w \<in> set ws \<Longrightarrow> w \<noteq> 0 \<and> sl_heap s w \<noteq> None"
  using aw_chain_live [of s HeadField ws w] by (simp add: aw_rep_def)

lemma mjs_aw_link_rep:
  assumes "aw_rep s ws" and "w \<notin> set ws" and "w \<noteq> 0" and "sl_heap s w \<noteq> None"
  obtains s' where "mjs_aw_link w s = Some s'" and "aw_rep s' (ws @ [w])" and "aw_same s s'"
    and "\<And>v. aw_is_woken s' v \<longleftrightarrow> aw_is_woken s v"
proof -
  obtain r where r: "sl_heap s w = Some r"
    using assms(4) by auto
  define s1 where "s1 = s\<lparr>sl_heap := (sl_heap s)(w \<mapsto> r\<lparr>aw_next := 0, aw_linked := True\<rparr>)\<rparr>"
  have c1: "aw_chain s1 HeadField ws"
    unfolding s1_def using assms(1,2) by (intro aw_chain_touch) (simp_all add: aw_rep_def)
  have same1: "aw_same s s1" "aw_is_woken s1 v \<longleftrightarrow> aw_is_woken s v" for v
    using r by (auto simp: s1_def aw_same_def aw_is_woken_def)
  have gen: "\<exists>s2. aw_assign (aw_last pp us) w s0 = Some s2 \<and> aw_chain s2 pp (us @ [w])"
    if "aw_chain s0 pp us" "distinct us" "pp \<notin> NextField ` set us" "pp \<noteq> NextField w" "w \<notin> set us"
      "aw_deref (NextField w) s0 = Some 0" for s0 pp us
    using that
  proof (induction us arbitrary: pp)
    case Nil
    then show ?case using assms(3) by (cases pp) (auto split: option.splits)
  next
    case (Cons u us)
    then obtain s2 where s2: "aw_assign (aw_last (NextField u) us) w s0 = Some s2"
      "aw_chain s2 (NextField u) (us @ [w])"
      by auto
    have "pp \<noteq> aw_last (NextField u) us"
      using aw_last_cases [of "NextField u" us] Cons.prems(3) by auto
    then have "aw_deref pp s2 = Some u"
      using aw_assign_eff(2) [OF s2(1), of pp] Cons.prems(1) by simp
    moreover have "sl_heap s2 u \<noteq> None"
      using aw_assign_eff(5) [OF s2(1), of u] Cons.prems(1) by (metis aw_chain.simps(2) map_option_is_None)
    ultimately show ?case
      using s2 Cons.prems(1) by simp
  qed
  obtain s2 where s2: "aw_assign (aw_last HeadField ws) w s1 = Some s2" "aw_chain s2 HeadField (ws @ [w])"
    using gen [OF c1] assms(1,2) by (auto simp: aw_rep_def s1_def)
  have t: "sl_tail s1 = aw_last HeadField ws"
    using assms(1) by (simp add: s1_def aw_rep_def)
  have l: "mjs_aw_link w s = Some (s2\<lparr>sl_tail := NextField w\<rparr>)"
    unfolding mjs_aw_link_def using r s2(1) t by (simp add: s1_def Let_def)
  have "aw_rep (s2\<lparr>sl_tail := NextField w\<rparr>) (ws @ [w])"
    using s2(2) assms(1,2) aw_chain_cong [OF s2(2), of "s2\<lparr>sl_tail := NextField w\<rparr>"]
    by (auto simp: aw_rep_def aw_last_def)
  moreover have "aw_same s (s2\<lparr>sl_tail := NextField w\<rparr>)"
    using aw_same_trans [OF same1(1) aw_cut_same(1)] aw_assign_eff(5,6,7) [OF s2(1)]
    by (simp add: aw_same_def)
  moreover have "aw_is_woken (s2\<lparr>sl_tail := NextField w\<rparr>) v \<longleftrightarrow> aw_is_woken s v" for v
    using aw_cut_same(2) [OF aw_assign_eff(5,6,7) [OF s2(1)], of v] same1(2) [of v]
    by (simp add: aw_is_woken_def)
  ultimately show thesis
    using that l by blast
qed

lemma mjs_aw_unlink_rep:
  assumes "aw_rep s ws"
  obtains s' where "mjs_aw_unlink w s = Some s'" and "aw_rep s' (remove1 w ws)" and "aw_same s s'"
    and "\<And>v. aw_is_woken s' v \<longleftrightarrow> aw_is_woken s v"
  using unlink_loop_chain [of s HeadField ws w] assms that
  by (auto simp: aw_rep_def mjs_aw_unlink_def)

lemma wake_loop_rep:
  assumes "aw_rep s ws"
  obtains s' where "wake_loop a every HeadField 0 s = Some (int (length (aw_picked s a every ws)), s')"
    and "aw_rep s' (filter (\<lambda>w. w \<notin> set (aw_picked s a every ws)) ws)" and "aw_same s s'"
    and "\<And>v. aw_is_woken s' v \<longleftrightarrow> v \<in> set (aw_picked s a every ws) \<or> aw_is_woken s v"
  using wake_loop_chain [of s HeadField ws a every 0] assms that
  by (auto simp: aw_rep_def wake_post_def)

section \<open>Properties\<close>

text \<open>
  (C18) The slot's pointer list is a FIFO queue. On a slot that represents the records \<open>ws\<close>,
  linking a fresh record appends it; unlinking a record removes it, wherever it stands, and the
  loop ends; a wake of address \<open>a\<close> ends, returns exactly how many records it marked, namely the
  first waiting on \<open>a\<close> or all of them, takes those and no others out of the list in order, marks
  them and no others as woken, and the tail pointer is right afterwards in every case.
\<close>
theorem waiter_list_refines_queue:
  assumes "aw_rep s ws"
  shows "(w \<notin> set ws \<and> w \<noteq> 0 \<and> sl_heap s w \<noteq> None \<longrightarrow>
       (\<exists>s'. mjs_aw_link w s = Some s' \<and> aw_rep s' (ws @ [w]) \<and> aw_same s s')) \<and>
    (\<exists>s'. mjs_aw_unlink w s = Some s' \<and> aw_rep s' (remove1 w ws) \<and> aw_same s s') \<and>
    (\<exists>s'. wake_loop a every HeadField 0 s = Some (int (length (aw_picked s a every ws)), s') \<and>
       aw_rep s' (filter (\<lambda>v. v \<notin> set (aw_picked s a every ws)) ws) \<and> aw_same s s' \<and>
       (\<forall>v. aw_is_woken s' v \<longleftrightarrow> v \<in> set (aw_picked s a every ws) \<or> aw_is_woken s v))"
proof (intro conjI impI)
  assume w: "w \<notin> set ws \<and> w \<noteq> 0 \<and> sl_heap s w \<noteq> None"
  show "\<exists>s'. mjs_aw_link w s = Some s' \<and> aw_rep s' (ws @ [w]) \<and> aw_same s s'"
    using mjs_aw_link_rep [OF assms, of w] w by metis
next
  show "\<exists>s'. mjs_aw_unlink w s = Some s' \<and> aw_rep s' (remove1 w ws) \<and> aw_same s s'"
    using mjs_aw_unlink_rep [OF assms, of w] by metis
next
  show "\<exists>s'. wake_loop a every HeadField 0 s = Some (int (length (aw_picked s a every ws)), s') \<and>
       aw_rep s' (filter (\<lambda>v. v \<notin> set (aw_picked s a every ws)) ws) \<and> aw_same s s' \<and>
       (\<forall>v. aw_is_woken s' v \<longleftrightarrow> v \<in> set (aw_picked s a every ws) \<or> aw_is_woken s v)"
    using wake_loop_rep [OF assms, of a every] by metis
qed

definition demo_slot :: aw_slot where
  "demo_slot = \<lparr>sl_mx = 8, sl_cv = 9, sl_head = 16, sl_tail = NextField 48, sl_heap = [
     16 \<mapsto> \<lparr>aw_addr = 100, aw_woken = False, aw_linked = True, aw_next = 32\<rparr>,
     32 \<mapsto> \<lparr>aw_addr = 200, aw_woken = False, aw_linked = True, aw_next = 48\<rparr>,
     48 \<mapsto> \<lparr>aw_addr = 200, aw_woken = False, aw_linked = True, aw_next = 0\<rparr>]\<rparr>"

theorem waiter_list_refines_queue_witness:
  "\<exists>s'. wake_loop 200 False HeadField 0 demo_slot = Some (1, s') \<and> aw_rep s' [16, 48] \<and>
     aw_is_woken s' 32 \<and> \<not> aw_is_woken s' 48"
proof -
  have "aw_rep demo_slot [16, 32, 48]"
    by (simp add: aw_rep_def demo_slot_def aw_last_def)
  note q = waiter_list_refines_queue [OF this, of 0 200 False]
  have p: "aw_picked demo_slot 200 False [16, 32, 48] = [32]"
    by (simp add: aw_picked_def demo_slot_def)
  have w: "\<not> aw_is_woken demo_slot 48"
    by (simp add: aw_is_woken_def demo_slot_def)
  show ?thesis
    using q w unfolding p by auto
qed

end
