(* ===== verification/Mjs_AtomicWait.thy ===== *)
theory Mjs_AtomicWait
  imports Mjs_WaitList Mjs_Page
begin

text \<open>
  Waiting on 32-bit words (native/posix/mjs\_atomic\_wait.c): the futex backend, the fallback
  built from hashed slots of mutex, condition variable and waiter list, and the entry points.
  The fallback is modelled twice: as sequential functions whose condition-variable waits take
  what the other threads did meanwhile as an argument, and as a step relation of any number of
  threads that wait on and wake words of one slot, while words change at any time.
\<close>

section \<open>The futex backend\<close>

text \<open>
  One attempt consists of the answer of \<open>mjs_clock_now\<close> and of the futex call, which may depend
  on the word, the expected value and the timeout; the list holds the attempts the loop makes,
  and the result is \<^term>\<open>None\<close> when the loop is still retrying at its end.
\<close>

type_synonym futex_attempt = "(int \<times> u64) \<times> (addr \<Rightarrow> u32 \<Rightarrow> (int \<times> int) option \<Rightarrow> unit host)"

definition futex_span :: "u64 \<Rightarrow> u64 \<Rightarrow> u64" where
  "futex_span deadline now = (if deadline \<le> now then 0 else deadline - now)"

fun mjs_atomic_wait_linux ::
    "futex_attempt list \<Rightarrow> addr \<Rightarrow> u32 \<Rightarrow> u64 option \<Rightarrow> int option" where
  "mjs_atomic_wait_linux [] a expected deadline = None"
| "mjs_atomic_wait_linux (((crc, now), futex) # as) a expected deadline =
     (if deadline \<noteq> None \<and> crc \<noteq> 0 then Some (- EINVAL)
      else case futex a expected (map_option (\<lambda>d. ns_timespec (futex_span d now)) deadline) of
        Inr _ \<Rightarrow> Some 0
      | Inl err \<Rightarrow>
          if err = EAGAIN then Some 0
          else if err = EINTR then mjs_atomic_wait_linux as a expected deadline
          else if err = ETIMEDOUT then Some (- ETIMEDOUT)
          else Some (- err))"

definition mjs_atomic_wait_on_u32 ::
    "futex_attempt list \<Rightarrow> addr \<Rightarrow> u32 \<Rightarrow> u64 option \<Rightarrow> int option" where
  "mjs_atomic_wait_on_u32 as a expected deadline =
     (if a = 0 then Some (- EFAULT) else mjs_atomic_wait_linux as a expected deadline)"

text \<open>\<open>wake a n\<close> is the answer of the wake operation: how many it woke, a \<open>long\<close>.\<close>

definition mjs_atomic_wake_one_u32 :: "(addr \<Rightarrow> u32 \<Rightarrow> int host) \<Rightarrow> addr \<Rightarrow> int" where
  "mjs_atomic_wake_one_u32 wake a =
     (if a = 0 then - EFAULT else case wake a 1 of Inl e \<Rightarrow> - e | Inr n \<Rightarrow> c_int_of n)"

definition mjs_atomic_wake_all_u32 :: "(addr \<Rightarrow> u32 \<Rightarrow> int host) \<Rightarrow> addr \<Rightarrow> int" where
  "mjs_atomic_wake_all_u32 wake a =
     (if a = 0 then - EFAULT else case wake a 0x7fffffff of Inl e \<Rightarrow> - e | Inr n \<Rightarrow> c_int_of n)"

text \<open>A host with neither backend refuses every address but the NULL pointer the same way.\<close>

definition mjs_atomic_stub :: "addr \<Rightarrow> int" where
  "mjs_atomic_stub a = (if a = 0 then - EFAULT else - ENOSYS)"

section \<open>The slot table\<close>

abbreviation (input) MJS_AW_SLOTS :: nat where "MJS_AW_SLOTS \<equiv> 256"

record aw_table =
  tb_once :: bool
  tb_init_rc :: int
  tb_slots :: "aw_slot list"

text \<open>
  The one-time initialisation; \<open>H i\<close> holds the answers of \<open>malloc\<close> and \<open>pthread_mutex_init\<close> for the
  mutex of slot \<open>i\<close> and those of its condition variable. \<open>k\<close> counts the slots still to do.
\<close>

fun aw_init_loop ::
    "(nat \<Rightarrow> addr option \<times> int \<times> cv_host) \<Rightarrow> nat \<Rightarrow> aw_table \<Rightarrow> addr set \<Rightarrow> aw_table \<times> addr set" where
  "aw_init_loop H 0 tb live = (tb, live)"
| "aw_init_loop H (Suc k) tb live =
     (let i = MJS_AW_SLOTS - Suc k; s = tb_slots tb ! i; (mem, mrc, C) = H i;
          (rc, mx, live1) = mjs_mutex_init mem mrc (Some (sl_mx s)) live;
          s1 = s\<lparr>sl_mx := the mx\<rparr>
      in if rc \<noteq> 0 then (tb\<lparr>tb_init_rc := rc, tb_slots := (tb_slots tb)[i := s1]\<rparr>, live1)
         else
           let (rc2, cv, live2) = mjs_condvar_init_mach C (Some (sl_cv s1)) live1;
               s2 = s1\<lparr>sl_cv := the cv\<rparr>
           in if rc2 \<noteq> 0 then (tb\<lparr>tb_init_rc := rc2, tb_slots := (tb_slots tb)[i := s2]\<rparr>, live2)
              else aw_init_loop H k
                (tb\<lparr>tb_slots := (tb_slots tb)[i := s2\<lparr>sl_head := 0, sl_tail := HeadField\<rparr>]\<rparr>) live2)"

definition mjs_aw_init ::
    "(nat \<Rightarrow> addr option \<times> int \<times> cv_host) \<Rightarrow> aw_table \<times> addr set \<Rightarrow> aw_table \<times> addr set" where
  "mjs_aw_init H tbl = aw_init_loop H MJS_AW_SLOTS (fst tbl) (snd tbl)"

definition aw_index :: "addr \<Rightarrow> nat" where
  "aw_index a = unat (drop_bit 32 (drop_bit 2 a * 0x9E3779B97F4A7C15) AND 0xFF)"

definition mjs_aw_slot_for ::
    "(nat \<Rightarrow> addr option \<times> int \<times> cv_host) \<Rightarrow> addr \<Rightarrow> aw_table \<times> addr set \<Rightarrow> nat \<times> aw_table \<times> addr set" where
  "mjs_aw_slot_for H a tbl =
     (let tbl1 = (if tb_once (fst tbl) then tbl
                 else (let (tb, live) = mjs_aw_init H tbl in (tb\<lparr>tb_once := True\<rparr>, live)))
      in (aw_index a, tbl1))"

section \<open>The fallback\<close>

text \<open>
  The two halves of one round of the wait, around the condition-variable call: the record is
  filled in and linked; afterwards it is unlinked unless a waker did so, and the outcome is
  decided. \<^term>\<open>Some (None, s)\<close> means another round.
\<close>

definition aw_arm :: "addr \<Rightarrow> addr \<Rightarrow> aw_slot \<Rightarrow> aw_slot option" where
  "aw_arm me a s =
     (case sl_heap s me of
        None \<Rightarrow> None
      | Some r \<Rightarrow> mjs_aw_link me
          (s\<lparr>sl_heap := (sl_heap s)(me \<mapsto> r\<lparr>aw_addr := a, aw_woken := False\<rparr>)\<rparr>))"

definition aw_resume :: "addr \<Rightarrow> int \<Rightarrow> aw_slot \<Rightarrow> (int option \<times> aw_slot) option" where
  "aw_resume me rc s =
     (case sl_heap s me of
        None \<Rightarrow> None
      | Some r \<Rightarrow>
          (case (if \<not> aw_woken r then mjs_aw_unlink me s else Some s) of
             None \<Rightarrow> None
           | Some s1 \<Rightarrow>
               (case sl_heap s1 me of
                  None \<Rightarrow> None
                | Some r1 \<Rightarrow>
                    if aw_woken r1 then Some (Some 0, s1)
                    else if rc \<noteq> 0 then Some (Some rc, s1)
                    else Some (None, s1))))"

text \<open>
  The sequential view: in each round other threads turn the slot into \<open>env s\<close> and the words into
  \<open>word'\<close> while the caller is parked, and \<open>cvw\<close> is what the condition-variable call answers:
  \<open>mjs_condvar_wait_until\<close> with the deadline when there is one, \<open>mjs_condvar_wait\<close> otherwise.
\<close>

type_synonym fallback_round = "(aw_slot \<Rightarrow> aw_slot) \<times> (addr \<Rightarrow> u32) \<times> (u64 option \<Rightarrow> int)"

fun wait_fallback_loop ::
    "fallback_round list \<Rightarrow> addr \<Rightarrow> addr \<Rightarrow> u32 \<Rightarrow> u64 option \<Rightarrow> (addr \<Rightarrow> u32) \<Rightarrow>
     aw_slot \<Rightarrow> (int \<times> aw_slot) option" where
  "wait_fallback_loop rounds me a expected deadline word s =
     (if word a \<noteq> expected then Some (0, s)
      else case aw_arm me a s of
        None \<Rightarrow> None
      | Some s1 \<Rightarrow>
          (case rounds of
             [] \<Rightarrow> None
           | (env, word', cvw) # rs \<Rightarrow>
               (case aw_resume me (cvw deadline) (env s1) of
                  None \<Rightarrow> None
                | Some (Some v, s2) \<Rightarrow> Some (v, s2)
                | Some (None, s2) \<Rightarrow> wait_fallback_loop rs me a expected deadline word' s2)))"

declare wait_fallback_loop.simps [simp del]

definition mjs_atomic_wait_fallback ::
    "int \<Rightarrow> fallback_round list \<Rightarrow> addr \<Rightarrow> addr \<Rightarrow> u32 \<Rightarrow> u64 option \<Rightarrow> (addr \<Rightarrow> u32) \<Rightarrow>
     aw_slot \<Rightarrow> (int \<times> aw_slot) option" where
  "mjs_atomic_wait_fallback prc rounds me a expected deadline word s =
     (let rc = mjs_mutex_lock (sl_mx s) prc
      in if rc \<noteq> 0 then Some (rc, s) else wait_fallback_loop rounds me a expected deadline word s)"

text \<open>The wake returns its count, whether it broadcast, and the slot.\<close>

definition mjs_atomic_wake_fallback ::
    "int \<Rightarrow> addr \<Rightarrow> bool \<Rightarrow> aw_slot \<Rightarrow> (int \<times> bool \<times> aw_slot) option" where
  "mjs_atomic_wake_fallback prc a every s =
     (let rc = mjs_mutex_lock (sl_mx s) prc
      in if rc \<noteq> 0 then Some (rc, False, s)
         else case wake_loop a every HeadField 0 s of
           None \<Rightarrow> None
         | Some (n, s1) \<Rightarrow> Some (n, 0 < n, s1))"

text \<open>
  The entry points of a host with the fallback: NULL, then the table's initialisation result,
  then the slot of the address.
\<close>

definition mjs_atomic_wait_on_u32_mach ::
    "(nat \<Rightarrow> addr option \<times> int \<times> cv_host) \<Rightarrow> int \<Rightarrow>
     fallback_round list \<Rightarrow> addr \<Rightarrow> addr \<Rightarrow> u32 \<Rightarrow> u64 option \<Rightarrow> (addr \<Rightarrow> u32) \<Rightarrow>
     aw_table \<times> addr set \<Rightarrow> (int \<times> aw_table \<times> addr set) option" where
  "mjs_atomic_wait_on_u32_mach H prc rounds me a expected deadline word tbl =
     (if a = 0 then Some (- EFAULT, tbl)
      else
        let (i, tb, live) = mjs_aw_slot_for H a tbl
        in if tb_init_rc tb \<noteq> 0 then Some (tb_init_rc tb, tb, live)
           else map_option (\<lambda>(rc, s). (rc, tb\<lparr>tb_slots := (tb_slots tb)[i := s]\<rparr>, live))
             (mjs_atomic_wait_fallback prc rounds me a expected deadline word (tb_slots tb ! i)))"

definition mjs_atomic_wake_u32_mach ::
    "(nat \<Rightarrow> addr option \<times> int \<times> cv_host) \<Rightarrow> int \<Rightarrow> bool \<Rightarrow> addr \<Rightarrow>
     aw_table \<times> addr set \<Rightarrow> (int \<times> bool \<times> aw_table \<times> addr set) option" where
  "mjs_atomic_wake_u32_mach H prc every a tbl =
     (if a = 0 then Some (- EFAULT, False, tbl)
      else
        let (i, tb, live) = mjs_aw_slot_for H a tbl
        in if tb_init_rc tb \<noteq> 0 then Some (tb_init_rc tb, False, tb, live)
           else map_option (\<lambda>(n, b, s). (n, b, tb\<lparr>tb_slots := (tb_slots tb)[i := s]\<rparr>, live))
             (mjs_atomic_wake_fallback prc a every (tb_slots tb ! i)))"

section \<open>Interleavings\<close>

text \<open>
  Threads that wait on and wake words of one slot. A thread stands outside; in a wait, before
  the lock, at the value check, about to arm, asleep, awake with the condition variable's
  answer and about to re-lock, back with the mutex, about to unlock and return; or in a wake,
  before the lock, about to mark, about to broadcast, about to unlock. The flag says whether the
  wait has a deadline. \<open>rec t\<close> is where the record of thread \<open>t\<close> lives; its frame exists while the
  thread is in a wait. A store to a word may happen between any two steps, without the mutex.
\<close>

datatype aw_pc = AOut | ALock addr u32 bool | ACheck addr u32 bool | AArm addr u32 bool
  | ASleep addr u32 bool | AReady addr u32 bool int | ABack addr u32 bool int | AUnlock int
  | KLock addr bool | KMark addr bool | KCast int | KUnlock int

record aw_cfg =
  ac_slot :: aw_slot
  ac_word :: "addr \<Rightarrow> u32"
  ac_owner :: "nat option"
  ac_pc :: "nat \<Rightarrow> aw_pc"
  ac_ret :: "nat \<Rightarrow> int option"
  ac_marked :: nat
  ac_handed :: nat
  ac_bad :: bool

definition aw_at :: "nat \<Rightarrow> aw_pc \<Rightarrow> aw_cfg \<Rightarrow> aw_cfg" where
  "aw_at t p c = c\<lparr>ac_pc := (ac_pc c)(t := p)\<rparr>"

definition aw_frame :: "addr \<Rightarrow> aw_waiter option \<Rightarrow> aw_cfg \<Rightarrow> aw_cfg" where
  "aw_frame w x c = c\<lparr>ac_slot := (ac_slot c)\<lparr>sl_heap := (sl_heap (ac_slot c))(w := x)\<rparr>\<rparr>"

fun aw_rouse :: "aw_pc \<Rightarrow> aw_pc" where
  "aw_rouse (ASleep a e tm) = AReady a e tm 0"
| "aw_rouse p = p"

inductive awstep :: "(nat \<Rightarrow> addr) \<Rightarrow> nat \<Rightarrow> aw_cfg \<Rightarrow> aw_cfg \<Rightarrow> bool"
  for rec :: "nat \<Rightarrow> addr" and N :: nat where
  store: "awstep rec N c (c\<lparr>ac_word := (ac_word c)(a := v)\<rparr>)"
| call_wait: "t < N \<Longrightarrow> ac_pc c t = AOut \<Longrightarrow>
    awstep rec N c (aw_frame (rec t) (Some junk) (aw_at t (ALock a e tm) c))"
| call_wake: "t < N \<Longrightarrow> ac_pc c t = AOut \<Longrightarrow> awstep rec N c (aw_at t (KLock a every) c)"
| wait_lock_failed: "t < N \<Longrightarrow> ac_pc c t = ALock a e tm \<Longrightarrow> 0 < err \<Longrightarrow>
    awstep rec N c ((aw_frame (rec t) None (aw_at t AOut c))\<lparr>ac_ret := (ac_ret c)(t \<mapsto> - err)\<rparr>)"
| wake_lock_failed: "t < N \<Longrightarrow> ac_pc c t = KLock a every \<Longrightarrow> 0 < err \<Longrightarrow>
    awstep rec N c ((aw_at t AOut c)\<lparr>ac_ret := (ac_ret c)(t \<mapsto> - err)\<rparr>)"
| wait_lock: "t < N \<Longrightarrow> ac_pc c t = ALock a e tm \<Longrightarrow> ac_owner c = None \<Longrightarrow>
    awstep rec N c ((aw_at t (ACheck a e tm) c)\<lparr>ac_owner := Some t\<rparr>)"
| changed: "t < N \<Longrightarrow> ac_pc c t = ACheck a e tm \<Longrightarrow> ac_word c a \<noteq> e \<Longrightarrow>
    awstep rec N c (aw_at t (AUnlock 0) c)"
| unchanged: "t < N \<Longrightarrow> ac_pc c t = ACheck a e tm \<Longrightarrow> ac_word c a = e \<Longrightarrow>
    awstep rec N c (aw_at t (AArm a e tm) c)"
| sleep: "t < N \<Longrightarrow> ac_pc c t = AArm a e tm \<Longrightarrow> aw_arm (rec t) a (ac_slot c) = Some s \<Longrightarrow>
    awstep rec N c ((aw_at t (ASleep a e tm) c)\<lparr>ac_slot := s, ac_owner := None\<rparr>)"
| sleep_refused: "t < N \<Longrightarrow> ac_pc c t = AArm a e tm \<Longrightarrow> aw_arm (rec t) a (ac_slot c) = Some s \<Longrightarrow>
    rc < 0 \<Longrightarrow> rc = - ETIMEDOUT \<longrightarrow> tm \<Longrightarrow>
    awstep rec N c ((aw_at t (ABack a e tm rc) c)\<lparr>ac_slot := s\<rparr>)"
| arm_fault: "t < N \<Longrightarrow> ac_pc c t = AArm a e tm \<Longrightarrow> aw_arm (rec t) a (ac_slot c) = None \<Longrightarrow>
    awstep rec N c (c\<lparr>ac_bad := True\<rparr>)"
| spurious: "t < N \<Longrightarrow> ac_pc c t = ASleep a e tm \<Longrightarrow> awstep rec N c (aw_at t (AReady a e tm 0) c)"
| expire: "t < N \<Longrightarrow> ac_pc c t = ASleep a e True \<Longrightarrow>
    awstep rec N c (aw_at t (AReady a e True (- ETIMEDOUT)) c)"
| relock: "t < N \<Longrightarrow> ac_pc c t = AReady a e tm rc \<Longrightarrow> ac_owner c = None \<Longrightarrow>
    awstep rec N c ((aw_at t (ABack a e tm rc) c)\<lparr>ac_owner := Some t\<rparr>)"
| again: "t < N \<Longrightarrow> ac_pc c t = ABack a e tm rc \<Longrightarrow>
    aw_resume (rec t) rc (ac_slot c) = Some (None, s) \<Longrightarrow>
    awstep rec N c ((aw_at t (ACheck a e tm) c)\<lparr>ac_slot := s\<rparr>)"
| decided: "t < N \<Longrightarrow> ac_pc c t = ABack a e tm rc \<Longrightarrow>
    aw_resume (rec t) rc (ac_slot c) = Some (Some v, s) \<Longrightarrow>
    awstep rec N c ((aw_at t (AUnlock v) c)\<lparr>ac_slot := s,
      ac_handed := ac_handed c + of_bool (aw_is_woken (ac_slot c) (rec t))\<rparr>)"
| resume_fault: "t < N \<Longrightarrow> ac_pc c t = ABack a e tm rc \<Longrightarrow>
    aw_resume (rec t) rc (ac_slot c) = None \<Longrightarrow>
    awstep rec N c (c\<lparr>ac_bad := True\<rparr>)"
| wait_unlock: "t < N \<Longrightarrow> ac_pc c t = AUnlock rc \<Longrightarrow>
    awstep rec N c ((aw_frame (rec t) None (aw_at t AOut c))
      \<lparr>ac_owner := None, ac_ret := (ac_ret c)(t \<mapsto> rc)\<rparr>)"
| wake_lock: "t < N \<Longrightarrow> ac_pc c t = KLock a every \<Longrightarrow> ac_owner c = None \<Longrightarrow>
    awstep rec N c ((aw_at t (KMark a every) c)\<lparr>ac_owner := Some t\<rparr>)"
| mark: "t < N \<Longrightarrow> ac_pc c t = KMark a every \<Longrightarrow>
    wake_loop a every HeadField 0 (ac_slot c) = Some (n, s) \<Longrightarrow>
    awstep rec N c ((aw_at t (KCast n) c)\<lparr>ac_slot := s, ac_marked := ac_marked c + nat n\<rparr>)"
| mark_fault: "t < N \<Longrightarrow> ac_pc c t = KMark a every \<Longrightarrow>
    wake_loop a every HeadField 0 (ac_slot c) = None \<Longrightarrow>
    awstep rec N c (c\<lparr>ac_bad := True\<rparr>)"
| cast: "t < N \<Longrightarrow> ac_pc c t = KCast n \<Longrightarrow> 0 < n \<Longrightarrow>
    awstep rec N c (aw_at t (KUnlock n) (c\<lparr>ac_pc := aw_rouse \<circ> ac_pc c\<rparr>))"
| no_cast: "t < N \<Longrightarrow> ac_pc c t = KCast n \<Longrightarrow> n \<le> 0 \<Longrightarrow>
    awstep rec N c (aw_at t (KUnlock n) c)"
| wake_unlock: "t < N \<Longrightarrow> ac_pc c t = KUnlock n \<Longrightarrow>
    awstep rec N c ((aw_at t AOut c)\<lparr>ac_owner := None, ac_ret := (ac_ret c)(t \<mapsto> n)\<rparr>)"

definition aw_start :: "aw_slot \<Rightarrow> (addr \<Rightarrow> u32) \<Rightarrow> aw_cfg" where
  "aw_start s word = \<lparr>ac_slot = s\<lparr>sl_head := 0, sl_tail := HeadField, sl_heap := \<lambda>_. None\<rparr>,
     ac_word = word, ac_owner = None, ac_pc = \<lambda>_. AOut, ac_ret = \<lambda>_. None, ac_marked = 0,
     ac_handed = 0, ac_bad = False\<rparr>"

text \<open>
  Which points hold the mutex, which have a frame, and at which the record is queued or handed
  over (with the address it waits on).
\<close>

fun aw_holds :: "aw_pc \<Rightarrow> bool" where
  "aw_holds (ACheck _ _ _) = True"
| "aw_holds (AArm _ _ _) = True"
| "aw_holds (ABack _ _ _ _) = True"
| "aw_holds (AUnlock _) = True"
| "aw_holds (KMark _ _) = True"
| "aw_holds (KCast _) = True"
| "aw_holds (KUnlock _) = True"
| "aw_holds _ = False"

fun aw_framed :: "aw_pc \<Rightarrow> bool" where
  "aw_framed AOut = False"
| "aw_framed (KLock _ _) = False"
| "aw_framed (KMark _ _) = False"
| "aw_framed (KCast _) = False"
| "aw_framed (KUnlock _) = False"
| "aw_framed _ = True"

fun aw_key :: "aw_pc \<Rightarrow> addr option" where
  "aw_key (ASleep a _ _) = Some a"
| "aw_key (AReady a _ _ _) = Some a"
| "aw_key (ABack a _ _ _) = Some a"
| "aw_key _ = None"

fun aw_asleep :: "aw_pc \<Rightarrow> bool" where
  "aw_asleep (ASleep _ _ _) = True"
| "aw_asleep _ = False"

fun aw_casting :: "aw_pc \<Rightarrow> bool" where
  "aw_casting (KCast n) = (0 < n)"
| "aw_casting _ = False"

definition aw_handed_over :: "(nat \<Rightarrow> addr) \<Rightarrow> nat \<Rightarrow> aw_cfg \<Rightarrow> nat set" where
  "aw_handed_over rec N c = {t. t < N \<and> aw_key (ac_pc c t) \<noteq> None \<and> aw_is_woken (ac_slot c) (rec t)}"

definition aw_queued :: "(nat \<Rightarrow> addr) \<Rightarrow> nat \<Rightarrow> aw_cfg \<Rightarrow> nat set" where
  "aw_queued rec N c = {t. t < N \<and> aw_key (ac_pc c t) \<noteq> None \<and> \<not> aw_is_woken (ac_slot c) (rec t)}"

text \<open>
  The invariant, for the list \<open>ws\<close> the slot represents: no access to a dead frame so far; one
  owner, the thread inside its critical section; exactly the threads in a wait have frames; the
  list holds exactly the records of queued threads, which carry the address they wait on; a
  sleeper that was handed a wake is about to be roused; and every mark is accounted for.
\<close>

definition aw_inv :: "(nat \<Rightarrow> addr) \<Rightarrow> nat \<Rightarrow> addr list \<Rightarrow> aw_cfg \<Rightarrow> bool" where
  "aw_inv rec N ws c \<longleftrightarrow>
     \<not> ac_bad c \<and> aw_rep (ac_slot c) ws \<and>
     (\<forall>t < N. aw_holds (ac_pc c t) \<longleftrightarrow> ac_owner c = Some t) \<and>
     (\<forall>t < N. sl_heap (ac_slot c) (rec t) \<noteq> None \<longleftrightarrow> aw_framed (ac_pc c t)) \<and>
     (\<forall>t < N. \<forall>a. aw_key (ac_pc c t) = Some a \<longrightarrow>
        map_option aw_addr (sl_heap (ac_slot c) (rec t)) = Some a) \<and>
     set ws = rec ` aw_queued rec N c \<and>
     (\<forall>t < N. aw_asleep (ac_pc c t) \<longrightarrow> aw_is_woken (ac_slot c) (rec t) \<longrightarrow>
        (\<exists>k < N. aw_casting (ac_pc c k))) \<and>
     ac_marked c = ac_handed c + card (aw_handed_over rec N c)"

section \<open>Lemmas\<close>

lemma aw_at_simps [simp]:
  "ac_pc (aw_at t p c) = (ac_pc c)(t := p)"
  "ac_slot (aw_at t p c) = ac_slot c" "ac_word (aw_at t p c) = ac_word c"
  "ac_owner (aw_at t p c) = ac_owner c" "ac_ret (aw_at t p c) = ac_ret c"
  "ac_marked (aw_at t p c) = ac_marked c" "ac_handed (aw_at t p c) = ac_handed c"
  "ac_bad (aw_at t p c) = ac_bad c"
  by (simp_all add: aw_at_def)

lemma aw_frame_simps [simp]:
  "sl_heap (ac_slot (aw_frame w x c)) = (sl_heap (ac_slot c))(w := x)"
  "ac_pc (aw_frame w x c) = ac_pc c" "ac_owner (aw_frame w x c) = ac_owner c"
  "ac_ret (aw_frame w x c) = ac_ret c"
  "ac_marked (aw_frame w x c) = ac_marked c" "ac_handed (aw_frame w x c) = ac_handed c"
  "ac_bad (aw_frame w x c) = ac_bad c"
  by (simp_all add: aw_frame_def)

lemma aw_key_framed: "aw_key p \<noteq> None \<Longrightarrow> aw_framed p"
  by (cases p) auto

lemma aw_rouse_simps [simp]:
  "aw_holds (aw_rouse p) = aw_holds p" "aw_framed (aw_rouse p) = aw_framed p"
  "aw_key (aw_rouse p) = aw_key p" "\<not> aw_asleep (aw_rouse p)"
  by (cases p; simp)+

text \<open>Adding or dropping a frame whose record is not in the list keeps the list.\<close>

lemma aw_rep_touch:
  assumes "aw_rep s ws" and "w \<notin> set ws"
  shows "aw_rep (s\<lparr>sl_heap := (sl_heap s)(w := x)\<rparr>) ws"
  using assms aw_chain_touch [of s HeadField ws w x] by (simp add: aw_rep_def)

lemma aw_arm_rep:
  assumes "aw_rep s ws" and "me \<notin> set ws" and "me \<noteq> 0" and "sl_heap s me \<noteq> None"
  obtains s' where "aw_arm me a s = Some s'" and "aw_rep s' (ws @ [me])"
    and "map_option aw_addr (sl_heap s' me) = Some a"
    and "\<And>v. v \<noteq> me \<Longrightarrow> map_option aw_addr (sl_heap s' v) = map_option aw_addr (sl_heap s v)"
    and "\<And>v. aw_is_woken s' v \<longleftrightarrow> v \<noteq> me \<and> aw_is_woken s v"
proof -
  obtain r where r: "sl_heap s me = Some r"
    using assms(4) by auto
  define s0 where "s0 = s\<lparr>sl_heap := (sl_heap s)(me \<mapsto> r\<lparr>aw_addr := a, aw_woken := False\<rparr>)\<rparr>"
  have "aw_rep s0 ws"
    unfolding s0_def using assms(1,2) by (rule aw_rep_touch)
  then obtain s' where s': "mjs_aw_link me s0 = Some s'" "aw_rep s' (ws @ [me])" "aw_same s0 s'"
    "\<And>v. aw_is_woken s' v \<longleftrightarrow> aw_is_woken s0 v"
    using mjs_aw_link_rep [of s0 ws me] assms(2,3) by (auto simp: s0_def)
  show thesis
  proof (rule that [of s'])
    show "aw_arm me a s = Some s'"
      using s'(1) r by (simp add: aw_arm_def s0_def)
    show "aw_is_woken s' v \<longleftrightarrow> v \<noteq> me \<and> aw_is_woken s v" for v
      using s'(4) by (simp add: s0_def aw_is_woken_def)
  qed (use s'(2,3) in \<open>auto simp: aw_same_def s0_def\<close>)
qed

lemma aw_resume_rep:
  assumes "aw_rep s ws" and "sl_heap s me \<noteq> None"
  obtains s' where "aw_resume me rc s =
      Some (if aw_is_woken s me then Some 0 else if rc \<noteq> 0 then Some rc else None, s')"
    and "aw_rep s' (if aw_is_woken s me then ws else remove1 me ws)" and "aw_same s s'"
    and "\<And>v. aw_is_woken s' v \<longleftrightarrow> aw_is_woken s v"
proof (cases "aw_is_woken s me")
  case True
  then show thesis
    using assms that [of s] by (auto simp: aw_resume_def aw_is_woken_def)
next
  case False
  obtain s' where s': "mjs_aw_unlink me s = Some s'" "aw_rep s' (remove1 me ws)" "aw_same s s'"
    "\<And>v. aw_is_woken s' v \<longleftrightarrow> aw_is_woken s v"
    using mjs_aw_unlink_rep [OF assms(1), of me] by metis
  obtain r r' where r: "sl_heap s me = Some r" "sl_heap s' me = Some r'"
    using assms(2) aw_same_live [OF s'(3), of me] by auto
  have "\<not> aw_woken r" "\<not> aw_woken r'"
    using False s'(4) [of me] r by (auto simp: aw_is_woken_def)
  then have "aw_resume me rc s = Some (if rc \<noteq> 0 then Some rc else None, s')"
    using r s'(1) by (simp add: aw_resume_def)
  then show thesis
    using that [of s'] s' False by simp
qed

text \<open>The parts of the invariant, by name.\<close>

lemma aw_invD:
  assumes "aw_inv rec N ws c"
  shows "\<not> ac_bad c" and "aw_rep (ac_slot c) ws"
    and "t < N \<Longrightarrow> aw_holds (ac_pc c t) \<longleftrightarrow> ac_owner c = Some t"
    and "t < N \<Longrightarrow> sl_heap (ac_slot c) (rec t) \<noteq> None \<longleftrightarrow> aw_framed (ac_pc c t)"
    and "t < N \<Longrightarrow> aw_key (ac_pc c t) = Some a \<Longrightarrow>
      map_option aw_addr (sl_heap (ac_slot c) (rec t)) = Some a"
    and "set ws = rec ` aw_queued rec N c"
    and "t < N \<Longrightarrow> aw_asleep (ac_pc c t) \<Longrightarrow> aw_is_woken (ac_slot c) (rec t) \<Longrightarrow>
      \<exists>k < N. aw_casting (ac_pc c k)"
    and "ac_marked c = ac_handed c + card (aw_handed_over rec N c)"
  using assms unfolding aw_inv_def by simp_all

lemma aw_rec_queued:
  assumes "aw_inv rec N ws c" and "inj_on rec {..<N}" and "t < N"
  shows "rec t \<in> set ws \<longleftrightarrow> aw_key (ac_pc c t) \<noteq> None \<and> \<not> aw_is_woken (ac_slot c) (rec t)"
proof -
  have "rec t \<in> rec ` aw_queued rec N c \<longleftrightarrow> t \<in> aw_queued rec N c"
    using assms(2,3) by (auto simp: aw_queued_def inj_on_def)
  then show ?thesis
    using aw_invD(6) [OF assms(1)] assms(3) by (simp add: aw_queued_def)
qed

text \<open>A step that leaves the slot alone and moves no thread into or out of the queue.\<close>

lemma aw_inv_quiet:
  assumes "aw_inv rec N ws c" and "ac_slot c' = ac_slot c" and "ac_bad c' = ac_bad c"
    and "ac_marked c' = ac_marked c" and "ac_handed c' = ac_handed c"
    and "\<And>t. t < N \<Longrightarrow> aw_holds (ac_pc c' t) \<longleftrightarrow> ac_owner c' = Some t"
    and "\<And>t. t < N \<Longrightarrow> aw_framed (ac_pc c' t) \<longleftrightarrow> aw_framed (ac_pc c t)"
    and "\<And>t. t < N \<Longrightarrow> aw_key (ac_pc c' t) = aw_key (ac_pc c t)"
    and "\<And>t. t < N \<Longrightarrow> aw_asleep (ac_pc c' t) \<Longrightarrow> aw_is_woken (ac_slot c) (rec t) \<Longrightarrow>
      \<exists>k < N. aw_casting (ac_pc c' k)"
  shows "aw_inv rec N ws c'"
proof -
  have "aw_queued rec N c' = aw_queued rec N c" "aw_handed_over rec N c' = aw_handed_over rec N c"
    using assms(2,8) by (auto simp: aw_queued_def aw_handed_over_def)
  then show ?thesis
    using assms unfolding aw_inv_def by auto
qed

text \<open>What a move of thread \<open>t\<close> to the point \<open>p\<close> does to the mutex.\<close>

definition aw_mutex_move :: "aw_cfg \<Rightarrow> nat \<Rightarrow> aw_pc \<Rightarrow> aw_cfg \<Rightarrow> bool" where
  "aw_mutex_move c t p c' \<longleftrightarrow>
     (if aw_holds p then (ac_owner c = None \<or> ac_owner c = Some t) \<and> ac_owner c' = Some t
      else ac_owner c' = (if aw_holds (ac_pc c t) then None else ac_owner c))"

lemma aw_own_move:
  assumes "aw_inv rec N ws c" and "t < N" and "ac_pc c' = (ac_pc c)(t := p)" and "aw_mutex_move c t p c'" and "k < N"
  shows "aw_holds (ac_pc c' k) \<longleftrightarrow> ac_owner c' = Some k"
  using aw_invD(3) [OF assms(1,2)] aw_invD(3) [OF assms(1,5)] assms(3,4)
  by (cases "aw_holds p") (auto simp: aw_mutex_move_def split: if_splits)

text \<open>Entering and leaving a wait: one frame appears or disappears.\<close>

lemma aw_inv_frame:
  assumes inv: "aw_inv rec N ws c" and inj: "inj_on rec {..<N}" and t: "t < N"
    and c': "ac_slot c' = (ac_slot c)\<lparr>sl_heap := (sl_heap (ac_slot c))(rec t := x)\<rparr>"
      "ac_pc c' = (ac_pc c)(t := p)" "ac_bad c' = ac_bad c" "ac_marked c' = ac_marked c"
      "ac_handed c' = ac_handed c"
    and p: "aw_key (ac_pc c t) = None" "aw_key p = None" "aw_framed p \<longleftrightarrow> x \<noteq> None"
      "\<not> aw_asleep p" "\<not> aw_casting (ac_pc c t)"
    and mv: "aw_mutex_move c t p c'"
  shows "aw_inv rec N ws c'"
proof -
  note own = aw_own_move [OF inv t c'(2) mv]
  have ne: "rec k \<noteq> rec t" if "k < N" "k \<noteq> t" for k
    using inj t that by (auto simp: inj_on_def)
  have notin: "rec t \<notin> set ws"
    using aw_rec_queued [OF inv inj t] p(1) by simp
  have w: "aw_is_woken (ac_slot c') (rec k) \<longleftrightarrow> aw_is_woken (ac_slot c) (rec k)" if "k < N" "k \<noteq> t" for k
    using ne [OF that] by (simp add: aw_is_woken_def c')
  have q: "aw_queued rec N c' = aw_queued rec N c" "aw_handed_over rec N c' = aw_handed_over rec N c"
    using w p(1,2) by (auto simp: aw_queued_def aw_handed_over_def c')
  show ?thesis
    unfolding aw_inv_def
  proof (intro conjI allI impI)
    show "aw_rep (ac_slot c') ws"
      unfolding c' using aw_invD(2) [OF inv] notin by (rule aw_rep_touch)
    show "sl_heap (ac_slot c') (rec k) \<noteq> None \<longleftrightarrow> aw_framed (ac_pc c' k)" if "k < N" for k
      using aw_invD(4) [OF inv that] ne [OF that] p(3) by (auto simp: c')
    show "map_option aw_addr (sl_heap (ac_slot c') (rec k)) = Some a"
      if "k < N" "aw_key (ac_pc c' k) = Some a" for k a
    proof -
      have "k \<noteq> t" using that(2) p(2) by (auto simp: c')
      then show ?thesis
        using aw_invD(5) [OF inv that(1)] that(2) ne [OF that(1)] by (simp add: c')
    qed
    show "\<exists>k < N. aw_casting (ac_pc c' k)"
      if k: "k < N" "aw_asleep (ac_pc c' k)" "aw_is_woken (ac_slot c') (rec k)" for k
    proof -
      have "k \<noteq> t" using k(2) p(4) by (auto simp: c')
      then obtain j where "j < N" "aw_casting (ac_pc c j)"
        using aw_invD(7) [OF inv k(1)] k(2,3) w [OF k(1)] by (auto simp: c')
      then show ?thesis using p(5) by (auto simp: c' intro!: exI [of _ j])
    qed
  qed (use aw_invD [OF inv] q own in \<open>simp_all add: c'\<close>)
qed

text \<open>Arming: the record joins the end of the list.\<close>

lemma aw_inv_arm:
  assumes inv: "aw_inv rec N ws c" and inj: "inj_on rec {..<N}" and nz: "rec t \<noteq> 0" and t: "t < N"
    and pc: "ac_pc c t = AArm a e tm" and p: "aw_key p = Some a" "aw_framed p"
    and arm: "aw_arm (rec t) a (ac_slot c) = Some s"
    and c': "ac_slot c' = s" "ac_pc c' = (ac_pc c)(t := p)" "ac_bad c' = ac_bad c"
      "ac_marked c' = ac_marked c" "ac_handed c' = ac_handed c"
    and mv: "aw_mutex_move c t p c'"
  shows "aw_inv rec N (ws @ [rec t]) c'"
proof -
  note own = aw_own_move [OF inv t c'(2) mv]
  have ne: "rec k \<noteq> rec t" if "k < N" "k \<noteq> t" for k
    using inj t that by (auto simp: inj_on_def)
  have notin: "rec t \<notin> set ws"
    using aw_rec_queued [OF inv inj t] pc by simp
  have live: "sl_heap (ac_slot c) (rec t) \<noteq> None"
    using aw_invD(4) [OF inv t] pc by simp
  have s: "aw_rep s (ws @ [rec t])" "map_option aw_addr (sl_heap s (rec t)) = Some a"
    "\<And>v. v \<noteq> rec t \<Longrightarrow> map_option aw_addr (sl_heap s v) = map_option aw_addr (sl_heap (ac_slot c) v)"
    "\<And>v. aw_is_woken s v \<longleftrightarrow> v \<noteq> rec t \<and> aw_is_woken (ac_slot c) v"
    using aw_arm_rep [OF aw_invD(2) [OF inv] notin nz live, of a] arm by auto
  have live': "sl_heap s v = None \<longleftrightarrow> sl_heap (ac_slot c) v = None" if "v \<noteq> rec t" for v
    using s(3) [OF that] by (metis map_option_is_None)
  have q: "aw_queued rec N c' = insert t (aw_queued rec N c)"
    "aw_handed_over rec N c' = aw_handed_over rec N c"
    using t ne pc p(1) by (auto simp: aw_queued_def aw_handed_over_def c' s(4))
  show ?thesis
    unfolding aw_inv_def
  proof (intro conjI allI impI)
    show "sl_heap (ac_slot c') (rec k) \<noteq> None \<longleftrightarrow> aw_framed (ac_pc c' k)" if "k < N" for k
      using aw_invD(4) [OF inv that] ne [OF that] live' [of "rec k"] p(2) s(2) by (auto simp: c')
    show "map_option aw_addr (sl_heap (ac_slot c') (rec k)) = Some b"
      if "k < N" "aw_key (ac_pc c' k) = Some b" for k b
      using aw_invD(5) [OF inv that(1), of b] that(2) ne [OF that(1)] s(2,3) p(1)
      by (cases "k = t") (simp_all add: c')
    show "\<exists>j < N. aw_casting (ac_pc c' j)"
      if k: "k < N" "aw_asleep (ac_pc c' k)" "aw_is_woken (ac_slot c') (rec k)" for k
    proof -
      have "k \<noteq> t" using k(3) by (auto simp: c' s(4))
      then obtain j where "j < N" "aw_casting (ac_pc c j)"
        using aw_invD(7) [OF inv k(1)] k(2,3) by (auto simp: c' s(4))
      then show ?thesis using pc by (auto simp: c' intro!: exI [of _ j])
    qed
    show "set (ws @ [rec t]) = rec ` aw_queued rec N c'"
      using aw_invD(6) [OF inv] by (simp add: q)
  qed (use aw_invD [OF inv] q own s(1) in \<open>simp_all add: c'\<close>)
qed

text \<open>
  A step that changes list and marks but no frames: the invariant afterwards, from what the step did
  to the list, the mutex and the marks.
\<close>

lemma aw_inv_relink:
  assumes inv: "aw_inv rec N ws c" and t: "t < N"
    and c': "ac_slot c' = s" "ac_pc c' = (ac_pc c)(t := p)" "ac_bad c' = ac_bad c"
    and s: "aw_rep s ws'" "aw_same (ac_slot c) s"
    and p: "aw_framed p = aw_framed (ac_pc c t)" "aw_key p = None"
    and own: "\<And>k. k < N \<Longrightarrow> aw_holds (ac_pc c' k) \<longleftrightarrow> ac_owner c' = Some k"
    and ws': "set ws' = rec ` aw_queued rec N c'"
    and casting: "\<And>k. k < N \<Longrightarrow> aw_asleep (ac_pc c' k) \<Longrightarrow> aw_is_woken (ac_slot c') (rec k) \<Longrightarrow> \<exists>j < N. aw_casting (ac_pc c' j)"
    and marked: "ac_marked c' = ac_handed c' + card (aw_handed_over rec N c')"
  shows "aw_inv rec N ws' c'"
  unfolding aw_inv_def
proof (intro conjI allI impI)
  show "sl_heap (ac_slot c') (rec k) \<noteq> None \<longleftrightarrow> aw_framed (ac_pc c' k)" if "k < N" for k
    using aw_invD(4) [OF inv that] aw_same_live [OF s(2), of "rec k"] p(1) by (auto simp: c')
  show "map_option aw_addr (sl_heap (ac_slot c') (rec k)) = Some b"
    if "k < N" "aw_key (ac_pc c' k) = Some b" for k b
    using aw_invD(5) [OF inv that(1), of b] that(2) s(2) p(2) by (cases "k = t") (simp_all add: c' aw_same_def)
qed (use aw_invD(1) [OF inv] s(1) own ws' casting marked in \<open>simp_all add: c'\<close>)

text \<open>What a thread that is back from its wait finds, and the list without its record.\<close>

lemma aw_resume_known:
  assumes inv: "aw_inv rec N ws c" and t: "t < N" and pc: "ac_pc c t = ABack a e tm rc"
    and res: "aw_resume (rec t) rc (ac_slot c) = Some (r, s)"
  shows "aw_rep s (if aw_is_woken (ac_slot c) (rec t) then ws else remove1 (rec t) ws)"
    and "aw_same (ac_slot c) s" and "aw_is_woken s v \<longleftrightarrow> aw_is_woken (ac_slot c) v"
proof -
  let ?w = "aw_is_woken (ac_slot c) (rec t)"
  have live: "sl_heap (ac_slot c) (rec t) \<noteq> None"
    using aw_invD(4) [OF inv t] pc by simp
  obtain s0 where s0: "aw_resume (rec t) rc (ac_slot c) =
      Some (if ?w then Some 0 else if rc \<noteq> 0 then Some rc else None, s0)"
    "aw_rep s0 (if ?w then ws else remove1 (rec t) ws)" "aw_same (ac_slot c) s0"
    "\<And>v. aw_is_woken s0 v \<longleftrightarrow> aw_is_woken (ac_slot c) v"
    using aw_resume_rep [OF aw_invD(2) [OF inv] live, of rc] by metis
  have "s0 = s" using s0(1) res by simp
  then show "aw_rep s (if ?w then ws else remove1 (rec t) ws)" "aw_same (ac_slot c) s"
    "aw_is_woken s v \<longleftrightarrow> aw_is_woken (ac_slot c) v"
    using s0(2-4) by simp_all
qed

lemma aw_queued_without:
  assumes inv: "aw_inv rec N ws c" and inj: "inj_on rec {..<N}" and t: "t < N"
  shows "set (remove1 (rec t) ws) = rec ` (aw_queued rec N c - {t})"
proof -
  have "inj_on rec (insert t (aw_queued rec N c))"
    using t by (intro inj_on_subset [OF inj]) (auto simp: aw_queued_def)
  then have "rec ` (aw_queued rec N c - {t}) = rec ` aw_queued rec N c - {rec t}"
    using inj_on_image_set_diff [of rec "insert t (aw_queued rec N c)" "aw_queued rec N c" "{t}"] by auto
  then show ?thesis
    using aw_invD(2,6) [OF inv] by (simp add: aw_rep_def)
qed

text \<open>Back from the wait: the record leaves the list, or was handed over and is accounted for.\<close>

lemma aw_inv_back:
  assumes inv: "aw_inv rec N ws c" and inj: "inj_on rec {..<N}" and t: "t < N"
    and pc: "ac_pc c t = ABack a e tm rc" and p: "aw_key p = None" "aw_framed p" "\<not> aw_asleep p"
    and res: "aw_resume (rec t) rc (ac_slot c) = Some (r, s)"
    and c': "ac_slot c' = s" "ac_pc c' = (ac_pc c)(t := p)" "ac_bad c' = ac_bad c"
      "ac_marked c' = ac_marked c"
      "ac_handed c' = ac_handed c + of_bool (aw_is_woken (ac_slot c) (rec t))"
    and mv: "aw_mutex_move c t p c'"
  shows "\<exists>ws'. aw_inv rec N ws' c'"
proof -
  let ?w = "aw_is_woken (ac_slot c) (rec t)"
  let ?ws = "if ?w then ws else remove1 (rec t) ws"
  note s = aw_resume_known [OF inv t pc res]
  have q: "aw_queued rec N c' = aw_queued rec N c - {t}"
    "aw_handed_over rec N c' = aw_handed_over rec N c - {t}"
    "t \<in> aw_queued rec N c \<longleftrightarrow> \<not> ?w" "t \<in> aw_handed_over rec N c \<longleftrightarrow> ?w"
    using t pc p(1) by (auto simp: aw_queued_def aw_handed_over_def c' s(3))
  have fin: "finite (aw_handed_over rec N c)"
    by (simp add: aw_handed_over_def)
  have casting: "\<exists>j < N. aw_casting (ac_pc c' j)"
    if k: "k < N" "aw_asleep (ac_pc c' k)" "aw_is_woken (ac_slot c') (rec k)" for k
  proof -
    have "k \<noteq> t" using k(2) p(3) by (auto simp: c')
    then obtain j where "j < N" "aw_casting (ac_pc c j)"
      using aw_invD(7) [OF inv k(1)] k(2,3) by (auto simp: c' s(3))
    then show ?thesis using pc by (auto simp: c' intro!: exI [of _ j])
  qed
  have "set ?ws = rec ` aw_queued rec N c'"
    using q(1,3) aw_queued_without [OF inv inj t] aw_invD(6) [OF inv] by simp
  moreover have "ac_marked c' = ac_handed c' + card (aw_handed_over rec N c')"
    using aw_invD(8) [OF inv] q(2,4) card_Suc_Diff1 [OF fin, of t] by (cases ?w) (simp_all add: c')
  ultimately have "aw_inv rec N ?ws c'"
    using p(1,2) pc by (intro aw_inv_relink [OF inv t c'(1,2,3) s(1,2) _ _ aw_own_move [OF inv t c'(2) mv] _ casting]) simp_all
  then show ?thesis ..
qed

text \<open>The threads whose records a wake picks.\<close>

lemma aw_picked_threads:
  assumes inv: "aw_inv rec N ws c" and inj: "inj_on rec {..<N}"
    and P_def: "P = {k. k < N \<and> rec k \<in> set (aw_picked (ac_slot c) a every ws)}"
  shows "P \<subseteq> aw_queued rec N c" and "rec ` P = set (aw_picked (ac_slot c) a every ws)"
    and "card P = length (aw_picked (ac_slot c) a every ws)" and "aw_handed_over rec N c \<inter> P = {}"
proof -
  have sub: "set (aw_picked (ac_slot c) a every ws) \<subseteq> set ws"
    by (rule aw_picked_subset)
  show P: "P \<subseteq> aw_queued rec N c"
    using sub aw_rec_queued [OF inv inj] by (auto simp: P_def aw_queued_def)
  show img: "rec ` P = set (aw_picked (ac_slot c) a every ws)"
    using sub aw_invD(6) [OF inv] by (auto simp: P_def aw_queued_def)
  have "distinct (aw_picked (ac_slot c) a every ws)"
    using aw_invD(2) [OF inv] by (simp add: aw_picked_def aw_rep_def Let_def)
  moreover have "inj_on rec P"
    by (rule inj_on_subset [OF inj]) (auto simp: P_def)
  ultimately show "card P = length (aw_picked (ac_slot c) a every ws)"
    by (metis card_image distinct_card img)
  show "aw_handed_over rec N c \<inter> P = {}"
    using P by (auto simp: aw_queued_def aw_handed_over_def)
qed

text \<open>Marking: the picked records leave the list and are handed over.\<close>

lemma aw_inv_mark:
  assumes inv: "aw_inv rec N ws c" and inj: "inj_on rec {..<N}" and t: "t < N"
    and pc: "ac_pc c t = KMark a every"
    and wake: "wake_loop a every HeadField 0 (ac_slot c) = Some (n, s)"
  shows "aw_inv rec N (filter (\<lambda>w. w \<notin> set (aw_picked (ac_slot c) a every ws)) ws)
      ((aw_at t (KCast n) c)\<lparr>ac_slot := s, ac_marked := ac_marked c + nat n\<rparr>)"
    and "n = int (length (aw_picked (ac_slot c) a every ws))"
    and "\<And>v. aw_is_woken s v \<longleftrightarrow> v \<in> set (aw_picked (ac_slot c) a every ws) \<or> aw_is_woken (ac_slot c) v"
proof -
  let ?p = "aw_picked (ac_slot c) a every ws"
  let ?ws = "filter (\<lambda>w. w \<notin> set ?p) ws"
  let ?c = "(aw_at t (KCast n) c)\<lparr>ac_slot := s, ac_marked := ac_marked c + nat n\<rparr>"
  obtain s0 where s0: "wake_loop a every HeadField 0 (ac_slot c) = Some (int (length ?p), s0)"
    "aw_rep s0 ?ws" "aw_same (ac_slot c) s0"
    "\<And>v. aw_is_woken s0 v \<longleftrightarrow> v \<in> set ?p \<or> aw_is_woken (ac_slot c) v"
    using wake_loop_rep [OF aw_invD(2) [OF inv], of a every] by metis
  have eq: "n = int (length ?p)" "s0 = s"
    using s0(1) wake by simp_all
  note s = s0(2-4) [unfolded eq(2)]
  show "n = int (length ?p)" "\<And>v. aw_is_woken s v \<longleftrightarrow> v \<in> set ?p \<or> aw_is_woken (ac_slot c) v"
    by (rule eq, rule s)
  define P where "P = {k. k < N \<and> rec k \<in> set ?p}"
  note ws = aw_invD(6) [OF inv] and pick = aw_picked_threads [OF inv inj P_def]
  have q: "aw_queued rec N ?c = aw_queued rec N c - P"
    "aw_handed_over rec N ?c = aw_handed_over rec N c \<union> P"
    using pick(1) pc by (auto simp: aw_queued_def aw_handed_over_def P_def s(3))
  have fin: "finite (aw_handed_over rec N c)" "finite P"
    by (simp_all add: aw_handed_over_def P_def)
  have casting: "\<exists>j < N. aw_casting (ac_pc ?c j)"
    if k: "k < N" "aw_asleep (ac_pc ?c k)" "aw_is_woken (ac_slot ?c) (rec k)" for k
  proof (cases "rec k \<in> set ?p")
    case True
    then have "0 < n" using eq(1) by (cases ?p) auto
    then show ?thesis using t by (auto intro!: exI [of _ t])
  next
    case False
    then obtain j where "j < N" "aw_casting (ac_pc c j)"
      using aw_invD(7) [OF inv k(1)] k(2,3) by (auto simp: s(3) split: if_splits)
    then show ?thesis using pc by (auto intro!: exI [of _ j])
  qed
  have "inj_on rec (aw_queued rec N c)"
    by (rule inj_on_subset [OF inj]) (auto simp: aw_queued_def)
  then have "rec ` (aw_queued rec N c - P) = rec ` aw_queued rec N c - rec ` P"
    using pick(1) by (intro inj_on_image_set_diff) auto
  then have set: "set ?ws = rec ` aw_queued rec N ?c"
    unfolding q pick(2) ws [symmetric] by auto
  have marked: "ac_marked ?c = ac_handed ?c + card (aw_handed_over rec N ?c)"
    unfolding q card_Un_disjoint [OF fin pick(4)] pick(3) using aw_invD(8) [OF inv] eq(1) by simp
  have own: "aw_holds (ac_pc ?c k) \<longleftrightarrow> ac_owner ?c = Some k" if "k < N" for k
    using aw_invD(3) [OF inv that] aw_invD(3) [OF inv t] pc by auto
  show "aw_inv rec N ?ws ?c"
    by (rule aw_inv_relink [OF inv t _ _ _ s(1,2) _ _ own set casting marked, where p = "KCast n"]) (simp_all add: pc)
qed

text \<open>No access of a step hits a dead frame.\<close>

lemma aw_no_fault:
  assumes inv: "aw_inv rec N ws c" and inj: "inj_on rec {..<N}" and nz: "rec t \<noteq> 0" and t: "t < N"
  shows "ac_pc c t = AArm a e tm \<Longrightarrow> aw_arm (rec t) a (ac_slot c) \<noteq> None"
    and "ac_pc c t = ABack a e tm rc \<Longrightarrow> aw_resume (rec t) rc (ac_slot c) \<noteq> None"
    and "wake_loop a every HeadField 0 (ac_slot c) \<noteq> None"
proof -
  have live: "sl_heap (ac_slot c) (rec t) \<noteq> None" if "aw_framed (ac_pc c t)"
    using aw_invD(4) [OF inv t] that by simp
  show "aw_arm (rec t) a (ac_slot c) \<noteq> None" if "ac_pc c t = AArm a e tm"
  proof -
    have "rec t \<notin> set ws" using aw_rec_queued [OF inv inj t] that by simp
    then show ?thesis
      using aw_arm_rep [OF aw_invD(2) [OF inv] _ nz live, of a] that by auto
  qed
  show "aw_resume (rec t) rc (ac_slot c) \<noteq> None" if "ac_pc c t = ABack a e tm rc"
  proof -
    have "sl_heap (ac_slot c) (rec t) \<noteq> None" using live that by simp
    from aw_resume_rep [OF aw_invD(2) [OF inv] this, of rc] show ?thesis
      by (metis option.distinct(1))
  qed
  show "wake_loop a every HeadField 0 (ac_slot c) \<noteq> None"
    using wake_loop_rep [OF aw_invD(2) [OF inv], of a every] by (metis option.distinct(1))
qed

lemma aw_again_unwoken:
  assumes inv: "aw_inv rec N ws c" and "t < N" and "ac_pc c t = ABack a e tm rc"
    and "aw_resume (rec t) rc (ac_slot c) = Some (None, s)"
  shows "\<not> aw_is_woken (ac_slot c) (rec t)"
proof -
  have "sl_heap (ac_slot c) (rec t) \<noteq> None" using aw_invD(4) [OF inv assms(2)] assms(3) by simp
  then obtain s0 where "aw_resume (rec t) rc (ac_slot c) =
      Some (if aw_is_woken (ac_slot c) (rec t) then Some 0 else if rc \<noteq> 0 then Some rc else None, s0)"
    using aw_resume_rep [OF aw_invD(2) [OF inv], of "rec t" rc] by metis
  then show ?thesis using assms(4) by auto
qed

text \<open>The quiet moves.\<close>

lemma aw_inv_move:
  assumes inv: "aw_inv rec N ws c" and t: "t < N" and pc: "ac_pc c' = (ac_pc c)(t := p)"
    and same: "ac_slot c' = ac_slot c" "ac_bad c' = ac_bad c" "ac_marked c' = ac_marked c"
      "ac_handed c' = ac_handed c"
    and p: "aw_framed p \<longleftrightarrow> aw_framed (ac_pc c t)" "aw_key p = aw_key (ac_pc c t)"
      "\<not> aw_asleep p" "\<not> aw_casting (ac_pc c t)"
    and mv: "aw_mutex_move c t p c'"
  shows "\<exists>ws'. aw_inv rec N ws' c'"
proof -
  have "\<exists>k < N. aw_casting (ac_pc c' k)"
    if k: "k < N" "aw_asleep (ac_pc c' k)" "aw_is_woken (ac_slot c) (rec k)" for k
  proof -
    have "aw_asleep (ac_pc c k)" using k(2) p(3) pc by (auto split: if_splits)
    then obtain j where "j < N" "aw_casting (ac_pc c j)"
      using aw_invD(7) [OF inv k(1)] k(3) by blast
    then show ?thesis using p(4) pc by (auto intro!: exI [of _ j])
  qed
  then have "aw_inv rec N ws c'"
    using same p(1,2) pc by (intro aw_inv_quiet [OF inv] aw_own_move [OF inv t pc mv]) auto
  then show ?thesis ..
qed

text \<open>Every step keeps the invariant.\<close>

lemma awstep_inv:
  assumes step: "awstep rec N c c'" and inv: "aw_inv rec N ws c" and inj: "inj_on rec {..<N}"
    and nz: "\<And>t. t < N \<Longrightarrow> rec t \<noteq> 0"
  shows "\<exists>ws'. aw_inv rec N ws' c'"
proof -
  note o = aw_invD(3) [OF inv] aw_mutex_move_def
  have o': "aw_holds p \<longleftrightarrow> ac_owner c = Some t" if "ac_pc c t = p" "t < N" for p t
    using o(1) [OF that(2)] that(1) by simp
  show ?thesis
    using step
  proof (cases rule: awstep.cases)
    case (sleep t a e tm s)
    show ?thesis
      by (rule exI, rule aw_inv_arm [OF inv inj nz [OF sleep(2)] sleep(2,3) _ _ sleep(4), where p = "ASleep a e tm"])
        (use sleep(1-3) o(1) [OF sleep(2)] o(2) in \<open>simp_all\<close>)
  next
    case (sleep_refused t a e tm s rc)
    show ?thesis
      by (rule exI, rule aw_inv_arm [OF inv inj nz [OF sleep_refused(2)] sleep_refused(2,3) _ _ sleep_refused(4),
            where p = "ABack a e tm rc"]) (use sleep_refused(1-3) o(1) [OF sleep_refused(2)] o(2) in \<open>simp_all\<close>)
  next
    case (again t a e tm rc s)
    show ?thesis
      by (rule aw_inv_back [OF inv inj again(2,3) _ _ _ again(4), where p = "ACheck a e tm"])
        (use again(1-3) o(1) [OF again(2)] o(2) aw_again_unwoken [OF inv again(2-4)] in \<open>simp_all\<close>)
  next
    case (decided t a e tm rc v s)
    show ?thesis
      by (rule aw_inv_back [OF inv inj decided(2,3) _ _ _ decided(4), where p = "AUnlock v"])
        (use decided(1-3) o(1) [OF decided(2)] o(2) in \<open>simp_all\<close>)
  next
    case (mark t a every n s)
    then show ?thesis using aw_inv_mark(1) [OF inv inj mark(2-4)] by blast
  next
    case (call_wait t junk a e tm)
    show ?thesis
      by (rule exI, rule aw_inv_frame [OF inv inj call_wait(2), where p = "ALock a e tm" and x = "Some junk"])
        (use call_wait(1-3) o(1) [OF call_wait(2)] o(2) in \<open>simp_all add: aw_frame_def\<close>)
  next
    case (wait_lock_failed t a e tm err)
    show ?thesis
      by (rule exI, rule aw_inv_frame [OF inv inj wait_lock_failed(2), where p = AOut and x = None])
        (use wait_lock_failed(1-3) o(1) [OF wait_lock_failed(2)] o(2) in \<open>simp_all add: aw_frame_def\<close>)
  next
    case (wait_unlock t rc)
    show ?thesis
      by (rule exI, rule aw_inv_frame [OF inv inj wait_unlock(2), where p = AOut and x = None])
        (use wait_unlock(1-3) o(1) [OF wait_unlock(2)] o(2) in \<open>simp_all add: aw_frame_def\<close>)
  next
    case (cast t n)
    show ?thesis
      by (rule exI, rule aw_inv_quiet [OF inv])
        (use cast aw_invD(3) [OF inv] aw_invD(3) [OF inv cast(2)] in \<open>auto split: if_splits\<close>)
  next
    case (store a v)
    show ?thesis
      by (rule exI, rule aw_inv_quiet [OF inv]) (use store aw_invD(3,7) [OF inv] in auto)
  qed (use aw_no_fault [OF inv inj nz] in \<open>auto intro!: aw_inv_move [OF inv] dest: o' simp: aw_mutex_move_def\<close>)
qed

lemma aw_start_inv: "aw_inv rec N [] (aw_start s word)"
  by (simp add: aw_inv_def aw_start_def aw_rep_def aw_queued_def aw_handed_over_def)

lemma awstep_reachable_inv:
  assumes "(awstep rec N)\<^sup>*\<^sup>* (aw_start s word) c" and "inj_on rec {..<N}" and "\<And>t. t < N \<Longrightarrow> rec t \<noteq> 0"
  shows "\<exists>ws. aw_inv rec N ws c"
  using assms(1)
proof (induction rule: rtranclp_induct)
  case base
  show ?case using aw_start_inv by blast
next
  case (step c c')
  then show ?case using awstep_inv assms(2,3) by metis
qed

text \<open>The threads that wait on \<open>a\<close> and have not been handed a wake.\<close>

definition aw_waiting :: "(nat \<Rightarrow> addr) \<Rightarrow> nat \<Rightarrow> addr \<Rightarrow> aw_cfg \<Rightarrow> nat set" where
  "aw_waiting rec N a c = {t. t < N \<and> aw_key (ac_pc c t) = Some a \<and> \<not> aw_is_woken (ac_slot c) (rec t)}"

lemma aw_matches:
  assumes inv: "aw_inv rec N ws c" and inj: "inj_on rec {..<N}"
  shows "set (filter (\<lambda>w. map_option aw_addr (sl_heap (ac_slot c) w) = Some a) ws)
      = rec ` aw_waiting rec N a c"
    and "length (filter (\<lambda>w. map_option aw_addr (sl_heap (ac_slot c) w) = Some a) ws)
      = card (aw_waiting rec N a c)"
proof -
  have key: "map_option aw_addr (sl_heap (ac_slot c) (rec t)) = Some a \<longleftrightarrow> aw_key (ac_pc c t) = Some a"
    if "t \<in> aw_queued rec N c" for t
    using aw_invD(5) [OF inv, of t] that by (auto simp: aw_queued_def)
  show eq: "set (filter (\<lambda>w. map_option aw_addr (sl_heap (ac_slot c) w) = Some a) ws)
      = rec ` aw_waiting rec N a c"
    unfolding set_filter aw_invD(6) [OF inv]
    using key by (auto simp: aw_waiting_def aw_queued_def image_iff)
  have "distinct (filter (\<lambda>w. map_option aw_addr (sl_heap (ac_slot c) w) = Some a) ws)"
    using aw_invD(2) [OF inv] by (simp add: aw_rep_def)
  moreover have "inj_on rec (aw_waiting rec N a c)"
    by (rule inj_on_subset [OF inj]) (auto simp: aw_waiting_def)
  ultimately show "length (filter (\<lambda>w. map_option aw_addr (sl_heap (ac_slot c) w) = Some a) ws)
      = card (aw_waiting rec N a c)"
    by (metis card_image distinct_card eq)
qed

text \<open>A run: thread 0 waits on the word at 100 and falls asleep, thread 1 is about to wake it.\<close>

definition demo_rec :: "nat \<Rightarrow> addr" where
  "demo_rec t = (if t = 0 then 16 else if t = 1 then 32 else 0)"

lemma demo_rec: "inj_on demo_rec {..<2}" "t < 2 \<Longrightarrow> demo_rec t \<noteq> 0"
  by (auto simp: inj_on_def demo_rec_def less_2_cases_iff)

text \<open>The threads a wake marks: those whose records are woken in the slot \<open>s'\<close> and were not in \<open>s\<close>.\<close>

definition aw_newly :: "(nat \<Rightarrow> addr) \<Rightarrow> nat \<Rightarrow> aw_slot \<Rightarrow> aw_slot \<Rightarrow> nat set" where
  "aw_newly rec N s s' = {t. t < N \<and> aw_is_woken s' (rec t) \<and> \<not> aw_is_woken s (rec t)}"

lemma aw_newly_picked:
  assumes inv: "aw_inv rec N ws c" and inj: "inj_on rec {..<N}" and k: "k < N" "ac_pc c k = KMark a every"
    and w: "wake_loop a every HeadField 0 (ac_slot c) = Some (n, s')"
  shows "n = int (card (aw_newly rec N (ac_slot c) s'))"
    and "aw_newly rec N (ac_slot c) s' \<subseteq> aw_waiting rec N a c"
    and "every \<longrightarrow> aw_newly rec N (ac_slot c) s' = aw_waiting rec N a c"
    and "\<not> every \<longrightarrow> card (aw_newly rec N (ac_slot c) s') = min 1 (card (aw_waiting rec N a c))"
proof -
  let ?W = "aw_waiting rec N a c" and ?M = "aw_newly rec N (ac_slot c) s'"
  define m where "m = filter (\<lambda>w. map_option aw_addr (sl_heap (ac_slot c) w) = Some a) ws"
  define p where "p = (if every then m else take 1 m)"
  note mt = aw_matches [OF inv inj, of a, folded m_def]
  have pk: "aw_picked (ac_slot c) a every ws = p"
    by (simp add: aw_picked_def Let_def p_def m_def)
  note r = aw_inv_mark(2,3) [OF inv inj k w, unfolded pk]
  have inW: "inj_on rec ?W"
    using inj by (rule inj_on_subset) (auto simp: aw_waiting_def)
  have "card (set m) = length m"
    unfolding mt using card_image [OF inW] .
  then have dm: "distinct m" by (rule card_distinct)
  then have dp: "distinct p" by (simp add: p_def)
  have sub: "set p \<subseteq> rec ` ?W"
    using set_take_subset [of 1 m] mt(1) by (auto simp: p_def split: if_splits)
  have M: "?M = {t \<in> ?W. rec t \<in> set p}"
    using sub inj_onD [OF inj] by (fastforce simp: aw_newly_def r(2) aw_waiting_def)
  then show "?M \<subseteq> ?W" by blast
  have img: "rec ` ?M = set p"
    using sub unfolding M by blast
  have "inj_on rec ?M"
    using inW \<open>?M \<subseteq> ?W\<close> by (rule inj_on_subset)
  from card_image [OF this] have card: "card ?M = length p"
    unfolding img distinct_card [OF dp] ..
  with r(1) show "n = int (card ?M)" by simp
  show "every \<longrightarrow> ?M = ?W"
    using mt(1) by (auto simp: M p_def)
  show "\<not> every \<longrightarrow> card ?M = min 1 (card ?W)"
    unfolding card using mt(2) by (simp add: p_def min_def)
qed

lemma aw_demo_run:
  "\<exists>c. (awstep demo_rec 2)\<^sup>*\<^sup>* (aw_start demo_slot (\<lambda>_. 0)) c \<and> ac_pc c 1 = KMark 100 True \<and>
     ac_pc c 0 = ASleep 100 0 True \<and> aw_waiting demo_rec 2 100 c = {0}"
proof -
  let ?r = "\<lparr>aw_addr = 0, aw_woken = True, aw_linked = False, aw_next = 7\<rparr>"
  let ?A = "awstep demo_rec 2"
  define c0 where "c0 = aw_start demo_slot (\<lambda>_. 0)"
  define c1 where "c1 = aw_frame (demo_rec 0) (Some ?r) (aw_at 0 (ALock 100 0 True) c0)"
  define c2 where "c2 = (aw_at 0 (ACheck 100 0 True) c1)\<lparr>ac_owner := Some 0\<rparr>"
  define c3 where "c3 = aw_at 0 (AArm 100 0 True) c2"
  define s where "s = the (aw_arm (demo_rec 0) 100 (ac_slot c3))"
  define c4 where "c4 = (aw_at 0 (ASleep 100 0 True) c3)\<lparr>ac_slot := s, ac_owner := None\<rparr>"
  define c5 where "c5 = aw_at 1 (KLock 100 True) c4"
  define c6 where "c6 = (aw_at 1 (KMark 100 True) c5)\<lparr>ac_owner := Some 1\<rparr>"
  have s: "aw_arm (demo_rec 0) 100 (ac_slot c3) = Some s" "\<not> aw_is_woken s 16"
    by (simp_all add: s_def c3_def c2_def c1_def c0_def aw_frame_def aw_start_def demo_slot_def demo_rec_def
        aw_arm_def mjs_aw_link_def aw_is_woken_def Let_def)
  have "?A c0 c1" unfolding c1_def by (rule awstep.call_wait) (simp_all add: c0_def aw_start_def)
  moreover have "?A c1 c2" unfolding c2_def
    by (rule awstep.wait_lock [where e = 0 and tm = True]) (simp_all add: c1_def c0_def aw_start_def)
  moreover have "?A c2 c3" unfolding c3_def
    by (rule awstep.unchanged) (simp_all add: c2_def c1_def c0_def aw_start_def aw_frame_def)
  moreover have "?A c3 c4" unfolding c4_def by (rule awstep.sleep) (use s(1) in \<open>simp_all add: c3_def\<close>)
  moreover have "?A c4 c5" unfolding c5_def
    by (rule awstep.call_wake) (simp_all add: c4_def c3_def c2_def c1_def c0_def aw_start_def)
  moreover have "?A c5 c6" unfolding c6_def
    by (rule awstep.wake_lock) (simp_all add: c5_def c4_def)
  ultimately have "?A\<^sup>*\<^sup>* c0 c6" by (meson converse_rtranclp_into_rtranclp rtranclp.rtrancl_refl)
  moreover have "ac_pc c6 1 = KMark 100 True" "ac_pc c6 0 = ASleep 100 0 True" "ac_slot c6 = s"
    by (simp_all add: c6_def c5_def c4_def)
  moreover from this have "aw_waiting demo_rec 2 100 c6 = {0}"
    using s(2) by (auto simp: aw_waiting_def demo_rec_def less_2_cases_iff)
  ultimately show ?thesis unfolding c0_def by blast
qed

section \<open>Properties\<close>

text \<open>
  (C16) The fallback under every interleaving of any number of waits, timed waits, wakes and
  stores to the words: no step ever touches the record of a wait that has returned, and the
  list holds exactly the records of the threads that wait and have not been handed a wake, so
  none is left behind by a return; at most one thread is in a critical section; no wake-up is
  lost: while the mutex is free, no sleeping thread has been handed a wake it was not roused
  for; and every record a wake marked is accounted for by exactly one wait that returned, or
  will return, because of it.
\<close>
theorem atomic_wait_interleaving:
  assumes "inj_on rec {..<N}" and "\<And>t. t < N \<Longrightarrow> rec t \<noteq> 0"
    and "(awstep rec N)\<^sup>*\<^sup>* (aw_start s word) c"
  shows "\<not> ac_bad c \<and>
    (\<exists>ws. aw_rep (ac_slot c) ws \<and> set ws = rec ` aw_queued rec N c \<and>
       (\<forall>t < N. ac_pc c t = AOut \<longrightarrow> rec t \<notin> set ws)) \<and>
    (\<forall>t < N. \<forall>t' < N. aw_holds (ac_pc c t) \<longrightarrow> aw_holds (ac_pc c t') \<longrightarrow> t = t') \<and>
    (ac_owner c = None \<longrightarrow> (\<forall>t < N. aw_asleep (ac_pc c t) \<longrightarrow> \<not> aw_is_woken (ac_slot c) (rec t))) \<and>
    ac_marked c = ac_handed c + card (aw_handed_over rec N c)"
proof -
  obtain ws where inv: "aw_inv rec N ws c"
    using awstep_reachable_inv [OF assms(3,1,2)] by blast
  have "rec t \<notin> set ws" if "t < N" "ac_pc c t = AOut" for t
    using aw_rec_queued [OF inv assms(1) that(1)] that(2) by simp
  moreover have "t = t'" if "t < N" "t' < N" "aw_holds (ac_pc c t)" "aw_holds (ac_pc c t')" for t t'
    using aw_invD(3) [OF inv that(1)] aw_invD(3) [OF inv that(2)] that(3,4) by simp
  moreover have "\<not> aw_is_woken (ac_slot c) (rec t)"
    if t: "ac_owner c = None" "t < N" "aw_asleep (ac_pc c t)" for t
  proof
    assume "aw_is_woken (ac_slot c) (rec t)"
    then obtain k where k: "k < N" "aw_casting (ac_pc c k)"
      using aw_invD(7) [OF inv t(2,3)] by blast
    then have "aw_holds (ac_pc c k)" by (cases "ac_pc c k") auto
    then show False using aw_invD(3) [OF inv k(1)] t(1) by simp
  qed
  ultimately show ?thesis
    using aw_invD(1,2,6,8) [OF inv] by blast
qed

theorem atomic_wait_interleaving_witness:
  "\<exists>c. (awstep demo_rec 2)\<^sup>*\<^sup>* (aw_start demo_slot (\<lambda>_. 0)) c \<and> ac_pc c 0 = ASleep 100 0 True \<and>
     \<not> ac_bad c \<and> (\<exists>ws. aw_rep (ac_slot c) ws \<and> 16 \<in> set ws)"
proof -
  obtain c where c: "(awstep demo_rec 2)\<^sup>*\<^sup>* (aw_start demo_slot (\<lambda>_. 0)) c" "ac_pc c 0 = ASleep 100 0 True"
    "aw_waiting demo_rec 2 100 c = {0}"
    using aw_demo_run by blast
  have "0 \<in> aw_queued demo_rec 2 c"
    using c(2,3) by (auto simp: aw_waiting_def aw_queued_def)
  then have "16 \<in> demo_rec ` aw_queued demo_rec 2 c"
    by (intro image_eqI [of _ _ 0]) (simp_all add: demo_rec_def)
  then show ?thesis
    using c(1,2) atomic_wait_interleaving [OF demo_rec c(1)] by metis
qed

text \<open>
  (C17) Wakes are exact. Whenever a thread is about to mark, the loop ends, and its count is the
  number of threads that it marks as woken and that were not before. These threads all wait on
  exactly this address; for wake-all they are all of those waiting on it, for wake-one they are
  exactly one of them, or none when none waits. No mark set earlier is lost. A thread that has
  been handed a wake returns 0, whatever its condition variable reported (the wake beats the
  timeout); one that has not returns its timeout or error.
\<close>
theorem atomic_wake_exact:
  assumes "inj_on rec {..<N}" and "\<And>t. t < N \<Longrightarrow> rec t \<noteq> 0"
    and "(awstep rec N)\<^sup>*\<^sup>* (aw_start s word) c"
  shows "(\<forall>k < N. ac_pc c k = KMark a every \<longrightarrow>
       (\<exists>n s'. wake_loop a every HeadField 0 (ac_slot c) = Some (n, s') \<and>
          n = int (card (aw_newly rec N (ac_slot c) s')) \<and>
          aw_newly rec N (ac_slot c) s' \<subseteq> aw_waiting rec N a c \<and>
          (every \<longrightarrow> aw_newly rec N (ac_slot c) s' = aw_waiting rec N a c) \<and>
          (\<not> every \<longrightarrow> card (aw_newly rec N (ac_slot c) s') = min 1 (card (aw_waiting rec N a c))) \<and>
          (\<forall>t < N. aw_is_woken (ac_slot c) (rec t) \<longrightarrow> aw_is_woken s' (rec t)))) \<and>
    (\<forall>t < N. \<forall>b e tm rc. ac_pc c t = ABack b e tm rc \<longrightarrow>
       map_option fst (aw_resume (rec t) rc (ac_slot c)) =
         Some (if aw_is_woken (ac_slot c) (rec t) then Some 0 else if rc \<noteq> 0 then Some rc else None))"
proof -
  obtain ws where inv: "aw_inv rec N ws c"
    using awstep_reachable_inv [OF assms(3,1,2)] by blast
  let ?W = "aw_waiting rec N a c"
  have mark: "\<exists>n s'. wake_loop a every HeadField 0 (ac_slot c) = Some (n, s') \<and>
          n = int (card (aw_newly rec N (ac_slot c) s')) \<and>
          aw_newly rec N (ac_slot c) s' \<subseteq> ?W \<and> (every \<longrightarrow> aw_newly rec N (ac_slot c) s' = ?W) \<and>
          (\<not> every \<longrightarrow> card (aw_newly rec N (ac_slot c) s') = min 1 (card ?W)) \<and>
          (\<forall>t < N. aw_is_woken (ac_slot c) (rec t) \<longrightarrow> aw_is_woken s' (rec t))"
    if k: "k < N" "ac_pc c k = KMark a every" for k
  proof -
    obtain n s' where w: "wake_loop a every HeadField 0 (ac_slot c) = Some (n, s')"
      using aw_no_fault(3) [OF inv assms(1,2) k(1)] k(1) by (metis not_None_eq prod.exhaust)
    then show ?thesis
      using aw_newly_picked [OF inv assms(1) k w] aw_inv_mark(3) [OF inv assms(1) k w]
      by (intro exI [of _ n] exI [of _ s']) simp
  qed
  have res: "map_option fst (aw_resume (rec t) rc (ac_slot c)) =
         Some (if aw_is_woken (ac_slot c) (rec t) then Some 0 else if rc \<noteq> 0 then Some rc else None)"
    if t: "t < N" "ac_pc c t = ABack b e tm rc" for t b e tm rc
  proof -
    have "sl_heap (ac_slot c) (rec t) \<noteq> None" using aw_invD(4) [OF inv t(1)] t(2) by simp
    from aw_resume_rep [OF aw_invD(2) [OF inv] this, of rc] show ?thesis
      by (metis fst_conv option.simps(9))
  qed
  show ?thesis using mark res by blast
qed

theorem atomic_wake_exact_witness:
  "\<exists>c s'. (awstep demo_rec 2)\<^sup>*\<^sup>* (aw_start demo_slot (\<lambda>_. 0)) c \<and>
     wake_loop 100 True HeadField 0 (ac_slot c) = Some (1, s') \<and> aw_is_woken s' 16"
proof -
  obtain c where c: "(awstep demo_rec 2)\<^sup>*\<^sup>* (aw_start demo_slot (\<lambda>_. 0)) c" "ac_pc c 1 = KMark 100 True"
    "aw_waiting demo_rec 2 100 c = {0}"
    using aw_demo_run by blast
  obtain n s' where w: "wake_loop 100 True HeadField 0 (ac_slot c) = Some (n, s')"
    "n = int (card (aw_newly demo_rec 2 (ac_slot c) s'))" "aw_newly demo_rec 2 (ac_slot c) s' = {0}"
    using conjunct1 [OF atomic_wake_exact [OF demo_rec c(1), of 100 True], rule_format, of 1] c(2)
    unfolding c(3) by auto
  then have "0 \<in> aw_newly demo_rec 2 (ac_slot c) s'" by simp
  then have "\<exists>n s'. wake_loop 100 True HeadField 0 (ac_slot c) = Some (n, s') \<and> n = 1 \<and> aw_is_woken s' (demo_rec 0)"
    using w by (simp add: aw_newly_def)
  then show ?thesis using c(1) by (auto simp: demo_rec_def)
qed

text \<open>
  The futex wait returns exactly what the first uninterrupted attempt answers. After any
  number of attempts that a signal interrupted, the first other answer decides: woken or the
  word already changed is 0, a timeout is \<open>-ETIMEDOUT\<close>, any other error is its negation; an
  interruption never reaches the caller. Each attempt passes a normalised relative time that is
  exactly what remains of the deadline, zero when it has passed, and none without a deadline.
\<close>
theorem futex_wait_result:
  assumes "a \<noteq> 0" and "as = pre @ ((crc, now), futex) # post"
    and "\<And>c n f. ((c, n), f) \<in> set pre \<Longrightarrow> (deadline = None \<or> c = 0) \<and>
      f a expected (map_option (\<lambda>d. ns_timespec (futex_span d n)) deadline) = Inl EINTR"
    and "deadline = None \<or> crc = 0"
    and "futex a expected (map_option (\<lambda>d. ns_timespec (futex_span d now)) deadline) = r" and "r \<noteq> Inl EINTR"
  shows "mjs_atomic_wait_on_u32 as a expected deadline =
      Some (case r of Inr _ \<Rightarrow> 0 | Inl err \<Rightarrow> if err = EAGAIN then 0 else - err) \<and>
    (\<forall>d n s k. ns_timespec (futex_span d n) = (s, k) \<longrightarrow> 0 \<le> s \<and> 0 \<le> k \<and> k < 1000000000 \<and>
       s * 1000000000 + k = max 0 (uint d - uint n))"
proof (intro conjI allI)
  have "mjs_atomic_wait_linux as a expected deadline =
      Some (case r of Inr _ \<Rightarrow> 0 | Inl err \<Rightarrow> if err = EAGAIN then 0 else - err)"
    unfolding assms(2) using assms(3)
  proof (induction pre)
    case Nil
    then show ?case using assms(4-6) by (auto split: sum.splits)
  next
    case (Cons x pre)
    obtain c n f where x: "x = ((c, n), f)" by (metis prod.exhaust)
    have "f a expected (map_option (\<lambda>d. ns_timespec (futex_span d n)) deadline) = Inl EINTR"
      "deadline = None \<or> c = 0"
      using Cons.prems [of c n f] x by simp_all
    then show ?case using Cons by (auto simp: x)
  qed
  then show "mjs_atomic_wait_on_u32 as a expected deadline =
      Some (case r of Inr _ \<Rightarrow> 0 | Inl err \<Rightarrow> if err = EAGAIN then 0 else - err)"
    using assms(1) by (simp add: mjs_atomic_wait_on_u32_def)
next
  fix d n :: u64 and s k :: int
  have "uint (futex_span d n) = max 0 (uint d - uint n)"
    by (auto simp: futex_span_def word_le_def uint_sub_if')
  then show "ns_timespec (futex_span d n) = (s, k) \<longrightarrow> 0 \<le> s \<and> 0 \<le> k \<and> k < 1000000000 \<and>
       s * 1000000000 + k = max 0 (uint d - uint n)"
    using ns_timespec_exact [of "futex_span d n" s k] by simp
qed

theorem futex_wait_result_witness:
  "mjs_atomic_wait_on_u32
     [((0, 10), \<lambda>_ _ _. Inl EINTR), ((0, 20), \<lambda>_ _ ts. if ts = Some (0, 80) then Inl ETIMEDOUT else Inr ())]
     4096 1 (Some 100) = Some (- ETIMEDOUT)"
proof -
  have ts: "ns_timespec (futex_span 100 20) = (0, 80)"
    by (simp add: ns_timespec_def futex_span_def)
  show ?thesis
    using futex_wait_result [of 4096 _ "[((0, 10), \<lambda>_ _ _. Inl EINTR)]" 0 20
        "\<lambda>_ _ ts. if ts = Some (0, 80) then Inl ETIMEDOUT else Inr ()" "[]" "Some 100" 1 "Inl ETIMEDOUT"]
    by (simp add: ts)
qed

lemma aw_index_less: "aw_index a < 256"
proof -
  have "unat (x AND 0xFF) \<le> unat (0xFF :: u64)" for x :: u64
    by (intro word_nat(2) [THEN iffD1] word_and_le1)
  then show ?thesis
    unfolding aw_index_def by (rule le_less_trans) simp
qed

definition aw_ready :: "(nat \<Rightarrow> addr option \<times> int \<times> cv_host) \<Rightarrow> nat \<Rightarrow> aw_slot \<Rightarrow> aw_slot" where
  "aw_ready H i s = s\<lparr>sl_mx := the (fst (H i)), sl_cv := the (cv_malloc (snd (snd (H i)))),
     sl_head := 0, sl_tail := HeadField\<rparr>"

text \<open>What the initialisation of one slot returns: the mutex first, then the condition variable.\<close>

definition aw_slot_rc :: "(nat \<Rightarrow> addr option \<times> int \<times> cv_host) \<Rightarrow> nat \<Rightarrow> int" where
  "aw_slot_rc H i =
     (let (mem, mrc, C) = H i
      in if mem = None then - ENOMEM else if mrc \<noteq> 0 then - mrc
         else if cv_malloc C = None then - ENOMEM else - cv_init C)"

definition aw_first_rc :: "(nat \<Rightarrow> addr option \<times> int \<times> cv_host) \<Rightarrow> nat list \<Rightarrow> int" where
  "aw_first_rc H is = (case find (\<lambda>i. aw_slot_rc H i \<noteq> 0) is of None \<Rightarrow> 0 | Some i \<Rightarrow> aw_slot_rc H i)"

lemma aw_init_slot_ok:
  assumes "aw_slot_rc H (256 - Suc k) = 0"
  shows "\<exists>live'. aw_init_loop H (Suc k) tb live =
    aw_init_loop H k (tb\<lparr>tb_slots := (tb_slots tb)[256 - Suc k :=
      aw_ready H (256 - Suc k) (tb_slots tb ! (256 - Suc k))]\<rparr>) live'"
proof -
  obtain mem mrc C where H: "H (256 - Suc k) = (mem, mrc, C)"
    by (metis prod.exhaust)
  with assms obtain m c where "mem = Some m" "mrc = 0" "cv_malloc C = Some c" "cv_init C = 0"
    by (auto simp: aw_slot_rc_def split: if_splits)
  with H show ?thesis
    by (auto simp: mjs_mutex_init_def mjs_condvar_init_mach_def aw_ready_def Let_def)
qed

lemma aw_init_slot_failed:
  assumes "aw_slot_rc H (256 - Suc k) \<noteq> 0"
  shows "\<exists>t1 live'. aw_init_loop H (Suc k) tb live = (t1, live') \<and>
    tb_init_rc t1 = aw_slot_rc H (256 - Suc k) \<and> length (tb_slots t1) = length (tb_slots tb) \<and>
    (\<forall>j. j \<noteq> 256 - Suc k \<longrightarrow> tb_slots t1 ! j = tb_slots tb ! j)"
  using assms by (cases "H (256 - Suc k)")
    (auto simp: aw_slot_rc_def mjs_mutex_init_def mjs_condvar_init_mach_def Let_def split: option.splits)

lemma aw_init_loop_result:
  assumes "length (tb_slots tb) = 256" and "k \<le> 256" and "tb_init_rc tb = 0"
    and "aw_init_loop H k tb live = (tb', live')"
  shows "tb_init_rc tb' = aw_first_rc H [256 - k..<256] \<and> length (tb_slots tb') = 256 \<and>
    (\<forall>j < 256 - k. tb_slots tb' ! j = tb_slots tb ! j) \<and>
    (\<forall>j < 256. 256 - k \<le> j \<longrightarrow> (\<forall>l. 256 - k \<le> l \<and> l \<le> j \<longrightarrow> aw_slot_rc H l = 0) \<longrightarrow>
       tb_slots tb' ! j = aw_ready H j (tb_slots tb ! j))"
  using assms
proof (induction k arbitrary: tb live)
  case 0
  then show ?case by (simp add: aw_first_rc_def)
next
  case (Suc k)
  define i where "i = 256 - Suc k"
  have i: "i < 256" "256 - k = Suc i" "256 - Suc k = i" using Suc.prems(2) by (auto simp: i_def)
  then have upt: "[i..<256] = i # [Suc i..<256]" by (simp add: upt_rec)
  show ?case
  proof (cases "aw_slot_rc H i = 0")
    case True
    let ?tb = "tb\<lparr>tb_slots := (tb_slots tb)[i := aw_ready H i (tb_slots tb ! i)]\<rparr>"
    obtain live1 where "aw_init_loop H k ?tb live1 = (tb', live')"
      using aw_init_slot_ok [of H k tb live] Suc.prems(4) True unfolding i(3) by auto
    then have IH: "tb_init_rc tb' = aw_first_rc H [Suc i..<256]" "length (tb_slots tb') = 256"
      "\<forall>j < Suc i. tb_slots tb' ! j = tb_slots ?tb ! j"
      "\<forall>j < 256. Suc i \<le> j \<longrightarrow> (\<forall>l. Suc i \<le> l \<and> l \<le> j \<longrightarrow> aw_slot_rc H l = 0) \<longrightarrow>
         tb_slots tb' ! j = aw_ready H j (tb_slots ?tb ! j)"
      using Suc.IH [of ?tb live1] Suc.prems(1-3) unfolding i(2) by simp_all
    have "tb_slots tb' ! j = aw_ready H j (tb_slots tb ! j)"
      if "j < 256" "i \<le> j" "\<forall>l. i \<le> l \<and> l \<le> j \<longrightarrow> aw_slot_rc H l = 0" for j
    proof (cases "j = i")
      case True
      then show ?thesis using IH(3) i(1) Suc.prems(1) by simp
    next
      case False
      then show ?thesis using IH(4) that by simp
    qed
    moreover have "aw_first_rc H [i..<256] = aw_first_rc H [Suc i..<256]"
      using True by (simp add: aw_first_rc_def upt)
    ultimately show ?thesis using IH(1-3) unfolding i(3) by simp
  next
    case False
    then have "aw_first_rc H [i..<256] = aw_slot_rc H i"
      by (simp add: aw_first_rc_def upt)
    moreover have "tb_init_rc tb' = aw_slot_rc H i" "length (tb_slots tb') = 256"
      "\<forall>j. j \<noteq> i \<longrightarrow> tb_slots tb' ! j = tb_slots tb ! j"
      using aw_init_slot_failed [of H k tb live] Suc.prems(1,4) False unfolding i(3) by auto
    ultimately show ?thesis
      using False unfolding i(3) by auto
  qed
qed

text \<open>
  (C19) The slot table is initialised exactly once, before its first use. The first call of
  either entry point initialises the slots in order up to the first one whose mutex or condition
  variable fails, and records that failure's code, or 0 when all 256 succeed; every slot before
  it has its mutex, its condition variable and a well-formed empty list. The slot picked is inside
  the table, and no later call initialises again. When a code was recorded, the first and every
  later wait and wake return it and change nothing more.
\<close>
theorem aw_table_ready:
  assumes "length (tb_slots tb) = 256" and "\<not> tb_once tb" and "tb_init_rc tb = 0"
    and "mjs_aw_slot_for H a (tb, live) = (i, tb', live')"
  shows "i < 256 \<and> length (tb_slots tb') = 256 \<and>
    tb_init_rc tb' = (case find (\<lambda>j. aw_slot_rc H j \<noteq> 0) [0..<256] of None \<Rightarrow> 0 | Some j \<Rightarrow> aw_slot_rc H j) \<and>
    (\<forall>j < 256. (\<forall>l \<le> j. aw_slot_rc H l = 0) \<longrightarrow>
       Some (sl_mx (tb_slots tb' ! j)) = fst (H j) \<and>
       Some (sl_cv (tb_slots tb' ! j)) = cv_malloc (snd (snd (H j))) \<and> aw_rep (tb_slots tb' ! j) []) \<and>
    (\<forall>H' b. mjs_aw_slot_for H' b (tb', live') = (aw_index b, tb', live')) \<and>
    (tb_init_rc tb' \<noteq> 0 \<and> a \<noteq> 0 \<longrightarrow>
       mjs_atomic_wait_on_u32_mach H prc rounds me a e d word (tb, live) = Some (tb_init_rc tb', tb', live') \<and>
       mjs_atomic_wake_u32_mach H prc every a (tb, live) = Some (tb_init_rc tb', False, tb', live')) \<and>
    (\<forall>H' b. tb_init_rc tb' \<noteq> 0 \<and> b \<noteq> 0 \<longrightarrow>
       mjs_atomic_wait_on_u32_mach H' prc rounds me b e d word (tb', live') = Some (tb_init_rc tb', tb', live') \<and>
       mjs_atomic_wake_u32_mach H' prc every b (tb', live') = Some (tb_init_rc tb', False, tb', live'))"
proof -
  obtain t1 l1 where t1: "aw_init_loop H 256 tb live = (t1, l1)"
    by (metis prod.exhaust)
  have eq: "i = aw_index a" "tb' = t1\<lparr>tb_once := True\<rparr>" "live' = l1"
    using assms(2,4) t1 by (simp_all add: mjs_aw_slot_for_def mjs_aw_init_def Let_def)
  note r = aw_init_loop_result [OF assms(1) _ assms(3) t1, simplified]
  have ready: "Some (sl_mx (tb_slots tb' ! j)) = fst (H j) \<and>
      Some (sl_cv (tb_slots tb' ! j)) = cv_malloc (snd (snd (H j))) \<and> aw_rep (tb_slots tb' ! j) []"
    if j: "j < 256" "\<forall>l \<le> j. aw_slot_rc H l = 0" for j
  proof -
    have "tb_slots t1 ! j = aw_ready H j (tb_slots tb ! j)" using r j by blast
    moreover obtain m C c where "H j = (Some m, 0, C)" "cv_malloc C = Some c"
      using j(2) [rule_format, OF order_refl] that [of _ "snd (snd (H j))"]
      by (cases "H j") (auto simp: aw_slot_rc_def split: if_splits)
    ultimately show ?thesis by (simp add: eq aw_ready_def aw_rep_def)
  qed
  have again: "mjs_aw_slot_for H' b (tb', live') = (aw_index b, tb', live')" for H' b
    by (simp add: mjs_aw_slot_for_def eq)
  have fails: "mjs_atomic_wait_on_u32_mach H' prc rounds me b e d word tbl = Some (tb_init_rc tb', tb', live') \<and>
       mjs_atomic_wake_u32_mach H' prc every b tbl = Some (tb_init_rc tb', False, tb', live')"
    if "mjs_aw_slot_for H' b tbl = (j, tb', live')" "tb_init_rc tb' \<noteq> 0" "b \<noteq> 0" for H' b tbl j
    using that by (simp add: mjs_atomic_wait_on_u32_mach_def mjs_atomic_wake_u32_mach_def)
  have "i < 256" "length (tb_slots tb') = 256" "tb_init_rc tb' = aw_first_rc H [0..<256]"
    using r aw_index_less [of a] by (simp_all add: eq)
  then show ?thesis
    unfolding aw_first_rc_def using ready again fails [OF assms(4)] fails [OF again] by blast
qed

definition demo_table :: aw_table where
  "demo_table = \<lparr>tb_once = False, tb_init_rc = 0, tb_slots = replicate 256
     \<lparr>sl_mx = 0, sl_cv = 0, sl_head = 0, sl_tail = NullRef, sl_heap = \<lambda>_. None\<rparr>\<rparr>"

theorem aw_table_ready_witness:
  "let C = \<lparr>cv_malloc = Some 128, cv_attr_init = 0, cv_setclock = 0, cv_init = 0\<rparr>;
       (i, tb, live) = mjs_aw_slot_for (\<lambda>i. (Some 64, 0, C)) 4096 (demo_table, {});
       (i', tb', live') = mjs_aw_slot_for (\<lambda>i. (Some 64, if i = 7 then EAGAIN else 0, C)) 4096 (demo_table, {})
   in tb_init_rc tb = 0 \<and> sl_mx (tb_slots tb ! 3) = 64 \<and> aw_rep (tb_slots tb ! 3) [] \<and>
      tb_init_rc tb' = - EAGAIN"
proof -
  define C where "C = \<lparr>cv_malloc = Some (128 :: addr), cv_attr_init = 0, cv_setclock = 0, cv_init = 0\<rparr>"
  define H where "H = (\<lambda>i :: nat. (Some (64 :: addr), 0 :: int, C))"
  define H' where "H' = (\<lambda>i :: nat. (Some (64 :: addr), if i = 7 then EAGAIN else 0 :: int, C))"
  obtain i tb live where r: "mjs_aw_slot_for H 4096 (demo_table, {}) = (i, tb, live)"
    by (metis prod.exhaust)
  obtain i' tb' live' where r': "mjs_aw_slot_for H' 4096 (demo_table, {}) = (i', tb', live')"
    by (metis prod.exhaust)
  have demo: "length (tb_slots demo_table) = 256" "\<not> tb_once demo_table" "tb_init_rc demo_table = 0"
    by (simp_all add: demo_table_def)
  have rc: "aw_slot_rc H j = 0" "aw_slot_rc H' j = (if j = 7 then - EAGAIN else 0)" for j
    by (simp_all add: aw_slot_rc_def H_def H'_def C_def)
  have "find (\<lambda>j. aw_slot_rc H j \<noteq> 0) [0..<256] = None"
    by (simp add: rc find_None_iff)
  moreover have "find (\<lambda>j. aw_slot_rc H' j \<noteq> 0) [0..<256] = Some 7"
    unfolding rc by (simp add: upt_rec)
  ultimately have "tb_init_rc tb = 0" "tb_init_rc tb' = - EAGAIN"
    "Some (sl_mx (tb_slots tb ! 3)) = fst (H 3)" "aw_rep (tb_slots tb ! 3) []"
    using aw_table_ready [OF demo r] aw_table_ready [OF demo r'] by (simp_all add: rc)
  then show ?thesis
    using r r' unfolding C_def [symmetric] H_def [symmetric] H'_def [symmetric] Let_def
    by (simp add: H_def)
qed

end
