(* ===== verification/Mjs_Poll.thy ===== *)
theory Mjs_Poll
  imports Mjs_Prelude
begin

unbundle bit_operations_syntax

text \<open>
  What the readiness pollers share: the neutral interest and event flags and the delivered
  event of native/include/mojito\_sys.h, the validation of interests (the same function in
  mjs\_poller.c, mjs\_epoll.c and mjs\_iouring.c), and the contract of a table from descriptors
  to registrations.
\<close>

section \<open>Definitions\<close>

definition MJS_POLL_READABLE :: u32 where "MJS_POLL_READABLE = 0x1"
definition MJS_POLL_WRITABLE :: u32 where "MJS_POLL_WRITABLE = 0x2"
definition MJS_POLL_EOF :: u32 where "MJS_POLL_EOF = 0x4"
definition MJS_POLL_ERROR :: u32 where "MJS_POLL_ERROR = 0x8"

record mjs_poll_event =
  pe_token :: u64
  pe_fd :: int
  pe_events :: u32

definition mjs_check_interests :: "u32 \<Rightarrow> int" where
  "mjs_check_interests interests =
     (if interests AND NOT (MJS_POLL_READABLE OR MJS_POLL_WRITABLE) \<noteq> 0 then - EINVAL
      else if interests = 0 then - EINVAL else 0)"

definition flag_if :: "bool \<Rightarrow> u32 \<Rightarrow> u32" where
  "flag_if b f = (if b then f else 0)"

section \<open>Lemmas\<close>

lemmas poll_flags = MJS_POLL_READABLE_def MJS_POLL_WRITABLE_def MJS_POLL_EOF_def MJS_POLL_ERROR_def

text \<open>Exactly the three non-empty combinations of the two registerable bits pass.\<close>

lemma check_interests_iff:
  "mjs_check_interests i = 0 \<longleftrightarrow> i = MJS_POLL_READABLE \<or> i = MJS_POLL_WRITABLE
     \<or> i = (MJS_POLL_READABLE OR MJS_POLL_WRITABLE)"
proof -
  have "i AND NOT m = 0 \<longleftrightarrow> i = i AND m" for m
    by (auto simp: bit_eq_iff bit_and_iff bit_not_iff)
  from this [of 3] have "i AND NOT 3 = 0 \<longleftrightarrow> i = i AND 3" .
  moreover have "i AND 3 = i mod 4"
    using take_bit_eq_mask [of 2 i] take_bit_eq_mod [of 2 i] by (simp add: mask_eq_exp_minus_1)
  moreover have "i = i mod 4 \<longleftrightarrow> i < 4"
    by (simp add: word_eq_unat word_less_unat unat_mod) presburger
  moreover have "i < 4 \<longleftrightarrow> i = 0 \<or> i = 1 \<or> i = 2 \<or> i = 3"
  proof
    assume "i < 4"
    then have "unat i < 4" by (simp add: word_less_unat)
    then have "unat i = 0 \<or> unat i = 1 \<or> unat i = 2 \<or> unat i = 3" by linarith
    then show "i = 0 \<or> i = 1 \<or> i = 2 \<or> i = 3"
      by (simp add: word_eq_unat)
  qed auto
  ultimately show ?thesis
    by (auto simp: mjs_check_interests_def poll_flags)
qed

section \<open>Descriptor tables\<close>

text \<open>
  A table from descriptors to values as the pollers use one: insertion (which may refuse),
  deletion and lookup, on well-formed tables, for non-negative descriptors.
\<close>

locale fd_table =
  fixes wf :: "'t \<Rightarrow> bool" and look :: "'t \<Rightarrow> int \<Rightarrow> 'v option"
    and ins :: "int \<Rightarrow> 'v \<Rightarrow> 't \<Rightarrow> 't option" and del :: "int \<Rightarrow> 't \<Rightarrow> 't"
  assumes wf_ins: "wf t \<Longrightarrow> 0 \<le> fd \<Longrightarrow> ins fd v t = Some t' \<Longrightarrow> wf t'"
    and look_ins: "wf t \<Longrightarrow> 0 \<le> fd \<Longrightarrow> 0 \<le> g \<Longrightarrow> ins fd v t = Some t' \<Longrightarrow>
      look t' g = (if g = fd then Some v else look t g)"
    and wf_del: "wf t \<Longrightarrow> 0 \<le> fd \<Longrightarrow> wf (del fd t)"
    and look_del: "wf t \<Longrightarrow> 0 \<le> fd \<Longrightarrow> 0 \<le> g \<Longrightarrow>
      look (del fd t) g = (if g = fd then None else look t g)"
begin

text \<open>
  A history of insertions (\<open>Inl\<close>) and deletions (\<open>Inr\<close>); a refused insertion changes nothing.
\<close>

primrec run :: "(int \<times> 'v) + int \<Rightarrow> 't \<Rightarrow> 't" where
  "run (Inl a) t = (case ins (fst a) (snd a) t of None \<Rightarrow> t | Some t' \<Rightarrow> t')"
| "run (Inr fd) t = del fd t"

lemma wf_run: "wf t \<Longrightarrow> \<forall>a \<in> set ops. (case a of Inl x \<Rightarrow> 0 \<le> fst x | Inr fd \<Rightarrow> 0 \<le> fd) \<Longrightarrow>
    wf (fold run ops t)"
proof (induction ops arbitrary: t)
  case Nil
  then show ?case by simp
next
  case (Cons a ops)
  have "wf (run a t)"
    using Cons.prems wf_ins wf_del by (auto split: sum.splits option.splits)
  with Cons show ?case by simp
qed

lemma untouched:
  assumes "wf t" and "0 \<le> g"
    and "\<forall>a \<in> set ops. (case a of Inl x \<Rightarrow> 0 \<le> fst x \<and> fst x \<noteq> g | Inr fd \<Rightarrow> 0 \<le> fd \<and> fd \<noteq> g)"
  shows "look (fold run ops t) g = look t g"
  using assms
proof (induction ops arbitrary: t)
  case Nil
  then show ?case by simp
next
  case (Cons a ops)
  have "wf (run a t)"
    using Cons.prems wf_ins wf_del by (auto split: sum.splits option.splits)
  moreover have "look (run a t) g = look t g"
    using Cons.prems look_ins look_del by (auto split: sum.splits option.splits)
  ultimately show ?case
    using Cons.IH [of "run a t"] Cons.prems by simp
qed

end

end
