(* ===== verification/Mjs_Epoll.thy ===== *)
theory Mjs_Epoll
  imports Mjs_Poll
begin

unbundle bit_operations_syntax

text \<open>
  The epoll readiness poller (native/posix/mjs\_epoll.c), with its fixed open-addressed table
  from descriptors to tokens. The kernel side (\<open>epoll_ctl\<close>, \<open>epoll_wait\<close>, descriptors) is a
  record argument over a state of any type. An access outside the 256-slot table is
  \<^term>\<open>None\<close>. A NULL poller handle is \<^term>\<open>None\<close> as an argument.
\<close>

section \<open>Definitions\<close>

abbreviation (input) MJS_EPOLL_TABLE_CAP :: nat where "MJS_EPOLL_TABLE_CAP \<equiv> 256"
abbreviation (input) MJS_EPOLL_TOMB :: int where "MJS_EPOLL_TOMB \<equiv> - 2"

abbreviation (input) EPOLLIN :: u32 where "EPOLLIN \<equiv> 0x1"
abbreviation (input) EPOLLOUT :: u32 where "EPOLLOUT \<equiv> 0x4"
abbreviation (input) EPOLLERR :: u32 where "EPOLLERR \<equiv> 0x8"
abbreviation (input) EPOLLHUP :: u32 where "EPOLLHUP \<equiv> 0x10"
abbreviation (input) EPOLLRDHUP :: u32 where "EPOLLRDHUP \<equiv> 0x2000"

record mjs_epoller =
  epfd :: int
  wfd :: int
  table_fd :: "int list"
  table_tok :: "u64 list"

datatype ctl_op = EPOLL_CTL_ADD | EPOLL_CTL_MOD | EPOLL_CTL_DEL

text \<open>
  The kernel: \<open>epoll_ctl\<close> with the event mask and the descriptor stored in \<open>data\<close>,
  \<open>epoll_wait\<close> with the batch size and the timeout in milliseconds, the read that drains the
  wake eventfd, the write that raises it, and the calls of creation and closing.
\<close>

record 'w epoll_kernel =
  k_epoll_ctl :: "int \<Rightarrow> ctl_op \<Rightarrow> int \<Rightarrow> u32 \<Rightarrow> int \<Rightarrow> 'w \<Rightarrow> unit host \<times> 'w"
  k_epoll_wait :: "int \<Rightarrow> int \<Rightarrow> int \<Rightarrow> 'w \<Rightarrow> (u32 \<times> int) list host \<times> 'w"
  k_drain :: "int \<Rightarrow> 'w \<Rightarrow> 'w"
  k_raise :: "int \<Rightarrow> 'w \<Rightarrow> unit host \<times> 'w"
  k_epoll_create1 :: "'w \<Rightarrow> int host \<times> 'w"
  k_eventfd :: "'w \<Rightarrow> int host \<times> 'w"
  k_close :: "int \<Rightarrow> 'w \<Rightarrow> 'w"

subsection \<open>The token table\<close>

definition epoll_hash :: "int \<Rightarrow> nat" where
  "epoll_hash fd = unat ((of_int fd * 2654435761 :: u64) AND 255)"

text \<open>
  The probe loop of \<open>mjs_epoll_slot\<close> with \<open>n\<close> probes left (\<open>n = CAP - count\<close>); the wrap mask
  is \<open>mod 256\<close>.
\<close>

fun epoll_probe :: "int list \<Rightarrow> int \<Rightarrow> nat \<Rightarrow> nat \<Rightarrow> nat \<Rightarrow> nat" where
  "epoll_probe T fd h first_tomb 0 = MJS_EPOLL_TABLE_CAP"
| "epoll_probe T fd h first_tomb (Suc n) =
     (if T ! h \<noteq> - 1 \<and> T ! h \<noteq> fd
      then epoll_probe T fd ((h + 1) mod MJS_EPOLL_TABLE_CAP)
             (if T ! h = MJS_EPOLL_TOMB \<and> first_tomb = MJS_EPOLL_TABLE_CAP then h else first_tomb) n
      else if T ! h = - 1 \<and> first_tomb < MJS_EPOLL_TABLE_CAP then first_tomb
      else h)"

definition mjs_epoll_slot :: "int list \<Rightarrow> int \<Rightarrow> nat" where
  "mjs_epoll_slot T fd =
     epoll_probe T fd (epoll_hash fd) MJS_EPOLL_TABLE_CAP MJS_EPOLL_TABLE_CAP"

subsection \<open>Registration\<close>

definition mjs_epoll_ctl ::
    "'w epoll_kernel \<Rightarrow> mjs_epoller \<Rightarrow> ctl_op \<Rightarrow> int \<Rightarrow> u32 \<Rightarrow> 'w \<Rightarrow> int \<times> 'w" where
  "mjs_epoll_ctl K p op fd interests w =
     (if op = EPOLL_CTL_DEL
      then (case k_epoll_ctl K (epfd p) EPOLL_CTL_DEL fd 0 0 w of
              (Inl e, w') \<Rightarrow> (if e \<noteq> ENOENT then - e else 0, w')
            | (Inr _, w') \<Rightarrow> (0, w'))
      else
        let events = (flag_if (interests AND MJS_POLL_READABLE \<noteq> 0) EPOLLIN OR
                      flag_if (interests AND MJS_POLL_WRITABLE \<noteq> 0) EPOLLOUT) OR EPOLLRDHUP
        in case k_epoll_ctl K (epfd p) op fd events fd w of
             (Inl e, w') \<Rightarrow> (- e, w')
           | (Inr _, w') \<Rightarrow> (0, w'))"

definition mjs_epoll_check_interests :: "u32 \<Rightarrow> int" where
  "mjs_epoll_check_interests interests =
     (if interests AND NOT (MJS_POLL_READABLE OR MJS_POLL_WRITABLE) \<noteq> 0 then - EINVAL
      else if interests = 0 then - EINVAL else 0)"

definition mjs_epoll_set ::
    "'w epoll_kernel \<Rightarrow> mjs_epoller option \<Rightarrow> int \<Rightarrow> u32 \<Rightarrow> u64 \<Rightarrow> bool \<Rightarrow> 'w
      \<Rightarrow> int \<times> mjs_epoller option \<times> 'w" where
  "mjs_epoll_set K h fd interests token is_add w =
     (case h of
        None \<Rightarrow> (- EINVAL, h, w)
      | Some p \<Rightarrow>
          let rc = mjs_epoll_check_interests interests in
          if rc \<noteq> 0 then (rc, h, w)
          else if fd < 0 then (- EBADF, h, w)
          else
            let slot = mjs_epoll_slot (table_fd p) fd in
            if slot \<ge> MJS_EPOLL_TABLE_CAP then (- ENOSPC, h, w)
            else
              let (rc, w1) = mjs_epoll_ctl K p (if is_add then EPOLL_CTL_ADD else EPOLL_CTL_MOD)
                               fd interests w;
                  (rc, w2) = (if is_add \<and> rc = - EEXIST
                              then mjs_epoll_ctl K p EPOLL_CTL_MOD fd interests w1 else (rc, w1))
              in if rc \<noteq> 0 then (rc, h, w2)
                 else (0, Some (p\<lparr>table_fd := (table_fd p)[slot := fd],
                                  table_tok := (table_tok p)[slot := token]\<rparr>), w2))"

definition mjs_epoll_register ::
    "'w epoll_kernel \<Rightarrow> mjs_epoller option \<Rightarrow> int \<Rightarrow> u32 \<Rightarrow> u64 \<Rightarrow> 'w
      \<Rightarrow> int \<times> mjs_epoller option \<times> 'w" where
  "mjs_epoll_register K h fd interests token w = mjs_epoll_set K h fd interests token True w"

definition mjs_epoll_modify ::
    "'w epoll_kernel \<Rightarrow> mjs_epoller option \<Rightarrow> int \<Rightarrow> u32 \<Rightarrow> u64 \<Rightarrow> 'w
      \<Rightarrow> int \<times> mjs_epoller option \<times> 'w" where
  "mjs_epoll_modify K h fd interests token w = mjs_epoll_set K h fd interests token False w"

text \<open>\<open>mjs_epoll_unregister\<close> reads \<open>table_fd[slot]\<close> whatever the slot: \<^term>\<open>None\<close> out of bounds.\<close>

definition mjs_epoll_unregister ::
    "'w epoll_kernel \<Rightarrow> mjs_epoller option \<Rightarrow> int \<Rightarrow> 'w \<Rightarrow> (int \<times> mjs_epoller option \<times> 'w) option" where
  "mjs_epoll_unregister K h fd w =
     (case h of
        None \<Rightarrow> Some (- EINVAL, h, w)
      | Some p \<Rightarrow>
          if fd < 0 then Some (- EBADF, h, w)
          else
            let (rc, w1) = mjs_epoll_ctl K p EPOLL_CTL_DEL fd 0 w;
                slot = mjs_epoll_slot (table_fd p) fd
            in if slot \<ge> MJS_EPOLL_TABLE_CAP then None
               else if table_fd p ! slot = fd
               then Some (rc, Some (p\<lparr>table_fd := (table_fd p)[slot := MJS_EPOLL_TOMB]\<rparr>), w1)
               else Some (rc, h, w1))"

subsection \<open>Waiting\<close>

definition epoll_flags :: "u32 \<Rightarrow> u32" where
  "epoll_flags e =
     flag_if (e AND EPOLLIN \<noteq> 0) MJS_POLL_READABLE OR
     flag_if (e AND EPOLLOUT \<noteq> 0) MJS_POLL_WRITABLE OR
     flag_if (e AND EPOLLRDHUP \<noteq> 0 \<or> e AND EPOLLHUP \<noteq> 0) MJS_POLL_EOF OR
     flag_if (e AND EPOLLERR \<noteq> 0) MJS_POLL_ERROR"

text \<open>The timeout in milliseconds; \<^term>\<open>None\<close> is a NULL \<open>timeout_ns\<close>.\<close>

definition epoll_timeout :: "u64 option \<Rightarrow> int" where
  "epoll_timeout timeout_ns =
     (case timeout_ns of
        None \<Rightarrow> - 1
      | Some ns \<Rightarrow>
          if ns = 0 then 0
          else let ms = (ns + 999999) div 1000000
               in if ms > 0x7FFFFFFF then 0x7FFFFFFF else uint ms)"

text \<open>The delivery loop: \<open>out\<close> is the filled prefix of the caller's array.\<close>

fun epoll_deliver ::
    "'w epoll_kernel \<Rightarrow> mjs_epoller \<Rightarrow> nat \<Rightarrow> (u32 \<times> int) list \<Rightarrow> mjs_poll_event list \<Rightarrow> 'w
      \<Rightarrow> mjs_poll_event list \<times> 'w" where
  "epoll_deliver K p cap [] out w = (out, w)"
| "epoll_deliver K p cap ((e, rfd) # evs) out w =
     (if rfd = wfd p then epoll_deliver K p cap evs out (k_drain K (wfd p) w)
      else if length out \<ge> cap then epoll_deliver K p cap evs out w
      else
        let slot = mjs_epoll_slot (table_fd p) rfd in
        if slot \<ge> MJS_EPOLL_TABLE_CAP \<or> table_fd p ! slot \<noteq> rfd
        then epoll_deliver K p cap evs out w
        else epoll_deliver K p cap evs
               (out @ [\<lparr>pe_token = table_tok p ! slot, pe_fd = rfd, pe_events = epoll_flags e\<rparr>]) w)"

text \<open>
  \<open>mjs_epoll_wait\<close>: \<open>events\<close> tells whether the event array is non-NULL; the result carries the
  delivered prefix and the out counter.
\<close>

definition mjs_epoll_wait ::
    "'w epoll_kernel \<Rightarrow> mjs_epoller option \<Rightarrow> bool \<Rightarrow> u32 \<Rightarrow> u64 option \<Rightarrow> u32 slot \<Rightarrow> 'w
      \<Rightarrow> int \<times> mjs_poll_event list \<times> u32 slot \<times> 'w" where
  "mjs_epoll_wait K h events cap timeout_ns out_n w =
     (if h = None \<or> out_n = None then (- EFAULT, [], out_n, w)
      else if cap = 0 then (- EINVAL, [], out_n, w)
      else if \<not> events then (- EFAULT, [], out_n, w)
      else
        let p = the h in
        case k_epoll_wait K (epfd p) (if cap < 256 then uint cap else 256) (epoll_timeout timeout_ns) w of
          (Inl e, w1) \<Rightarrow> (- e, [], out_n, w1)
        | (Inr evs, w1) \<Rightarrow>
            let (out, w2) = epoll_deliver K p (unat cap) evs [] w1
            in (0, out, Some (of_nat (length out)), w2))"

subsection \<open>Lifetime\<close>

text \<open>
  \<open>mjs_epoll_create\<close>: \<open>mem\<close> is the answer of \<open>malloc\<close>, with the contents it leaves in the
  token array, which creation does not initialise.
\<close>

definition mjs_epoll_create ::
    "'w epoll_kernel \<Rightarrow> u64 list option \<Rightarrow> mjs_epoller option slot \<Rightarrow> 'w
      \<Rightarrow> int \<times> mjs_epoller option slot \<times> 'w" where
  "mjs_epoll_create K mem out w =
     (if out = None then (- EFAULT, out, w)
      else case k_epoll_create1 K w of
        (Inl e, w1) \<Rightarrow> (- e, out, w1)
      | (Inr ep, w1) \<Rightarrow>
         (case k_eventfd K w1 of
            (Inl saved, w2) \<Rightarrow> (- saved, out, k_close K ep w2)
          | (Inr wk, w2) \<Rightarrow>
             (case k_epoll_ctl K ep EPOLL_CTL_ADD wk EPOLLIN wk w2 of
                (Inl saved, w3) \<Rightarrow> (- saved, out, k_close K ep (k_close K wk w3))
              | (Inr _, w3) \<Rightarrow>
                  (case mem of
                     None \<Rightarrow> (- ENOMEM, out, k_close K ep (k_close K wk w3))
                   | Some junk \<Rightarrow>
                       (0, Some (Some \<lparr>epfd = ep, wfd = wk,
                          table_fd = replicate MJS_EPOLL_TABLE_CAP (- 1),
                          table_tok = junk\<rparr>), w3)))))"

definition mjs_epoll_wake :: "'w epoll_kernel \<Rightarrow> mjs_epoller option \<Rightarrow> 'w \<Rightarrow> int \<times> 'w" where
  "mjs_epoll_wake K h w =
     (case h of
        None \<Rightarrow> (- EINVAL, w)
      | Some p \<Rightarrow> (case k_raise K (wfd p) w of (Inl e, w') \<Rightarrow> (- e, w') | (Inr _, w') \<Rightarrow> (0, w')))"

definition mjs_epoll_close ::
    "'w epoll_kernel \<Rightarrow> mjs_epoller option slot \<Rightarrow> 'w \<Rightarrow> int \<times> mjs_epoller option slot \<times> 'w" where
  "mjs_epoll_close K h w =
     (case h of
        None \<Rightarrow> (- EINVAL, h, w)
      | Some None \<Rightarrow> (- EINVAL, h, w)
      | Some (Some p) \<Rightarrow> (0, Some None, k_close K (wfd p) (k_close K (epfd p) w)))"

text \<open>
  Hosts without epoll: every entry point returns \<open>-ENOSYS\<close> and leaves what its arguments point
  to as it was.
\<close>

definition mjs_epoll_stub :: "'a \<Rightarrow> int \<times> 'a" where
  "mjs_epoll_stub args = (- ENOSYS, args)"

subsection \<open>The table as a map\<close>

text \<open>
  The \<open>i\<close>-th slot a probe for \<open>fd\<close> visits; well-formed tables (no live descriptor twice, none
  behind an empty slot of its own probe sequence); lookup as the delivery loop does it;
  insertion and deletion as register and unregister do them.
\<close>

definition epath :: "int \<Rightarrow> nat \<Rightarrow> nat" where
  "epath fd i = (epoll_hash fd + i) mod 256"

type_synonym token_table = "int list \<times> u64 list"

definition etable_wf :: "token_table \<Rightarrow> bool" where
  "etable_wf t \<longleftrightarrow> length (fst t) = 256 \<and> length (snd t) = 256 \<and>
     (\<forall>s < 256. \<forall>s' < 256. 0 \<le> fst t ! s \<longrightarrow> fst t ! s = fst t ! s' \<longrightarrow> s = s') \<and>
     (\<forall>s < 256. 0 \<le> fst t ! s \<longrightarrow>
        (\<exists>i < 256. epath (fst t ! s) i = s \<and> (\<forall>j < i. fst t ! epath (fst t ! s) j \<noteq> - 1)))"

definition etable_look :: "token_table \<Rightarrow> int \<Rightarrow> u64 option" where
  "etable_look t fd =
     (let slot = mjs_epoll_slot (fst t) fd
      in if slot \<ge> 256 \<or> fst t ! slot \<noteq> fd then None else Some (snd t ! slot))"

definition etable_ins :: "int \<Rightarrow> u64 \<Rightarrow> token_table \<Rightarrow> token_table option" where
  "etable_ins fd tok t =
     (let slot = mjs_epoll_slot (fst t) fd
      in if slot \<ge> 256 then None else Some ((fst t)[slot := fd], (snd t)[slot := tok]))"

definition etable_del :: "int \<Rightarrow> token_table \<Rightarrow> token_table" where
  "etable_del fd t =
     (let slot = mjs_epoll_slot (fst t) fd
      in if slot < 256 \<and> fst t ! slot = fd then ((fst t)[slot := MJS_EPOLL_TOMB], snd t) else t)"

definition etab :: "mjs_epoller \<Rightarrow> token_table" where
  "etab p = (table_fd p, table_tok p)"

text \<open>A history of calls on one poller; \<^term>\<open>None\<close> if one of them leaves the table's bounds.\<close>

datatype epoll_call = Register int u32 u64 | Modify int u32 u64 | Unregister int

fun call_fd :: "epoll_call \<Rightarrow> int" where
  "call_fd (Register fd _ _) = fd"
| "call_fd (Modify fd _ _) = fd"
| "call_fd (Unregister fd) = fd"

fun epoll_exec :: "'w epoll_kernel \<Rightarrow> epoll_call \<Rightarrow> mjs_epoller option \<Rightarrow> 'w
    \<Rightarrow> (int \<times> mjs_epoller option \<times> 'w) option" where
  "epoll_exec K (Register fd i tok) h w = Some (mjs_epoll_register K h fd i tok w)"
| "epoll_exec K (Modify fd i tok) h w = Some (mjs_epoll_modify K h fd i tok w)"
| "epoll_exec K (Unregister fd) h w = mjs_epoll_unregister K h fd w"

fun epoll_run :: "'w epoll_kernel \<Rightarrow> epoll_call list \<Rightarrow> mjs_epoller option \<Rightarrow> 'w
    \<Rightarrow> (mjs_epoller option \<times> 'w) option" where
  "epoll_run K [] h w = Some (h, w)"
| "epoll_run K (c # cs) h w =
     (case epoll_exec K c h w of None \<Rightarrow> None | Some (rc, h', w') \<Rightarrow> epoll_run K cs h' w')"

text \<open>What a wait should deliver of the kernel's answer: the registered descriptors' events.\<close>

definition deliverable :: "mjs_epoller \<Rightarrow> (u32 \<times> int) list \<Rightarrow> mjs_poll_event list" where
  "deliverable p evs = concat (map (\<lambda>(e, rfd).
     if rfd = wfd p then []
     else case etable_look (etab p) rfd of
            None \<Rightarrow> []
          | Some tok \<Rightarrow> [\<lparr>pe_token = tok, pe_fd = rfd, pe_events = epoll_flags e\<rparr>]) evs)"

text \<open>
  A kernel that accepts every registration but that of the epoll descriptor itself, and a freshly
  created poller on it: descriptor 3 is the epoll descriptor, 4 the wake eventfd. Its wait reports
  the wake and descriptor 5.
\<close>

definition accept_kernel :: "unit epoll_kernel" where
  "accept_kernel = \<lparr>
     k_epoll_ctl = (\<lambda>ep _ fd _ _ w. if fd = ep then (Inl EINVAL, w) else (Inr (), w)),
     k_epoll_wait = (\<lambda>_ _ _ w. (Inr [(EPOLLIN, 4), (EPOLLIN, 5)], w)),
     k_drain = (\<lambda>_ w. w), k_raise = (\<lambda>_ w. (Inr (), w)),
     k_epoll_create1 = (\<lambda>w. (Inr 3, w)), k_eventfd = (\<lambda>w. (Inr 4, w)), k_close = (\<lambda>_ w. w)\<rparr>"

definition fresh_poller :: mjs_epoller where
  "fresh_poller = \<lparr>epfd = 3, wfd = 4, table_fd = replicate 256 (- 1), table_tok = replicate 256 0\<rparr>"

text \<open>
  Register and at once unregister each of the listed descriptors; \<^term>\<open>None\<close> as soon as one of
  the calls does not return 0 or leaves the table's bounds.
\<close>

fun epoll_churn :: "'w epoll_kernel \<Rightarrow> (int \<times> u32 \<times> u64) list \<Rightarrow> mjs_epoller option \<Rightarrow> 'w
    \<Rightarrow> (mjs_epoller option \<times> 'w) option" where
  "epoll_churn K [] h w = Some (h, w)"
| "epoll_churn K ((fd, i, tok) # xs) h w =
     (case mjs_epoll_register K h fd i tok w of
        (rc, h1, w1) \<Rightarrow>
          if rc \<noteq> 0 then None
          else case mjs_epoll_unregister K h1 fd w1 of
            None \<Rightarrow> None
          | Some (rc, h2, w2) \<Rightarrow> if rc \<noteq> 0 then None else epoll_churn K xs h2 w2)"

text \<open>
  What \<open>epoll_ctl\<close> documents for the descriptors \<open>F\<close> that can be polled: one that is not in the
  interest list can be added, one that is can be deleted. \<open>I\<close> reads the interest list off the
  kernel's state. The kernel after it keeps such a list, and refuses its own descriptor.
\<close>

definition epoll_ctl_law :: "'w epoll_kernel \<Rightarrow> int \<Rightarrow> ('w \<Rightarrow> int set) \<Rightarrow> int set \<Rightarrow> bool" where
  "epoll_ctl_law K ep I F \<longleftrightarrow> (\<forall>fd \<in> F. \<forall>e d w.
     (fd \<notin> I w \<longrightarrow> (\<exists>w'. k_epoll_ctl K ep EPOLL_CTL_ADD fd e d w = (Inr (), w') \<and> I w' = insert fd (I w))) \<and>
     (fd \<in> I w \<longrightarrow> (\<exists>w'. k_epoll_ctl K ep EPOLL_CTL_DEL fd e d w = (Inr (), w') \<and> I w' = I w - {fd})))"

definition interest_kernel :: "int set epoll_kernel" where
  "interest_kernel = \<lparr>
     k_epoll_ctl = (\<lambda>ep op fd _ _ w.
       if fd = ep then (Inl EINVAL, w)
       else case op of
         EPOLL_CTL_ADD \<Rightarrow> if fd \<in> w then (Inl EEXIST, w) else (Inr (), insert fd w)
       | EPOLL_CTL_MOD \<Rightarrow> if fd \<in> w then (Inr (), w) else (Inl ENOENT, w)
       | EPOLL_CTL_DEL \<Rightarrow> if fd \<in> w then (Inr (), w - {fd}) else (Inl ENOENT, w)),
     k_epoll_wait = (\<lambda>_ _ _ w. (Inr [], w)),
     k_drain = (\<lambda>_ w. w), k_raise = (\<lambda>_ w. (Inr (), w)),
     k_epoll_create1 = (\<lambda>w. (Inr 3, w)), k_eventfd = (\<lambda>w. (Inr 4, w)), k_close = (\<lambda>_ w. w)\<rparr>"

section \<open>Lemmas\<close>

lemma epoll_check_interests_eq [simp]: "mjs_epoll_check_interests = mjs_check_interests"
  by (simp add: fun_eq_iff mjs_epoll_check_interests_def mjs_check_interests_def)

subsection \<open>The probe\<close>

lemma epoll_hash_less [simp]: "epoll_hash fd < 256"
proof -
  have "(of_int fd * 2654435761 :: u64) AND 255 \<le> 255"
    by (rule word_and_le1)
  then show ?thesis
    by (simp add: epoll_hash_def word_le_unat)
qed

lemma epath_less [simp]: "epath fd i < 256"
  by (simp add: epath_def)

lemma epath_inj: "i < 256 \<Longrightarrow> j < 256 \<Longrightarrow> epath fd i = epath fd j \<Longrightarrow> i = j"
  unfolding epath_def by (rule shift_mod_inj)

lemma wrap_shift [simp]: "(Suc h mod 256 + j) mod 256 = (h + Suc j) mod 256"
  by (simp add: mod_simps)

text \<open>The three ways in which the loop can end, from any starting point.\<close>

lemma probe_hit:
  assumes "i < n" and "h < 256" and "T ! ((h + i) mod 256) = fd" and "fd \<noteq> - 1"
    and "\<And>j. j < i \<Longrightarrow> T ! ((h + j) mod 256) \<noteq> - 1 \<and> T ! ((h + j) mod 256) \<noteq> fd"
  shows "epoll_probe T fd h tomb n = (h + i) mod 256"
  using assms
proof (induction n arbitrary: i h tomb)
  case 0
  then show ?case by simp
next
  case (Suc n)
  show ?case
  proof (cases i)
    case 0
    with Suc.prems show ?thesis by simp
  next
    case (Suc k)
    have miss: "T ! h \<noteq> - 1" "T ! h \<noteq> fd"
      using Suc.prems(2) Suc.prems(5) [of 0] Suc by simp_all
    have "epoll_probe T fd (Suc h mod 256) tomb' n = (Suc h mod 256 + k) mod 256" for tomb'
      by (rule Suc.IH) (use Suc.prems Suc.prems(5) [of "Suc _"] Suc in \<open>simp_all add: wrap_shift\<close>)
    with miss Suc show ?thesis
      by (simp add: wrap_shift)
  qed
qed

lemma probe_full:
  assumes "\<And>j. j < n \<Longrightarrow> T ! ((h + j) mod 256) \<noteq> - 1 \<and> T ! ((h + j) mod 256) \<noteq> fd" and "h < 256"
  shows "epoll_probe T fd h tomb n = 256"
  using assms
proof (induction n arbitrary: h tomb)
  case 0
  then show ?case by simp
next
  case (Suc n)
  have "epoll_probe T fd (Suc h mod 256) tomb' n = 256" for tomb'
    by (rule Suc.IH) (use Suc.prems(1) [of "Suc _"] in \<open>simp_all add: wrap_shift\<close>)
  with Suc.prems(1) [of 0] Suc.prems(2) show ?case by simp
qed

text \<open>
  At an empty slot the loop yields the first tombstone passed (\<open>tomb\<close> if one was passed
  before), or the empty slot itself.
\<close>

lemma probe_stop:
  assumes "i < n" and "h < 256" and "T ! ((h + i) mod 256) = - 1" and "fd \<noteq> - 1"
    and "\<And>j. j < i \<Longrightarrow> T ! ((h + j) mod 256) \<noteq> - 1 \<and> T ! ((h + j) mod 256) \<noteq> fd"
    and "tomb \<le> 256"
  shows "if tomb < 256 then epoll_probe T fd h tomb n = tomb
    else \<exists>j \<le> i. epoll_probe T fd h tomb n = (h + j) mod 256 \<and>
      (T ! ((h + j) mod 256) = - 1 \<or> T ! ((h + j) mod 256) = - 2)"
  using assms
proof (induction n arbitrary: i h tomb)
  case 0
  then show ?case by simp
next
  case (Suc n)
  show ?case
  proof (cases i)
    case 0
    with Suc.prems show ?thesis by auto
  next
    case (Suc k)
    have miss: "T ! h \<noteq> - 1" "T ! h \<noteq> fd"
      using Suc.prems(2) Suc.prems(5) [of 0] Suc by simp_all
    define tomb' where "tomb' = (if T ! h = - 2 \<and> tomb = 256 then h else tomb)"
    have IH: "if tomb' < 256 then epoll_probe T fd (Suc h mod 256) tomb' n = tomb'
      else \<exists>j \<le> k. epoll_probe T fd (Suc h mod 256) tomb' n = (h + Suc j) mod 256 \<and>
        (T ! ((h + Suc j) mod 256) = - 1 \<or> T ! ((h + Suc j) mod 256) = - 2)"
      unfolding wrap_shift [symmetric]
      by (rule Suc.IH)
        (use Suc.prems Suc.prems(5) [of "Suc _"] Suc in \<open>simp_all add: wrap_shift tomb'_def\<close>)
    have step: "epoll_probe T fd h tomb (Suc n) = epoll_probe T fd (Suc h mod 256) tomb' n"
      using miss by (simp add: tomb'_def)
    consider (before) "tomb < 256" | (here) "tomb = 256" "T ! h = - 2"
      | (later) "tomb = 256" "T ! h \<noteq> - 2"
      using Suc.prems(6) by linarith
    then show ?thesis
    proof cases
      case before
      with IH step show ?thesis by (simp add: tomb'_def)
    next
      case here
      with IH step Suc.prems(2) show ?thesis
        by (auto simp: tomb'_def intro!: exI [of _ 0])
    next
      case later
      with IH obtain j where "j \<le> k" "epoll_probe T fd (Suc h mod 256) tomb' n = (h + Suc j) mod 256"
        "T ! ((h + Suc j) mod 256) = - 1 \<or> T ! ((h + Suc j) mod 256) = - 2"
        by (auto simp: tomb'_def)
      with step later Suc show ?thesis
        by (auto intro!: exI [of _ "Suc j"])
    qed
  qed
qed

subsection \<open>The table\<close>

lemma slot_live:
  assumes wf: "etable_wf t" and s: "s < 256" and fd: "fst t ! s = fd" "0 \<le> fd"
  shows "mjs_epoll_slot (fst t) fd = s"
proof -
  obtain i where i: "i < 256" "epath fd i = s" "\<forall>j < i. fst t ! epath fd j \<noteq> - 1"
    using wf s fd unfolding etable_wf_def by blast
  have uniq: "fst t ! epath fd j \<noteq> fd" if "j < i" for j
  proof
    assume "fst t ! epath fd j = fd"
    then have "epath fd j = s"
      using wf s fd epath_less unfolding etable_wf_def by metis
    with i that epath_inj [of j i fd] show False by simp
  qed
  have "epoll_probe (fst t) fd (epoll_hash fd) 256 256 = (epoll_hash fd + i) mod 256"
    by (rule probe_hit) (use i uniq fd in \<open>auto simp: epath_def\<close>)
  with i show ?thesis
    by (simp add: mjs_epoll_slot_def epath_def)
qed

lemma slot_absent:
  assumes fd: "0 \<le> fd" and absent: "\<And>s. s < 256 \<Longrightarrow> T ! s \<noteq> fd"
  shows "mjs_epoll_slot T fd = 256 \<and> (\<forall>s < 256. T ! s \<noteq> - 1) \<or>
    (\<exists>j < 256. mjs_epoll_slot T fd = epath fd j \<and> (T ! epath fd j = - 1 \<or> T ! epath fd j = - 2) \<and>
       (\<forall>k < j. T ! epath fd k \<noteq> - 1))"
proof (cases "\<exists>i < 256. T ! epath fd i = - 1")
  case True
  then obtain i where i: "i < 256" "T ! epath fd i = - 1" "\<forall>k < i. T ! epath fd k \<noteq> - 1"
    using exists_least_iff [of "\<lambda>i. i < 256 \<and> T ! epath fd i = - 1"] by (meson less_trans)
  have "if (256 :: nat) < 256 then epoll_probe T fd (epoll_hash fd) 256 256 = 256
    else \<exists>j \<le> i. epoll_probe T fd (epoll_hash fd) 256 256 = (epoll_hash fd + j) mod 256 \<and>
      (T ! ((epoll_hash fd + j) mod 256) = - 1 \<or> T ! ((epoll_hash fd + j) mod 256) = - 2)"
    by (rule probe_stop) (use i absent fd in \<open>auto simp: epath_def\<close>)
  then obtain j where j: "j \<le> i" "mjs_epoll_slot T fd = epath fd j"
    "T ! epath fd j = - 1 \<or> T ! epath fd j = - 2"
    by (auto simp: mjs_epoll_slot_def epath_def)
  with i have "j < 256" "\<forall>k < j. T ! epath fd k \<noteq> - 1" by auto
  with j show ?thesis by blast
next
  case False
  have "\<exists>i < 256. epath fd i = s" if "s < 256" for s
  proof -
    have "epoll_hash fd + (256 + s - epoll_hash fd) = 256 + s"
      using epoll_hash_less [of fd] by linarith
    then have "(epoll_hash fd + (256 + s - epoll_hash fd) mod 256) mod 256 = s"
      using that by (simp add: mod_add_right_eq)
    then show ?thesis
      by (auto simp: epath_def intro!: exI [of _ "(256 + s - epoll_hash fd) mod 256"])
  qed
  with False have "\<forall>s < 256. T ! s \<noteq> - 1" by metis
  moreover have "mjs_epoll_slot T fd = 256"
    unfolding mjs_epoll_slot_def
    by (rule probe_full) (use False absent in \<open>auto simp: epath_def\<close>)
  ultimately show ?thesis by blast
qed

text \<open>Lookup finds exactly the live entries.\<close>

lemma etable_look_iff:
  assumes "etable_wf t" and "0 \<le> fd"
  shows "etable_look t fd = Some v \<longleftrightarrow> (\<exists>s < 256. fst t ! s = fd \<and> snd t ! s = v)"
proof
  assume "etable_look t fd = Some v"
  then show "\<exists>s < 256. fst t ! s = fd \<and> snd t ! s = v"
    by (auto simp: etable_look_def Let_def not_le split: if_splits)
next
  assume "\<exists>s < 256. fst t ! s = fd \<and> snd t ! s = v"
  then obtain s where s: "s < 256" "fst t ! s = fd" "snd t ! s = v" by blast
  with slot_live [OF assms(1) s(1,2) assms(2)] show "etable_look t fd = Some v"
    by (simp add: etable_look_def)
qed

lemma etable_ins_slot:
  assumes wf: "etable_wf t" and fd: "0 \<le> fd" and ins: "etable_ins fd v t = Some t'"
  obtains s j where "s < 256" "j < 256" "s = epath fd j" "t' = ((fst t)[s := fd], (snd t)[s := v])"
    "fst t ! s = fd \<or> (\<forall>s' < 256. fst t ! s' \<noteq> fd) \<and> fst t ! s < 0"
    "\<forall>k < j. fst t ! epath fd k \<noteq> - 1"
proof (cases "\<exists>s < 256. fst t ! s = fd")
  case True
  then obtain s where s: "s < 256" "fst t ! s = fd" by blast
  then obtain i where i: "i < 256" "epath fd i = s" "\<forall>j < i. fst t ! epath fd j \<noteq> - 1"
    using wf fd unfolding etable_wf_def by blast
  have "t' = ((fst t)[s := fd], (snd t)[s := v])"
    using ins slot_live [OF wf s(1) s(2) fd] s(1) by (simp add: etable_ins_def)
  with s i show ?thesis
    by (intro that [of s i]) simp_all
next
  case False
  then have absent: "\<And>s. s < 256 \<Longrightarrow> fst t ! s \<noteq> fd" by blast
  have ne: "mjs_epoll_slot (fst t) fd \<noteq> 256"
    using ins by (auto simp: etable_ins_def Let_def split: if_splits)
  then obtain j where j: "j < 256" "mjs_epoll_slot (fst t) fd = epath fd j"
    "fst t ! epath fd j = - 1 \<or> fst t ! epath fd j = - 2" "\<forall>k < j. fst t ! epath fd k \<noteq> - 1"
    using slot_absent [OF fd, of "fst t"] absent by blast
  have "t' = ((fst t)[epath fd j := fd], (snd t)[epath fd j := v])"
    using ins j(2) epath_less [of fd j] by (auto simp: etable_ins_def Let_def split: if_splits)
  with j absent that [of "epath fd j" j] show ?thesis by auto
qed

lemma etable_wf_ins:
  assumes wf: "etable_wf t" and fd: "0 \<le> fd" and ins: "etable_ins fd v t = Some t'"
  shows "etable_wf t'"
proof -
  obtain s j where s: "s < 256" "j < 256" "s = epath fd j" "t' = ((fst t)[s := fd], (snd t)[s := v])"
    and old: "fst t ! s = fd \<or> (\<forall>s' < 256. fst t ! s' \<noteq> fd) \<and> fst t ! s < 0"
    and free: "\<forall>k < j. fst t ! epath fd k \<noteq> - 1"
    using wf fd ins by (rule etable_ins_slot)
  have len: "length (fst t) = 256" "length (snd t) = 256"
    and dist: "\<And>a b. a < 256 \<Longrightarrow> b < 256 \<Longrightarrow> 0 \<le> fst t ! a \<Longrightarrow> fst t ! a = fst t ! b \<Longrightarrow> a = b"
    and reach: "\<And>a. a < 256 \<Longrightarrow> 0 \<le> fst t ! a \<Longrightarrow>
      \<exists>i < 256. epath (fst t ! a) i = a \<and> (\<forall>k < i. fst t ! epath (fst t ! a) k \<noteq> - 1)"
    using wf unfolding etable_wf_def by blast+
  have nth: "fst t' ! a = (if a = s then fd else fst t ! a)" if "a < 256" for a
    using that len s by (simp add: nth_list_update)
  show ?thesis
    unfolding etable_wf_def
  proof (intro conjI allI impI)
    show "length (fst t') = 256" "length (snd t') = 256"
      using len s by simp_all
    fix a b :: nat assume ab: "a < 256" "b < 256" "0 \<le> fst t' ! a" "fst t' ! a = fst t' ! b"
    have one: "c = s" if "c < 256" "fst t ! c = fd" for c
      using old that dist [OF that(1) s(1)] fd by metis
    show "a = b"
    proof (cases "a = s \<or> b = s")
      case True
      with ab nth [OF ab(1)] nth [OF ab(2)] one [OF ab(1)] one [OF ab(2)] show ?thesis by metis
    next
      case False
      with ab nth [OF ab(1)] nth [OF ab(2)] show ?thesis by (intro dist) simp_all
    qed
  next
    fix a :: nat assume a: "a < 256" "0 \<le> fst t' ! a"
    show "\<exists>i < 256. epath (fst t' ! a) i = a \<and> (\<forall>k < i. fst t' ! epath (fst t' ! a) k \<noteq> - 1)"
    proof (cases "a = s")
      case True
      then have eq: "fst t' ! a = fd" using nth [OF a(1)] by simp
      have "fst t' ! epath fd k \<noteq> - 1" if "k < j" for k
        using nth [of "epath fd k"] free that fd by simp
      with s(2,3) True eq show ?thesis by auto
    next
      case False
      with a nth have "0 \<le> fst t ! a" "fst t' ! a = fst t ! a" by simp_all
      with reach [OF a(1)] nth fd show ?thesis by auto
    qed
  qed
qed

lemma etable_look_ins:
  assumes wf: "etable_wf t" and fd: "0 \<le> fd" and g: "0 \<le> g" and ins: "etable_ins fd v t = Some t'"
  shows "etable_look t' g = (if g = fd then Some v else etable_look t g)"
proof -
  obtain s j where s: "s < 256" "t' = ((fst t)[s := fd], (snd t)[s := v])"
    and old: "fst t ! s = fd \<or> (\<forall>s' < 256. fst t ! s' \<noteq> fd) \<and> fst t ! s < 0"
    using wf fd ins by (rule etable_ins_slot)
  have len: "length (fst t) = 256" "length (snd t) = 256"
    using wf unfolding etable_wf_def by blast+
  note wf' = etable_wf_ins [OF wf fd ins]
  have nth: "fst t' ! a = (if a = s then fd else fst t ! a)" "snd t' ! a = (if a = s then v else snd t ! a)"
    if "a < 256" for a
    using that len s by (simp_all add: nth_list_update)
  have "etable_look t' g = Some x \<longleftrightarrow> (if g = fd then x = v else etable_look t g = Some x)" for x
  proof (cases "g = fd")
    case True
    have "etable_look t' fd = Some v"
      unfolding etable_look_iff [OF wf' fd] using s(1) nth by auto
    with True show ?thesis by auto
  next
    case False
    have "(\<exists>a < 256. fst t' ! a = g \<and> snd t' ! a = x) \<longleftrightarrow> (\<exists>a < 256. fst t ! a = g \<and> snd t ! a = x)"
      using nth old g False by (metis leD)
    with False show ?thesis
      by (simp add: etable_look_iff [OF wf' g] etable_look_iff [OF wf g])
  qed
  then show ?thesis
    by (intro option_eqI) auto
qed

lemma etable_del_cases:
  assumes wf: "etable_wf t" and fd: "0 \<le> fd"
  obtains (live) s where "s < 256" "fst t ! s = fd" "etable_del fd t = ((fst t)[s := - 2], snd t)"
    | (absent) "\<forall>s < 256. fst t ! s \<noteq> fd" "etable_del fd t = t"
proof (cases "\<exists>s < 256. fst t ! s = fd")
  case True
  then obtain s where s: "s < 256" "fst t ! s = fd" by blast
  with slot_live [OF wf s fd] live show ?thesis
    by (simp add: etable_del_def)
next
  case False
  then have "etable_del fd t = t"
    by (auto simp: etable_del_def Let_def)
  with False absent show ?thesis by blast
qed

lemma etable_wf_del:
  assumes wf: "etable_wf t" and fd: "0 \<le> fd"
  shows "etable_wf (etable_del fd t)"
  using wf fd
proof (cases rule: etable_del_cases)
  case (live s)
  have len: "length (fst t) = 256"
    using wf unfolding etable_wf_def by blast
  have nth: "fst (etable_del fd t) ! a = (if a = s then - 2 else fst t ! a)" if "a < 256" for a
    using that len live by (simp add: nth_list_update)
  show ?thesis
    unfolding etable_wf_def
  proof (intro conjI allI impI)
    show "length (fst (etable_del fd t)) = 256" "length (snd (etable_del fd t)) = 256"
      using wf live unfolding etable_wf_def by simp_all
    fix a b :: nat
    assume ab: "a < 256" "b < 256" "0 \<le> fst (etable_del fd t) ! a"
      "fst (etable_del fd t) ! a = fst (etable_del fd t) ! b"
    then have "a \<noteq> s" "b \<noteq> s"
      using nth by (auto split: if_splits)
    with ab nth have "0 \<le> fst t ! a" "fst t ! a = fst t ! b" by simp_all
    with wf ab show "a = b" unfolding etable_wf_def by blast
  next
    fix a :: nat assume a: "a < 256" "0 \<le> fst (etable_del fd t) ! a"
    then have as: "0 \<le> fst t ! a" "fst (etable_del fd t) ! a = fst t ! a"
      using nth [OF a(1)] by (auto split: if_splits)
    then obtain i where i: "i < 256" "epath (fst t ! a) i = a" "\<forall>k < i. fst t ! epath (fst t ! a) k \<noteq> - 1"
      using wf a(1) unfolding etable_wf_def by blast
    then have "\<forall>k < i. fst (etable_del fd t) ! epath (fst t ! a) k \<noteq> - 1"
      by (simp add: nth)
    with i as show "\<exists>i < 256. epath (fst (etable_del fd t) ! a) i = a \<and>
        (\<forall>k < i. fst (etable_del fd t) ! epath (fst (etable_del fd t) ! a) k \<noteq> - 1)"
      by auto
  qed
next
  case absent
  with wf show ?thesis by simp
qed

lemma etable_look_del:
  assumes wf: "etable_wf t" and fd: "0 \<le> fd" and g: "0 \<le> g"
  shows "etable_look (etable_del fd t) g = (if g = fd then None else etable_look t g)"
proof -
  note wf' = etable_wf_del [OF wf fd]
  have len: "length (fst t) = 256"
    and dist: "\<And>a b. a < 256 \<Longrightarrow> b < 256 \<Longrightarrow> 0 \<le> fst t ! a \<Longrightarrow> fst t ! a = fst t ! b \<Longrightarrow> a = b"
    using wf unfolding etable_wf_def by blast+
  have "(\<exists>a < 256. fst (etable_del fd t) ! a = g \<and> snd (etable_del fd t) ! a = x) \<longleftrightarrow>
      g \<noteq> fd \<and> (\<exists>a < 256. fst t ! a = g \<and> snd t ! a = x)" for x
    using wf fd
  proof (cases rule: etable_del_cases)
    case (live s)
    have nth: "fst (etable_del fd t) ! a = (if a = s then - 2 else fst t ! a)"
      "snd (etable_del fd t) ! a = snd t ! a" if "a < 256" for a
      using that len live by (simp_all add: nth_list_update)
    have "fst (etable_del fd t) ! a = g \<longleftrightarrow> g \<noteq> fd \<and> fst t ! a = g" if "a < 256" for a
    proof (cases "a = s")
      case True
      with nth(1) [OF that] g live(2) show ?thesis by auto
    next
      case False
      then have "fst t ! a \<noteq> fd"
        using dist [OF that live(1)] live(2) fd by metis
      with False nth(1) [OF that] show ?thesis by auto
    qed
    with nth(2) show ?thesis by metis
  next
    case absent
    then show ?thesis by auto
  qed
  then have "etable_look (etable_del fd t) g = Some x \<longleftrightarrow> g \<noteq> fd \<and> etable_look t g = Some x" for x
    by (simp add: etable_look_iff [OF wf' g] etable_look_iff [OF wf g])
  then show ?thesis
    by (intro option_eqI) simp
qed

interpretation et: fd_table etable_wf etable_look etable_ins etable_del
  by unfold_locales (fact etable_wf_ins etable_look_ins etable_wf_del etable_look_del)+

lemma slot_at_empty: "T ! epoll_hash fd = - 1 \<Longrightarrow> mjs_epoll_slot T fd = epoll_hash fd"
  by (simp add: mjs_epoll_slot_def numeral_eq_Suc)

subsection \<open>The operations\<close>

lemma etab_simps [simp]: "fst (etab p) = table_fd p" "snd (etab p) = table_tok p"
  by (simp_all add: etab_def)

lemma mjs_epoll_set_cases:
  assumes "mjs_epoll_set K (Some p) fd i tok add w = (rc, h, w')"
  obtains (refused) "rc \<noteq> 0" "h = Some p"
    | (accepted) p' where "rc = 0" "0 \<le> fd" "mjs_check_interests i = 0" "h = Some p'"
      "etable_ins fd tok (etab p) = Some (etab p')" "epfd p' = epfd p" "wfd p' = wfd p"
proof (cases "mjs_check_interests i \<noteq> 0 \<or> fd < 0 \<or> mjs_epoll_slot (table_fd p) fd \<ge> 256")
  case True
  with assms show ?thesis
    by (intro refused) (auto simp: mjs_epoll_set_def Let_def split: if_splits)
next
  case False
  obtain r1 w1 where c1: "mjs_epoll_ctl K p (if add then EPOLL_CTL_ADD else EPOLL_CTL_MOD) fd i w = (r1, w1)"
    by (cases "mjs_epoll_ctl K p (if add then EPOLL_CTL_ADD else EPOLL_CTL_MOD) fd i w")
  obtain r2 w2 where c2: "(if add \<and> r1 = - EEXIST then mjs_epoll_ctl K p EPOLL_CTL_MOD fd i w1
      else (r1, w1)) = (r2, w2)"
    by (cases "if add \<and> r1 = - EEXIST then mjs_epoll_ctl K p EPOLL_CTL_MOD fd i w1 else (r1, w1)")
  let ?s = "mjs_epoll_slot (table_fd p) fd"
  let ?p = "p\<lparr>table_fd := (table_fd p)[?s := fd], table_tok := (table_tok p)[?s := tok]\<rparr>"
  have "(rc, h, w') = (if r2 \<noteq> 0 then (r2, Some p, w2) else (0, Some ?p, w2))"
    using assms False c1 c2 unfolding mjs_epoll_set_def Let_def by (simp split: prod.splits)
  then show ?thesis
    using False refused accepted [of ?p]
    by (cases "r2 = 0") (simp_all add: etable_ins_def etab_def Let_def)
qed

lemma mjs_epoll_unregister_cases:
  assumes "mjs_epoll_unregister K (Some p) fd w = Some (rc, h, w')"
  obtains (refused) "fd < 0" "rc = - EBADF" "h = Some p"
    | (gone) p' where "0 \<le> fd" "h = Some p'" "etab p' = etable_del fd (etab p)"
      "epfd p' = epfd p" "wfd p' = wfd p"
proof (cases "fd < 0")
  case True
  with assms refused show ?thesis by (simp add: mjs_epoll_unregister_def)
next
  case False
  let ?s = "mjs_epoll_slot (table_fd p) fd"
  obtain r w1 where c: "mjs_epoll_ctl K p EPOLL_CTL_DEL fd 0 w = (r, w1)"
    by (cases "mjs_epoll_ctl K p EPOLL_CTL_DEL fd 0 w")
  have lt: "?s < 256" and
    h: "h = Some (if table_fd p ! ?s = fd then p\<lparr>table_fd := (table_fd p)[?s := - 2]\<rparr> else p)"
    using assms False c unfolding mjs_epoll_unregister_def Let_def by (auto split: if_splits)
  with False gone [of "the h"] show ?thesis
    by (auto simp: etable_del_def etab_def Let_def)
qed

lemma mjs_epoll_set_step:
  assumes wf: "etable_wf (etab p)" and res: "mjs_epoll_set K (Some p) fd i tok add w = (rc, h, w')"
  shows "\<exists>p'. h = Some p' \<and> etable_wf (etab p') \<and> wfd p' = wfd p \<and> epfd p' = epfd p \<and>
    (rc \<noteq> 0 \<longrightarrow> p' = p) \<and> (rc = 0 \<longrightarrow> 0 \<le> fd \<and> mjs_check_interests i = 0 \<and>
      (\<forall>g \<ge> 0. etable_look (etab p') g = (if g = fd then Some tok else etable_look (etab p) g)))"
  using res
proof (cases rule: mjs_epoll_set_cases)
  case refused
  with wf show ?thesis by simp
next
  case (accepted p')
  with et.wf_ins [OF wf accepted(2,5)] et.look_ins [OF wf accepted(2) _ accepted(5)] show ?thesis
    by simp
qed

lemma mjs_epoll_unregister_step:
  assumes wf: "etable_wf (etab p)" and res: "mjs_epoll_unregister K (Some p) fd w = Some (rc, h, w')"
  shows "\<exists>p'. h = Some p' \<and> etable_wf (etab p') \<and> wfd p' = wfd p \<and> epfd p' = epfd p \<and>
    (\<forall>g \<ge> 0. etable_look (etab p') g = (if g = fd then None else etable_look (etab p) g))"
  using res
proof (cases rule: mjs_epoll_unregister_cases)
  case refused
  with wf show ?thesis by auto
next
  case (gone p')
  with et.wf_del [OF wf gone(1)] et.look_del [OF wf gone(1)] show ?thesis
    by simp
qed

lemma epoll_exec_step:
  assumes wf: "etable_wf (etab p)" and res: "epoll_exec K c (Some p) w = Some (rc, h, w')"
  shows "\<exists>p'. h = Some p' \<and> etable_wf (etab p') \<and> wfd p' = wfd p \<and> epfd p' = epfd p \<and>
    (\<forall>g \<ge> 0. g \<noteq> call_fd c \<longrightarrow> etable_look (etab p') g = etable_look (etab p) g)"
proof (cases c)
  case (Register fd i tok)
  with res have "mjs_epoll_set K (Some p) fd i tok True w = (rc, h, w')"
    by (simp add: mjs_epoll_register_def)
  from mjs_epoll_set_step [OF wf this] Register show ?thesis
    by (cases "rc = 0") auto
next
  case (Modify fd i tok)
  with res have "mjs_epoll_set K (Some p) fd i tok False w = (rc, h, w')"
    by (simp add: mjs_epoll_modify_def)
  from mjs_epoll_set_step [OF wf this] Modify show ?thesis
    by (cases "rc = 0") auto
next
  case (Unregister fd)
  with res have "mjs_epoll_unregister K (Some p) fd w = Some (rc, h, w')" by simp
  from mjs_epoll_unregister_step [OF wf this] Unregister show ?thesis
    by auto
qed

lemma epoll_run_keeps:
  assumes "epoll_run K cs (Some p) w = Some (h, w')" and "etable_wf (etab p)" and "0 \<le> fd"
    and "fd \<notin> call_fd ` set cs"
  shows "\<exists>p'. h = Some p' \<and> etable_wf (etab p') \<and> wfd p' = wfd p \<and>
    etable_look (etab p') fd = etable_look (etab p) fd"
  using assms
proof (induction cs arbitrary: p w)
  case Nil
  then show ?case by auto
next
  case (Cons c cs)
  then obtain rc h1 w1 where ex: "epoll_exec K c (Some p) w = Some (rc, h1, w1)"
    and run: "epoll_run K cs h1 w1 = Some (h, w')"
    by (auto split: option.splits prod.splits)
  obtain p1 where p1: "h1 = Some p1" "etable_wf (etab p1)" "wfd p1 = wfd p"
    "\<forall>g \<ge> 0. g \<noteq> call_fd c \<longrightarrow> etable_look (etab p1) g = etable_look (etab p) g"
    using epoll_exec_step [OF Cons.prems(2) ex] by blast
  from Cons.IH [OF run [unfolded p1(1)] p1(2) Cons.prems(3)] Cons.prems(3,4) p1(3,4) show ?case
    by auto
qed

lemma epoll_deliver_eq:
  assumes "length out \<le> cap"
  shows "fst (epoll_deliver K p cap evs out w) = take cap (out @ deliverable p evs)"
  using assms
proof (induction K p cap evs out w rule: epoll_deliver.induct)
  case (1 K p cap out w)
  then show ?case by (simp add: deliverable_def)
next
  case (2 K p cap e rfd evs out w)
  have cons: "deliverable p ((e, rfd) # evs) = (if rfd = wfd p then []
     else case etable_look (etab p) rfd of
            None \<Rightarrow> []
          | Some tok \<Rightarrow> [\<lparr>pe_token = tok, pe_fd = rfd, pe_events = epoll_flags e\<rparr>]) @ deliverable p evs"
    by (simp add: deliverable_def)
  let ?s = "mjs_epoll_slot (table_fd p) rfd"
  consider (wake) "rfd = wfd p" | (full) "rfd \<noteq> wfd p" "length out \<ge> cap"
    | (unknown) "rfd \<noteq> wfd p" "\<not> length out \<ge> cap" "?s \<ge> 256 \<or> table_fd p ! ?s \<noteq> rfd"
    | (event) "rfd \<noteq> wfd p" "\<not> length out \<ge> cap" "\<not> (?s \<ge> 256 \<or> table_fd p ! ?s \<noteq> rfd)"
    by blast
  then show ?case
  proof cases
    case wake
    with 2 cons show ?thesis by simp
  next
    case full
    with 2 cons show ?thesis by simp
  next
    case unknown
    then have "etable_look (etab p) rfd = None"
      by (simp add: etable_look_def Let_def)
    with 2 cons unknown show ?thesis by (simp add: Let_def)
  next
    case event
    then have "etable_look (etab p) rfd = Some (table_tok p ! ?s)"
      by (simp add: etable_look_def Let_def)
    with 2 cons event show ?thesis by (simp add: Let_def)
  qed
qed

lemma etable_fresh:
  "length junk = 256 \<Longrightarrow> etable_wf (replicate 256 (- 1), junk) \<and>
     (\<forall>fd \<ge> 0. etable_look (replicate 256 (- 1), junk) fd = None)"
proof (intro conjI allI impI)
  assume j: "length junk = 256"
  show wf: "etable_wf (replicate 256 (- 1), junk)"
    using j by (simp add: etable_wf_def)
  fix fd :: int assume fd: "0 \<le> fd"
  show "etable_look (replicate 256 (- 1), junk) fd = None"
    using fd by (intro option_eqI) (auto simp: etable_look_iff [OF wf fd])
qed

subsection \<open>The timeout\<close>

lemma epoll_timeout_eq:
  assumes "0 < unat ns" and "unat ns + 999999 < 18446744073709551616"
  shows "epoll_timeout (Some ns) = min 2147483647 (int ((unat ns + 999999) div 1000000))"
proof -
  have "unat (ns + 999999) = unat ns + 999999"
    using assms(2) by (subst unat_add64) simp_all
  then have ms: "unat ((ns + 999999) div 1000000) = (unat ns + 999999) div 1000000"
    by (simp add: unat_div)
  have "ns \<noteq> 0"
    using assms(1) by auto
  moreover have "uint ((ns + 999999) div 1000000) = int ((unat ns + 999999) div 1000000)"
    using ms by (metis uint_nat)
  moreover have "0x7FFFFFFF < (ns + 999999) div 1000000 \<longleftrightarrow> 2147483647 < (unat ns + 999999) div 1000000"
    by (simp add: word_less_unat ms)
  ultimately show ?thesis
    by (simp add: epoll_timeout_def Let_def min_def)
qed

section \<open>Properties\<close>

text \<open>
  (C22) The epoll token table is a map. On a well-formed table (which creation yields and every
  call keeps), a successful register or modify binds the descriptor to the new token and
  changes no other descriptor's token, upserts included; a refused one leaves the poller as it
  was; unregister removes the descriptor and no other, through displaced entries and
  tombstones alike.
\<close>
theorem epoll_registry_map:
  assumes "etable_wf (etab p)"
  shows "(\<forall>add rc h w'. mjs_epoll_set K (Some p) fd i tok add w = (rc, h, w') \<longrightarrow>
       (\<exists>p'. h = Some p' \<and> etable_wf (etab p') \<and> (rc \<noteq> 0 \<longrightarrow> p' = p) \<and> (rc = 0 \<longrightarrow> 0 \<le> fd \<and>
         (\<forall>g \<ge> 0. etable_look (etab p') g = (if g = fd then Some tok else etable_look (etab p) g))))) \<and>
    (\<forall>rc h w'. mjs_epoll_unregister K (Some p) fd w = Some (rc, h, w') \<longrightarrow>
       (\<exists>p'. h = Some p' \<and> etable_wf (etab p') \<and>
         (\<forall>g \<ge> 0. etable_look (etab p') g = (if g = fd then None else etable_look (etab p) g)))) \<and>
    (\<forall>mem w' rc q. mjs_epoll_create K mem (Some None) w = (rc, Some (Some q), w') \<longrightarrow>
       (\<forall>junk. mem = Some junk \<longrightarrow> length junk = 256) \<longrightarrow>
       etable_wf (etab q) \<and> (\<forall>g \<ge> 0. etable_look (etab q) g = None))"
proof (intro conjI allI impI)
  fix add rc h w' assume "mjs_epoll_set K (Some p) fd i tok add w = (rc, h, w')"
  from mjs_epoll_set_step [OF assms this]
  show "\<exists>p'. h = Some p' \<and> etable_wf (etab p') \<and> (rc \<noteq> 0 \<longrightarrow> p' = p) \<and> (rc = 0 \<longrightarrow> 0 \<le> fd \<and>
         (\<forall>g \<ge> 0. etable_look (etab p') g = (if g = fd then Some tok else etable_look (etab p) g)))"
    by blast
next
  fix rc h w' assume "mjs_epoll_unregister K (Some p) fd w = Some (rc, h, w')"
  from mjs_epoll_unregister_step [OF assms this]
  show "\<exists>p'. h = Some p' \<and> etable_wf (etab p') \<and>
         (\<forall>g \<ge> 0. etable_look (etab p') g = (if g = fd then None else etable_look (etab p) g))"
    by blast
next
  fix mem w' rc q assume cr: "mjs_epoll_create K mem (Some None) w = (rc, Some (Some q), w')"
    and len: "\<forall>junk. mem = Some junk \<longrightarrow> length junk = 256"
  then obtain junk where "length junk = 256" "etab q = (replicate 256 (- 1), junk)"
    unfolding mjs_epoll_create_def
    by (auto simp: etab_def split: prod.splits sum.splits option.splits)
  with etable_fresh [of junk] show "etable_wf (etab q)" "\<And>g. 0 \<le> g \<Longrightarrow> etable_look (etab q) g = None"
    by simp_all
qed

lemma fresh_poller_wf: "etable_wf (etab fresh_poller)"
  using etable_fresh [of "replicate 256 0"] by (simp add: etab_def fresh_poller_def)

lemma accept_ctl: "fd \<noteq> epfd p \<Longrightarrow> mjs_epoll_ctl accept_kernel p op fd i w = (0, w)"
  by (simp add: mjs_epoll_ctl_def accept_kernel_def Let_def)

text \<open>With an accepting kernel, a descriptor whose first slot is empty is registered there.\<close>

lemma accept_register:
  assumes "table_fd p ! epoll_hash fd = - 1" and "0 \<le> fd" and "mjs_check_interests i = 0"
    and "fd \<noteq> epfd p"
  shows "mjs_epoll_register accept_kernel (Some p) fd i tok w =
    (0, Some (p\<lparr>table_fd := (table_fd p)[epoll_hash fd := fd],
       table_tok := (table_tok p)[epoll_hash fd := tok]\<rparr>), w)"
  using assms slot_at_empty [OF assms(1)]
  by (simp add: mjs_epoll_register_def mjs_epoll_set_def accept_ctl Let_def not_le)

lemma interests_1: "mjs_check_interests 1 = 0"
  by (simp add: check_interests_iff poll_flags)

theorem epoll_registry_map_witness:
  "\<exists>p'. mjs_epoll_register accept_kernel (Some fresh_poller) 5 1 77 () = (0, Some p', ()) \<and>
     etable_wf (etab p') \<and> etable_look (etab p') 5 = Some 77 \<and>
     etable_look (etab p') 6 = etable_look (etab fresh_poller) 6"
proof -
  have e: "table_fd fresh_poller ! epoll_hash 5 = - 1"
    by (simp add: fresh_poller_def)
  obtain p' where reg: "mjs_epoll_set accept_kernel (Some fresh_poller) 5 1 77 True () = (0, Some p', ())"
    using accept_register [OF e _ interests_1, of 77 "()"] by (simp add: mjs_epoll_register_def fresh_poller_def)
  have "\<exists>q. Some p' = Some q \<and> etable_wf (etab q) \<and> (\<forall>g \<ge> 0. etable_look (etab q) g =
      (if g = 5 then Some 77 else etable_look (etab fresh_poller) g))"
    using epoll_registry_map [OF fresh_poller_wf, of accept_kernel 5 1 77 "()"] reg by blast
  with reg show ?thesis
    by (auto simp: mjs_epoll_register_def)
qed

text \<open>
  (C23) What a wait delivers. After a successful registration of a descriptor, and any later
  calls on other descriptors, a successful \<open>mjs_epoll_wait\<close> delivers, in the kernel's order and
  without dropping any, exactly the reported events of the registered descriptors: each event
  of the descriptor carries the token it was registered with, the wake eventfd never occupies
  a slot, and the count stored is the number delivered, at most the capacity.
\<close>
theorem epoll_wait_delivers:
  assumes "etable_wf (etab p)" and "mjs_epoll_register K (Some p) fd i tok w = (0, h1, w1)"
    and "epoll_run K cs h1 w1 = Some (Some p2, w2)" and "fd \<notin> call_fd ` set cs" and "fd \<noteq> wfd p"
    and "k_epoll_wait K (epfd p2) (if cap < 256 then uint cap else 256) (epoll_timeout tmo) w2
      = (Inr evs, w3)"
    and "length evs \<le> unat cap" and "cap \<noteq> 0"
    and "mjs_epoll_wait K (Some p2) True cap tmo (Some x) w2 = (rc, out, out_n, w4)"
  shows "rc = 0 \<and> out = deliverable p2 evs \<and> out_n = Some (of_nat (length out)) \<and>
    length out \<le> unat cap \<and>
    (\<forall>e. (e, fd) \<in> set evs \<longrightarrow>
       \<lparr>pe_token = tok, pe_fd = fd, pe_events = epoll_flags e\<rparr> \<in> set out) \<and>
    (\<forall>ev \<in> set out. pe_fd ev \<noteq> wfd p2 \<and>
       etable_look (etab p2) (pe_fd ev) = Some (pe_token ev))"
proof -
  obtain p1 where p1: "h1 = Some p1" "etable_wf (etab p1)" "wfd p1 = wfd p" "0 \<le> fd"
    "etable_look (etab p1) fd = Some tok"
    using mjs_epoll_set_step [OF assms(1) assms(2) [unfolded mjs_epoll_register_def]] by auto
  have p2: "wfd p2 = wfd p" "etable_look (etab p2) fd = Some tok"
    using epoll_run_keeps [OF assms(3) [unfolded p1(1)] p1(2,4) assms(4)] p1(3,5) by auto
  have "length (deliverable p2 evs) \<le> length evs"
  proof (induction evs)
    case (Cons a evs)
    then show ?case
      by (cases a) (auto simp: deliverable_def split: option.splits)
  qed (simp add: deliverable_def)
  then have all: "fst (epoll_deliver K p2 (unat cap) evs [] w3) = deliverable p2 evs"
    and len: "length (deliverable p2 evs) \<le> unat cap"
    using epoll_deliver_eq [of "[]" "unat cap" K p2 evs w3] assms(7) by simp_all
  have res: "rc = 0" "out = deliverable p2 evs" "out_n = Some (of_nat (length out))"
    using assms(6,8,9) all by (auto simp: mjs_epoll_wait_def Let_def split: prod.splits)
  have "\<lparr>pe_token = tok, pe_fd = fd, pe_events = epoll_flags e\<rparr> \<in> set (deliverable p2 evs)"
    if "(e, fd) \<in> set evs" for e
    using that p2 assms(5) by (force simp: deliverable_def)
  moreover have "pe_fd ev \<noteq> wfd p2 \<and> etable_look (etab p2) (pe_fd ev) = Some (pe_token ev)"
    if "ev \<in> set (deliverable p2 evs)" for ev
    using that by (auto simp: deliverable_def split: if_splits option.splits)
  ultimately show ?thesis
    using res len by simp
qed

theorem epoll_wait_delivers_witness:
  "\<exists>p1 out. mjs_epoll_register accept_kernel (Some fresh_poller) 5 1 77 () = (0, Some p1, ()) \<and>
     mjs_epoll_wait accept_kernel (Some p1) True 8 None (Some 0) ()
       = (0, out, Some (of_nat (length out)), ()) \<and>
     \<lparr>pe_token = 77, pe_fd = 5, pe_events = epoll_flags 1\<rparr> \<in> set out"
proof -
  have e: "table_fd fresh_poller ! epoll_hash 5 = - 1"
    by (simp add: fresh_poller_def)
  obtain p1 where reg: "mjs_epoll_register accept_kernel (Some fresh_poller) 5 1 77 () = (0, Some p1, ())"
    using accept_register [OF e _ interests_1, of 77 "()"] by (simp add: fresh_poller_def)
  obtain rc out n where wt: "mjs_epoll_wait accept_kernel (Some p1) True 8 None (Some 0) () = (rc, out, n, ())"
    by (metis prod_cases3 old.unit.exhaust)
  have run: "epoll_run accept_kernel [] (Some p1) () = Some (Some p1, ())" by simp
  have kw: "k_epoll_wait accept_kernel (epfd p1) (if (8 :: u32) < 256 then uint (8 :: u32) else 256)
      (epoll_timeout None) () = (Inr [(1, 4), (1, 5)], ())"
    by (simp add: accept_kernel_def)
  have "rc = 0 \<and> n = Some (of_nat (length out)) \<and>
      \<lparr>pe_token = 77, pe_fd = 5, pe_events = epoll_flags 1\<rparr> \<in> set out"
    using epoll_wait_delivers [OF fresh_poller_wf reg run _ _ kw _ _ wt] by (auto simp: fresh_poller_def)
  with reg wt show ?thesis by blast
qed

text \<open>
  The wait's timeout. No timeout waits for ever, a zero timeout polls; every other timeout
  is rounded up to whole milliseconds and clamped to the largest \<open>int\<close>, so the kernel never
  waits shorter than asked (up to the clamp) and a sub-millisecond timeout does not spin. The
  exception is a timeout within a millisecond of the largest 64-bit value, where the
  rounding sum wraps around and the wait degenerates to a poll.
\<close>
theorem epoll_timeout_rounds_up:
  assumes "0 < unat ns"
  shows "epoll_timeout None = - 1 \<and> epoll_timeout (Some 0) = 0 \<and>
    (unat ns + 999999 < 18446744073709551616 \<longrightarrow>
       0 < epoll_timeout (Some ns) \<and> epoll_timeout (Some ns) \<le> 2147483647 \<and>
       (int (unat ns) \<le> 1000000 * epoll_timeout (Some ns) \<or> epoll_timeout (Some ns) = 2147483647) \<and>
       1000000 * epoll_timeout (Some ns) < int (unat ns) + 1000000) \<and>
    (18446744073709551616 \<le> unat ns + 999999 \<longrightarrow> epoll_timeout (Some ns) = 0)"
proof (intro conjI impI)
  show "epoll_timeout None = - 1" "epoll_timeout (Some 0) = 0"
    by (simp_all add: epoll_timeout_def)
next
  assume "unat ns + 999999 < 18446744073709551616"
  note eq = epoll_timeout_eq [OF assms this]
  define m where "m = (unat ns + 999999) div 1000000"
  have m: "unat ns \<le> 1000000 * m" "1000000 * m < unat ns + 1000000" "0 < m"
  proof -
    have "m * 1000000 + (unat ns + 999999) mod 1000000 = unat ns + 999999"
      unfolding m_def by (rule div_mult_mod_eq)
    moreover have "(unat ns + 999999) mod 1000000 < 1000000" by simp
    ultimately show "unat ns \<le> 1000000 * m" "1000000 * m < unat ns + 1000000" "0 < m"
      using assms by linarith+
  qed
  have e: "epoll_timeout (Some ns) = min 2147483647 (int m)"
    unfolding eq m_def ..
  show "0 < epoll_timeout (Some ns)" "epoll_timeout (Some ns) \<le> 2147483647"
    "int (unat ns) \<le> 1000000 * epoll_timeout (Some ns) \<or> epoll_timeout (Some ns) = 2147483647"
    "1000000 * epoll_timeout (Some ns) < int (unat ns) + 1000000"
    unfolding e using m by linarith+
next
  assume wrap: "18446744073709551616 \<le> unat ns + 999999"
  have "unat (ns + 999999) = (unat ns + 999999) mod 18446744073709551616"
    by (simp add: unat_word_ariths)
  also have "\<dots> = unat ns + 999999 - 18446744073709551616"
    unfolding le_mod_geq [OF wrap] using unat_lt64 [of ns] by (intro mod_less) linarith
  finally have "unat (ns + 999999) < 1000000"
    using unat_lt64 [of ns] by linarith
  then have "unat ((ns + 999999) div 1000000) = 0"
    by (simp add: unat_div)
  then have "(ns + 999999) div 1000000 = 0"
    by (simp add: word_eq_unat)
  then show "epoll_timeout (Some ns) = 0"
    by (simp add: epoll_timeout_def)
qed

theorem epoll_timeout_rounds_up_witness:
  "epoll_timeout (Some 1500000) = 2 \<and> epoll_timeout (Some (- 1)) = 0"
proof -
  have "0 < unat (1500000 :: u64)" and "0 < unat (- 1 :: u64)"
    by (simp_all add: unat_max64)
  from epoll_timeout_rounds_up [OF this(1)] epoll_timeout_rounds_up [OF this(2)] show ?thesis
    by (simp add: unat_max64) (simp add: epoll_timeout_def)
qed

text \<open>The hash depends on the low eight bits of the descriptor only, and is a bijection of them.\<close>

lemma epoll_hash_low: "epoll_hash fd = nat (fd mod 256) * 177 mod 256"
proof -
  have "fd * 2654435761 mod 256 = (fd mod 256) * (2654435761 mod 256) mod 256"
    by (rule mod_mult_eq [symmetric])
  moreover have "2654435761 mod 256 = (177 :: int)" by simp
  ultimately have low: "fd * 2654435761 mod 256 = (fd mod 256) * 177 mod 256"
    by (simp only:)
  have "(of_int fd * 2654435761 :: u64) AND 255 = take_bit 8 (of_int (fd * 2654435761) :: u64)"
    by (simp add: take_bit_eq_mask mask_eq_exp_minus_1)
  also have "\<dots> = of_int (take_bit 8 (fd * 2654435761))"
    by (simp only: take_bit_of_int)
  also have "take_bit 8 (fd * 2654435761) = int (nat (fd mod 256) * 177 mod 256)"
    by (simp add: take_bit_eq_mod zmod_int low)
  finally have "epoll_hash fd = unat (of_nat (nat (fd mod 256) * 177 mod 256) :: u64)"
    by (simp add: epoll_hash_def)
  also have "\<dots> = nat (fd mod 256) * 177 mod 256"
    by (rule unat_of_nat64) (rule less_trans [of _ 256]; simp)
  finally show ?thesis .
qed

lemma epoll_hash_inj: "epoll_hash fd = epoll_hash g \<Longrightarrow> fd mod 256 = g mod 256"
proof -
  have undo: "int (epoll_hash x * 81 mod 256) = x mod 256" for x
  proof -
    have "epoll_hash x * 81 mod 256 = nat (x mod 256) * (177 * 81) mod 256"
      by (simp only: epoll_hash_low mod_mult_left_eq mult.assoc)
    also have "\<dots> = nat (x mod 256) * ((177 * 81) mod 256) mod 256"
      by (simp only: mod_mult_right_eq)
    also have "\<dots> = nat (x mod 256)"
      by (simp add: nat_less_iff)
    finally show ?thesis by simp
  qed
  then show "epoll_hash fd = epoll_hash g \<Longrightarrow> fd mod 256 = g mod 256"
    by metis
qed

lemma ctl_lawD:
  assumes "epoll_ctl_law K (epfd p) I F" and "fd \<in> F"
  shows "fd \<notin> I w \<Longrightarrow> \<exists>w'. mjs_epoll_ctl K p EPOLL_CTL_ADD fd i w = (0, w') \<and> I w' = insert fd (I w)"
    and "fd \<in> I w \<Longrightarrow> \<exists>w'. mjs_epoll_ctl K p EPOLL_CTL_DEL fd i w = (0, w') \<and> I w' = I w - {fd}"
proof -
  note law = assms(1) [unfolded epoll_ctl_law_def, rule_format, OF assms(2)]
  define e where "e = (flag_if (i AND MJS_POLL_READABLE \<noteq> 0) EPOLLIN OR
      flag_if (i AND MJS_POLL_WRITABLE \<noteq> 0) EPOLLOUT) OR EPOLLRDHUP"
  show "\<exists>w'. mjs_epoll_ctl K p EPOLL_CTL_ADD fd i w = (0, w') \<and> I w' = insert fd (I w)" if "fd \<notin> I w"
    using law [of w e fd] that by (auto simp: mjs_epoll_ctl_def Let_def e_def)
  show "\<exists>w'. mjs_epoll_ctl K p EPOLL_CTL_DEL fd i w = (0, w') \<and> I w' = I w - {fd}" if "fd \<in> I w"
    using law [of w 0 0] that by (auto simp: mjs_epoll_ctl_def)
qed

lemma churn_step:
  assumes law: "epoll_ctl_law K (epfd p) I F" and fd: "fd \<in> F" "fd \<notin> I w" "0 \<le> fd" and i: "mjs_check_interests i = 0"
    and T: "table_fd p ! epoll_hash fd = - 1" "length (table_fd p) = 256"
  shows "\<exists>p' w'. epoll_churn K ((fd, i, tok) # xs) (Some p) w = epoll_churn K xs (Some p') w' \<and>
    table_fd p' = (table_fd p)[epoll_hash fd := - 2] \<and> epfd p' = epfd p \<and> I w' = I w"
proof -
  let ?h = "epoll_hash fd"
  let ?p = "p\<lparr>table_fd := (table_fd p)[?h := fd], table_tok := (table_tok p)[?h := tok]\<rparr>"
  obtain w1 where w1: "mjs_epoll_ctl K p EPOLL_CTL_ADD fd i w = (0, w1)" "I w1 = insert fd (I w)"
    using ctl_lawD(1) [OF law fd(1,2)] by blast
  have reg: "mjs_epoll_register K (Some p) fd i tok w = (0, Some ?p, w1)"
    using w1(1) fd(3) i slot_at_empty [OF T(1)]
    by (simp add: mjs_epoll_register_def mjs_epoll_set_def Let_def not_le)
  have at: "table_fd ?p ! ?h = fd"
    using T(2) by simp
  have "epoll_probe (table_fd ?p) fd ?h 256 (Suc 255) = ?h"
    using at fd(3) by (simp only: epoll_probe.simps) simp
  then have slot: "mjs_epoll_slot (table_fd ?p) fd = ?h"
    by (simp add: mjs_epoll_slot_def)
  have "epoll_ctl_law K (epfd ?p) I F" "fd \<in> I w1" using law w1(2) by simp_all
  then obtain w2 where w2: "mjs_epoll_ctl K ?p EPOLL_CTL_DEL fd 0 w1 = (0, w2)" "I w2 = I w"
    using ctl_lawD(2) [of K ?p I F fd w1 0] fd(1,2) w1(2) by auto
  have "mjs_epoll_unregister K (Some ?p) fd w1 =
      Some (0, Some (?p\<lparr>table_fd := (table_fd ?p)[?h := - 2]\<rparr>), w2)"
    using at slot w2(1) fd(3) by (simp add: mjs_epoll_unregister_def Let_def not_le)
  with reg have "epoll_churn K ((fd, i, tok) # xs) (Some p) w =
      epoll_churn K xs (Some (?p\<lparr>table_fd := (table_fd ?p)[?h := - 2]\<rparr>)) w2"
    by simp
  then show ?thesis
    using w2(2) by (intro exI [of _ "?p\<lparr>table_fd := (table_fd ?p)[?h := - 2]\<rparr>"] exI [of _ w2]) simp
qed

lemma churn_run:
  assumes "epoll_ctl_law K (epfd p) I F" and "\<forall>(fd, i, tok) \<in> set xs. fd \<in> F \<and> fd \<notin> I w \<and> 0 \<le> fd \<and> mjs_check_interests i = 0"
    and "distinct (map (\<lambda>x. fst x mod 256) xs)" and "length (table_fd p) = 256"
    and "\<forall>x \<in> set xs. table_fd p ! epoll_hash (fst x) = - 1"
  shows "\<exists>p' w'. epoll_churn K xs (Some p) w = Some (Some p', w') \<and> I w' = I w \<and>
    length (table_fd p') = 256 \<and> (\<forall>s < 256. table_fd p' ! s =
      (if s \<in> (epoll_hash \<circ> fst) ` set xs then - 2 else table_fd p ! s))"
  using assms
proof (induction xs arbitrary: p w)
  case (Cons x xs)
  obtain fd i tok where x: "x = (fd, i, tok)" by (cases x)
  have "fd \<in> F" "fd \<notin> I w" "0 \<le> fd" "mjs_check_interests i = 0" "table_fd p ! epoll_hash fd = - 1"
    using Cons.prems(2,5) x by auto
  from churn_step [OF Cons.prems(1) this Cons.prems(4), of tok xs] obtain p1 w1 where
    p1: "epoll_churn K (x # xs) (Some p) w = epoll_churn K xs (Some p1) w1"
    "table_fd p1 = (table_fd p)[epoll_hash fd := - 2]" "epfd p1 = epfd p" "I w1 = I w"
    unfolding x by blast
  have ne: "epoll_hash (fst y) \<noteq> epoll_hash fd" if "y \<in> set xs" for y
    using Cons.prems(3) that epoll_hash_inj [of "fst y" fd] by (force simp: x)
  have "\<exists>p' w'. epoll_churn K xs (Some p1) w1 = Some (Some p', w') \<and> I w' = I w1 \<and>
    length (table_fd p') = 256 \<and> (\<forall>s < 256. table_fd p' ! s =
      (if s \<in> (epoll_hash \<circ> fst) ` set xs then - 2 else table_fd p1 ! s))"
  proof (rule Cons.IH)
    show "\<forall>y \<in> set xs. table_fd p1 ! epoll_hash (fst y) = - 1"
    proof
      fix y assume y: "y \<in> set xs"
      have "table_fd p ! epoll_hash (fst y) = - 1" using Cons.prems(5) y by simp
      then show "table_fd p1 ! epoll_hash (fst y) = - 1"
        unfolding p1(2) nth_list_update_neq [OF ne [OF y, symmetric]] .
    qed
  qed (use Cons.prems p1 in simp_all)
  then show ?case
    using p1 Cons.prems(4) by (auto simp: x nth_list_update)
qed simp

text \<open>Among 256 descriptors that differ in their low eight bits, every slot is the first of one.\<close>

lemma hashes_cover:
  assumes "distinct (map (\<lambda>x. fst x mod 256) xs)" and "length xs = 256"
  shows "(epoll_hash \<circ> fst) ` set xs = {..<256}"
proof (rule card_subset_eq)
  have "distinct (map (epoll_hash \<circ> fst) xs)"
    using assms(1) by (auto simp: distinct_map inj_on_def dest: epoll_hash_inj)
  from distinct_card [OF this] show "card ((epoll_hash \<circ> fst) ` set xs) = card {..<(256 :: nat)}"
    using assms(2) by simp
qed auto

text \<open>
  (C27) Tombstones exhaust the table. Take a poller with an empty table, as creation leaves it,
  and 256 pollable descriptors no two of which agree in their low eight bits, such as 256
  consecutive ones. Registering and at once unregistering them one after the other, with any valid
  interests and tokens, succeeds throughout and leaves no live registration. Yet from then on every
  valid registration and modification of any descriptor is refused with \<open>-ENOSPC\<close>, because only empty slots end
  a probe, and every unregister of a non-negative descriptor indexes the table at its capacity, outside its bounds,
  because the sentinel is not checked there.
\<close>
theorem epoll_tombstones_exhaust:
  assumes "epoll_ctl_law K (epfd p) I F" and "table_fd p = replicate 256 (- 1)"
    and "\<forall>(fd, i, tok) \<in> set xs. fd \<in> F \<and> fd \<notin> I w \<and> 0 \<le> fd \<and> mjs_check_interests i = 0"
    and "distinct (map (\<lambda>x. fst x mod 256) xs)" and "length xs = 256"
  shows "\<exists>p' w'. epoll_churn K xs (Some p) w = Some (Some p', w') \<and> I w' = I w \<and>
    (\<forall>s < 256. table_fd p' ! s = - 2) \<and>
    (\<forall>fd i tok v. 0 \<le> fd \<and> mjs_check_interests i = 0 \<longrightarrow>
       mjs_epoll_register K (Some p') fd i tok v = (- ENOSPC, Some p', v) \<and>
       mjs_epoll_modify K (Some p') fd i tok v = (- ENOSPC, Some p', v)) \<and>
    (\<forall>fd v. 0 \<le> fd \<longrightarrow> mjs_epoll_unregister K (Some p') fd v = None)"
proof -
  have "length (table_fd p) = 256" "\<forall>x \<in> set xs. table_fd p ! epoll_hash (fst x) = - 1"
    by (simp_all add: assms(2))
  from churn_run [OF assms(1,3,4) this] obtain p' w' where
    p': "epoll_churn K xs (Some p) w = Some (Some p', w')" "I w' = I w" and
    T: "\<forall>s < 256. table_fd p' ! s = (if s \<in> (epoll_hash \<circ> fst) ` set xs then - 2 else table_fd p ! s)"
    by blast
  have tomb: "\<forall>s < 256. table_fd p' ! s = - 2"
    using T unfolding hashes_cover [OF assms(4,5)] by simp
  have full: "mjs_epoll_slot (table_fd p') fd = 256" if "0 \<le> fd" for fd
    unfolding mjs_epoll_slot_def using tomb that by (intro probe_full) auto
  have "mjs_epoll_register K (Some p') fd i tok v = (- ENOSPC, Some p', v)"
    "mjs_epoll_modify K (Some p') fd i tok v = (- ENOSPC, Some p', v)"
    if "0 \<le> fd \<and> mjs_check_interests i = 0" for fd i tok v
    using that full [of fd] by (simp_all add: mjs_epoll_register_def mjs_epoll_modify_def mjs_epoll_set_def Let_def)
  moreover have "mjs_epoll_unregister K (Some p') fd v = None" if "0 \<le> fd" for fd v
    using that full [OF that] by (simp add: mjs_epoll_unregister_def Let_def split: prod.splits)
  ultimately show ?thesis
    using p' tomb by blast
qed

lemma interest_kernel_law: "epoll_ctl_law interest_kernel 3 (\<lambda>w. w) {5..}"
  by (simp add: epoll_ctl_law_def interest_kernel_def)

theorem epoll_tombstones_exhaust_witness:
  "\<exists>p' w'. epoll_churn interest_kernel (map (\<lambda>n. (int n, 1, 0)) [5..<261]) (Some fresh_poller) {4} = Some (Some p', w') \<and>
    w' = {4} \<and> mjs_epoll_register interest_kernel (Some p') 7 1 9 w' = (- ENOSPC, Some p', w') \<and>
    mjs_epoll_unregister interest_kernel (Some p') 7 w' = None"
proof -
  let ?xs = "map (\<lambda>n. (int n, 1, 0)) [5..<261] :: (int \<times> u32 \<times> u64) list"
  have law: "epoll_ctl_law interest_kernel (epfd fresh_poller) (\<lambda>w. w) {5..}"
    using interest_kernel_law by (simp add: fresh_poller_def)
  have T: "table_fd fresh_poller = replicate 256 (- 1)" by (simp add: fresh_poller_def)
  have ok: "\<forall>(fd, i, tok) \<in> set ?xs. fd \<in> {5..} \<and> fd \<notin> {4} \<and> 0 \<le> fd \<and> mjs_check_interests i = 0"
    by (auto simp: interests_1)
  have "inj_on (\<lambda>n. int n mod 256) {5..<261}"
  proof (rule inj_onI)
    fix a b assume ab: "a \<in> {5..<261 :: nat}" "b \<in> {5..<261}" and "int a mod 256 = int b mod 256"
    then have "256 dvd int a - int b" by (simp add: mod_eq_dvd_iff)
    then obtain k where "int a - int b = 256 * k" by (rule dvdE)
    moreover from this ab have "k < 1" "- 1 < k" by simp_all
    ultimately show "a = b" by simp
  qed
  then have d: "distinct (map (\<lambda>x. fst x mod 256) ?xs)"
    by (simp add: distinct_map comp_def)
  from epoll_tombstones_exhaust [OF law T ok d] obtain p' w' where
    "epoll_churn interest_kernel ?xs (Some fresh_poller) {4} = Some (Some p', w')" "w' = {4}"
    and reg: "\<forall>fd i tok v. 0 \<le> fd \<and> mjs_check_interests i = 0 \<longrightarrow>
       mjs_epoll_register interest_kernel (Some p') fd i tok v = (- ENOSPC, Some p', v)"
    and unr: "\<forall>fd v. 0 \<le> fd \<longrightarrow> mjs_epoll_unregister interest_kernel (Some p') fd v = None"
    by auto
  then show ?thesis
    using reg [rule_format, of 7 1 9] unr [rule_format, of 7] by (auto simp: interests_1)
qed

end
