(* ===== verification/Mjs_Poller.thy ===== *)
theory Mjs_Poller
  imports Mjs_Poll Mjs_Sync
begin

unbundle bit_operations_syntax

text \<open>
  The kqueue readiness poller (native/posix/mjs\_poller.c). A poller is its kqueue descriptor;
  the registrations are the kernel's knotes, so \<open>kevent\<close> is a record argument over a state of
  any type, and \<open>kevent_law\<close> its documented behaviour on a view of the knotes.
\<close>

section \<open>Definitions\<close>

definition MJS_POLLER_WAKE_IDENT :: u64 where
  "MJS_POLLER_WAKE_IDENT = 0x4D4A535953"

datatype kq_filter = EVFILT_READ | EVFILT_WRITE | EVFILT_USER

text \<open>A delivered kevent: identifier, filter, whether \<open>EV_EOF\<close> is set, data, user data.\<close>

record kevent =
  kv_ident :: u64
  kv_filter :: kq_filter
  kv_eof :: bool
  kv_data :: int
  kv_udata :: u64

text \<open>
  The uses of \<open>kevent\<close>: \<open>EV_ADD | EV_CLEAR\<close> with user data, \<open>EV_DELETE\<close>, the
  \<open>NOTE_TRIGGER\<close> of the wake knote, and the wait with a batch size and an optional timespec.
\<close>

record 'w kq_kernel =
  kq_add :: "int \<Rightarrow> u64 \<Rightarrow> kq_filter \<Rightarrow> u64 \<Rightarrow> 'w \<Rightarrow> unit host \<times> 'w"
  kq_delete :: "int \<Rightarrow> u64 \<Rightarrow> kq_filter \<Rightarrow> 'w \<Rightarrow> unit host \<times> 'w"
  kq_trigger :: "int \<Rightarrow> u64 \<Rightarrow> 'w \<Rightarrow> unit host \<times> 'w"
  kq_wait :: "int \<Rightarrow> int \<Rightarrow> (int \<times> int) option \<Rightarrow> 'w \<Rightarrow> kevent list host \<times> 'w"
  kq_create :: "'w \<Rightarrow> int host \<times> 'w"
  kq_close :: "int \<Rightarrow> 'w \<Rightarrow> 'w"

definition mjs_apply_filter ::
    "'w kq_kernel \<Rightarrow> int \<Rightarrow> u64 \<Rightarrow> kq_filter \<Rightarrow> bool \<Rightarrow> u64 \<Rightarrow> 'w \<Rightarrow> int \<times> 'w" where
  "mjs_apply_filter K kq ident filt want token w =
     (if want
      then (case kq_add K kq ident filt token w of
              (Inl e, w') \<Rightarrow> (- e, w')
            | (Inr _, w') \<Rightarrow> (0, w'))
      else (case kq_delete K kq ident filt w of
              (Inl e, w') \<Rightarrow> (if e \<noteq> ENOENT then - e else 0, w')
            | (Inr _, w') \<Rightarrow> (0, w')))"

text \<open>A poller handle is \<^term>\<open>None\<close> when NULL, and otherwise its kqueue descriptor.\<close>

definition mjs_poll_set ::
    "'w kq_kernel \<Rightarrow> int option \<Rightarrow> int \<Rightarrow> u32 \<Rightarrow> u64 \<Rightarrow> 'w \<Rightarrow> int \<times> 'w" where
  "mjs_poll_set K p fd interests token w =
     (case p of
        None \<Rightarrow> (- EINVAL, w)
      | Some kq \<Rightarrow>
          let rc = mjs_check_interests interests in
          if rc \<noteq> 0 then (rc, w)
          else if fd < 0 then (- EBADF, w)
          else
            let (rc, w1) = mjs_apply_filter K kq (of_int fd) EVFILT_READ
                             (interests AND MJS_POLL_READABLE \<noteq> 0) token w
            in if rc \<noteq> 0 then (rc, w1)
               else mjs_apply_filter K kq (of_int fd) EVFILT_WRITE
                      (interests AND MJS_POLL_WRITABLE \<noteq> 0) token w1)"

definition mjs_poller_create ::
    "'w kq_kernel \<Rightarrow> bool \<Rightarrow> int option slot \<Rightarrow> 'w \<Rightarrow> int \<times> int option slot \<times> 'w" where
  "mjs_poller_create K mem_ok out w =
     (if out = None then (- EFAULT, out, w)
      else case kq_create K w of
        (Inl e, w1) \<Rightarrow> (- e, out, w1)
      | (Inr kq, w1) \<Rightarrow>
         (case kq_add K kq MJS_POLLER_WAKE_IDENT EVFILT_USER 0 w1 of
            (Inl saved, w2) \<Rightarrow> (- saved, out, kq_close K kq w2)
          | (Inr _, w2) \<Rightarrow>
              if \<not> mem_ok then (- ENOMEM, out, kq_close K kq w2)
              else (0, Some (Some kq), w2)))"

definition mjs_poller_register ::
    "'w kq_kernel \<Rightarrow> int option \<Rightarrow> int \<Rightarrow> u32 \<Rightarrow> u64 \<Rightarrow> 'w \<Rightarrow> int \<times> 'w" where
  "mjs_poller_register K p fd interests token w = mjs_poll_set K p fd interests token w"

definition mjs_poller_modify ::
    "'w kq_kernel \<Rightarrow> int option \<Rightarrow> int \<Rightarrow> u32 \<Rightarrow> u64 \<Rightarrow> 'w \<Rightarrow> int \<times> 'w" where
  "mjs_poller_modify K p fd interests token w = mjs_poll_set K p fd interests token w"

definition mjs_poller_unregister ::
    "'w kq_kernel \<Rightarrow> int option \<Rightarrow> int \<Rightarrow> 'w \<Rightarrow> int \<times> 'w" where
  "mjs_poller_unregister K p fd w =
     (case p of
        None \<Rightarrow> (- EINVAL, w)
      | Some kq \<Rightarrow>
          if fd < 0 then (- EBADF, w)
          else
            let (rc, w1) = mjs_apply_filter K kq (of_int fd) EVFILT_READ False 0 w
            in if rc \<noteq> 0 then (rc, w1)
               else mjs_apply_filter K kq (of_int fd) EVFILT_WRITE False 0 w1)"

definition kevent_flags :: "kevent \<Rightarrow> u32" where
  "kevent_flags ev =
     (if kv_filter ev = EVFILT_WRITE then MJS_POLL_WRITABLE else MJS_POLL_READABLE) OR
     flag_if (kv_eof ev) MJS_POLL_EOF OR
     flag_if (kv_eof ev \<and> kv_data ev < 0) MJS_POLL_ERROR"

text \<open>The delivery loop; the descriptor is the identifier cut to a signed 32-bit number.\<close>

fun kevent_deliver :: "nat \<Rightarrow> kevent list \<Rightarrow> mjs_poll_event list \<Rightarrow> mjs_poll_event list" where
  "kevent_deliver cap [] out = out"
| "kevent_deliver cap (ev # evs) out =
     (if kv_ident ev = MJS_POLLER_WAKE_IDENT \<and> kv_filter ev = EVFILT_USER
      then kevent_deliver cap evs out
      else if length out \<ge> cap then kevent_deliver cap evs out
      else kevent_deliver cap evs
             (out @ [\<lparr>pe_token = kv_udata ev, pe_fd = sint (ucast (kv_ident ev) :: u32),
                      pe_events = kevent_flags ev\<rparr>]))"

definition mjs_poller_wait ::
    "'w kq_kernel \<Rightarrow> int option \<Rightarrow> bool \<Rightarrow> u32 \<Rightarrow> u64 option \<Rightarrow> u32 slot \<Rightarrow> 'w
      \<Rightarrow> int \<times> mjs_poll_event list \<times> u32 slot \<times> 'w" where
  "mjs_poller_wait K p events cap timeout_ns out_n w =
     (if p = None \<or> out_n = None then (- EFAULT, [], out_n, w)
      else if cap = 0 then (- EINVAL, [], out_n, w)
      else if \<not> events then (- EFAULT, [], out_n, w)
      else
        case kq_wait K (the p) (if cap < 256 then uint cap else 256)
               (map_option ns_timespec timeout_ns) w of
          (Inl e, w1) \<Rightarrow> (- e, [], out_n, w1)
        | (Inr evs, w1) \<Rightarrow>
            let out = kevent_deliver (unat cap) evs []
            in (0, out, Some (of_nat (length out)), w1))"

definition mjs_poller_wake :: "'w kq_kernel \<Rightarrow> int option \<Rightarrow> 'w \<Rightarrow> int \<times> 'w" where
  "mjs_poller_wake K p w =
     (case p of
        None \<Rightarrow> (- EINVAL, w)
      | Some kq \<Rightarrow>
         (case kq_trigger K kq MJS_POLLER_WAKE_IDENT w of
            (Inl e, w') \<Rightarrow> (- e, w')
          | (Inr _, w') \<Rightarrow> (0, w')))"

definition mjs_poller_close ::
    "'w kq_kernel \<Rightarrow> int option slot \<Rightarrow> 'w \<Rightarrow> int \<times> int option slot \<times> 'w" where
  "mjs_poller_close K p w =
     (case p of
        None \<Rightarrow> (- EINVAL, p, w)
      | Some None \<Rightarrow> (- EINVAL, p, w)
      | Some (Some kq) \<Rightarrow> (0, Some None, kq_close K kq w))"

text \<open>Hosts without kqueue: \<open>-ENOSYS\<close>, and nothing the arguments point to changes.\<close>

definition mjs_poller_stub :: "'a \<Rightarrow> int \<times> 'a" where
  "mjs_poller_stub args = (- ENOSYS, args)"

text \<open>
  The documented behaviour of the change list: the knotes of a kqueue are a map from identifier
  and filter to user data; an add creates or updates one knote, a delete removes one and
  reports \<open>ENOENT\<close> when there is none; a failing change changes nothing.
\<close>

type_synonym knotes = "u64 \<times> kq_filter \<Rightarrow> u64 option"

definition kevent_law :: "'w kq_kernel \<Rightarrow> int \<Rightarrow> ('w \<Rightarrow> knotes) \<Rightarrow> bool" where
  "kevent_law K kq N \<longleftrightarrow>
     (\<forall>i f u w r w'. kq_add K kq i f u w = (r, w') \<longrightarrow>
        (case r of Inl e \<Rightarrow> 0 < e \<and> N w' = N w | Inr _ \<Rightarrow> N w' = (N w)((i, f) \<mapsto> u))) \<and>
     (\<forall>i f w r w'. kq_delete K kq i f w = (r, w') \<longrightarrow>
        (case r of Inl e \<Rightarrow> 0 < e \<and> N w' = N w \<and> (e = ENOENT \<longrightarrow> N w (i, f) = None)
         | Inr _ \<Rightarrow> N w' = (N w)((i, f) := None)))"

text \<open>A kqueue whose state is its knotes.\<close>

definition map_kqueue :: "knotes kq_kernel" where
  "map_kqueue = \<lparr>
     kq_add = (\<lambda>_ i f u w. (Inr (), w((i, f) \<mapsto> u))),
     kq_delete = (\<lambda>_ i f w. if w (i, f) = None then (Inl ENOENT, w) else (Inr (), w((i, f) := None))),
     kq_trigger = (\<lambda>_ _ w. (Inr (), w)), kq_wait = (\<lambda>_ _ _ w. (Inr [], w)),
     kq_create = (\<lambda>w. (Inr 3, w)), kq_close = (\<lambda>_ w. w)\<rparr>"

section \<open>Lemmas\<close>

lemma map_kqueue_law: "kevent_law map_kqueue kq (\<lambda>w. w)"
  by (auto simp: kevent_law_def map_kqueue_def split: if_splits)

lemma apply_filter_law:
  assumes law: "kevent_law K kq N" and res: "mjs_apply_filter K kq i f want tok w = (rc, w')"
  shows "rc \<le> 0" and "rc = 0 \<Longrightarrow> N w' = (N w)((i, f) := (if want then Some tok else None))"
    and "rc \<noteq> 0 \<Longrightarrow> N w' = N w"
proof -
  have add: "kq_add K kq i f tok w = (r, w') \<Longrightarrow>
      (case r of Inl e \<Rightarrow> 0 < e \<and> N w' = N w | Inr _ \<Rightarrow> N w' = (N w)((i, f) \<mapsto> tok))" for r
    using law unfolding kevent_law_def by blast
  have del: "kq_delete K kq i f w = (r, w') \<Longrightarrow>
      (case r of Inl e \<Rightarrow> 0 < e \<and> N w' = N w \<and> (e = ENOENT \<longrightarrow> N w (i, f) = None)
         | Inr _ \<Rightarrow> N w' = (N w)((i, f) := None))" for r
    using law unfolding kevent_law_def by blast
  have "rc \<le> 0 \<and> (rc = 0 \<longrightarrow> N w' = (N w)((i, f) := (if want then Some tok else None))) \<and>
      (rc \<noteq> 0 \<longrightarrow> N w' = N w)"
  proof (cases want)
    case True
    then obtain r where "kq_add K kq i f tok w = (r, w')" "rc = (case r of Inl e \<Rightarrow> - e | Inr _ \<Rightarrow> 0)"
      using res by (auto simp: mjs_apply_filter_def split: prod.splits sum.splits)
    with add [of r] True show ?thesis by (auto split: sum.splits)
  next
    case False
    then obtain r where "kq_delete K kq i f w = (r, w')"
      "rc = (case r of Inl e \<Rightarrow> if e \<noteq> ENOENT then - e else 0 | Inr _ \<Rightarrow> 0)"
      using res by (auto simp: mjs_apply_filter_def split: prod.splits sum.splits)
    with del [of r] False show ?thesis by (auto simp: fun_upd_idem split: sum.splits if_splits)
  qed
  then show "rc \<le> 0" "rc = 0 \<Longrightarrow> N w' = (N w)((i, f) := (if want then Some tok else None))"
    "rc \<noteq> 0 \<Longrightarrow> N w' = N w"
    by blast+
qed

section \<open>Properties\<close>

text \<open>
  (C24) The kqueue poller upserts whole registrations. When register or modify succeeds, the
  descriptor has a knote exactly for each interest, carrying the new token, whatever it had
  before (a filter dropped from the interests is removed); when unregister succeeds it has
  none; a descriptor that never had one is no error. Knotes of other descriptors, and the wake
  knote, are never touched, even by a call that fails half-way.
\<close>
theorem poller_upsert:
  assumes "kevent_law K kq N" and "0 \<le> fd" and "mjs_check_interests interests = 0"
  shows "(\<forall>rc w'. mjs_poller_register K (Some kq) fd interests token w = (rc, w') \<longrightarrow> rc \<le> 0 \<and>
       (\<forall>j. fst j \<noteq> of_int fd \<or> snd j = EVFILT_USER \<longrightarrow> N w' j = N w j) \<and>
       (rc = 0 \<longrightarrow>
          N w' (of_int fd, EVFILT_READ)
            = (if interests AND MJS_POLL_READABLE \<noteq> 0 then Some token else None) \<and>
          N w' (of_int fd, EVFILT_WRITE)
            = (if interests AND MJS_POLL_WRITABLE \<noteq> 0 then Some token else None))) \<and>
    (\<forall>rc w'. mjs_poller_modify K (Some kq) fd interests token w = (rc, w') \<longrightarrow> rc \<le> 0 \<and>
       (\<forall>j. fst j \<noteq> of_int fd \<or> snd j = EVFILT_USER \<longrightarrow> N w' j = N w j) \<and>
       (rc = 0 \<longrightarrow>
          N w' (of_int fd, EVFILT_READ)
            = (if interests AND MJS_POLL_READABLE \<noteq> 0 then Some token else None) \<and>
          N w' (of_int fd, EVFILT_WRITE)
            = (if interests AND MJS_POLL_WRITABLE \<noteq> 0 then Some token else None))) \<and>
    (\<forall>rc w'. mjs_poller_unregister K (Some kq) fd w = (rc, w') \<longrightarrow> rc \<le> 0 \<and>
       (\<forall>j. fst j \<noteq> of_int fd \<or> snd j = EVFILT_USER \<longrightarrow> N w' j = N w j) \<and>
       (rc = 0 \<longrightarrow> N w' (of_int fd, EVFILT_READ) = None \<and> N w' (of_int fd, EVFILT_WRITE) = None)) \<and>
    (\<forall>w1 w2. kq_delete K kq (of_int fd) EVFILT_READ w = (Inl ENOENT, w1) \<longrightarrow>
       kq_delete K kq (of_int fd) EVFILT_WRITE w1 = (Inl ENOENT, w2) \<longrightarrow>
       mjs_poller_unregister K (Some kq) fd w = (0, w2))"
proof -
  have two: "rc \<le> 0 \<and> (\<forall>j. fst j \<noteq> of_int fd \<or> snd j = EVFILT_USER \<longrightarrow> N w' j = N w j) \<and>
      (rc = 0 \<longrightarrow> N w' (of_int fd, EVFILT_READ) = (if a then Some token else None) \<and>
        N w' (of_int fd, EVFILT_WRITE) = (if b then Some token else None))"
    if "(let (rc, w1) = mjs_apply_filter K kq (of_int fd) EVFILT_READ a token w
            in if rc \<noteq> 0 then (rc, w1)
               else mjs_apply_filter K kq (of_int fd) EVFILT_WRITE b token w1) = (rc, w')"
    for a b token rc w'
  proof -
    obtain r1 w1 where f1: "mjs_apply_filter K kq (of_int fd) EVFILT_READ a token w = (r1, w1)"
      by (cases "mjs_apply_filter K kq (of_int fd) EVFILT_READ a token w")
    note l1 = apply_filter_law [OF assms(1) f1]
    show ?thesis
    proof (cases "r1 = 0")
      case True
      with that f1 have f2: "mjs_apply_filter K kq (of_int fd) EVFILT_WRITE b token w1 = (rc, w')"
        by simp
      note l2 = apply_filter_law [OF assms(1) f2]
      show ?thesis
        using l2(1) l1(2) [OF True] l2(2,3) by (cases "rc = 0") auto
    next
      case False
      with that f1 l1(1) l1(3) [OF False] show ?thesis by auto
    qed
  qed
  have set: "(let (rc, w1) = mjs_apply_filter K kq (of_int fd) EVFILT_READ
        (interests AND MJS_POLL_READABLE \<noteq> 0) token w
      in if rc \<noteq> 0 then (rc, w1) else mjs_apply_filter K kq (of_int fd) EVFILT_WRITE
        (interests AND MJS_POLL_WRITABLE \<noteq> 0) token w1) = (rc, w')"
    if "mjs_poll_set K (Some kq) fd interests token w = (rc, w')" for rc w'
    using that assms(2,3) by (simp add: mjs_poll_set_def not_less)
  have unr: "(let (rc, w1) = mjs_apply_filter K kq (of_int fd) EVFILT_READ False 0 w
      in if rc \<noteq> 0 then (rc, w1) else mjs_apply_filter K kq (of_int fd) EVFILT_WRITE False 0 w1)
      = (rc, w')"
    if "mjs_poller_unregister K (Some kq) fd w = (rc, w')" for rc w'
    using that assms(2) by (simp add: mjs_poller_unregister_def not_less)
  have none: "mjs_poller_unregister K (Some kq) fd w = (0, w2)"
    if "kq_delete K kq (of_int fd) EVFILT_READ w = (Inl ENOENT, w1)"
      "kq_delete K kq (of_int fd) EVFILT_WRITE w1 = (Inl ENOENT, w2)" for w1 w2
    using that assms(2) by (simp add: mjs_poller_unregister_def mjs_apply_filter_def not_less)
  show ?thesis
    unfolding mjs_poller_register_def mjs_poller_modify_def
    using two [OF set] two [OF unr] none by simp
qed

theorem poller_upsert_witness:
  "\<exists>w'. mjs_poller_register map_kqueue (Some 3) 5 2 77 [(5, EVFILT_READ) \<mapsto> 1] = (0, w') \<and>
     mjs_poller_modify map_kqueue (Some 3) 5 2 77 [(5, EVFILT_READ) \<mapsto> 1] = (0, w') \<and>
     w' (5, EVFILT_READ) = None \<and> w' (5, EVFILT_WRITE) = Some 77"
proof -
  have i: "mjs_check_interests 2 = 0"
    by (simp add: check_interests_iff poll_flags)
  have bits: "(2 :: u32) AND MJS_POLL_READABLE = 0" "(2 :: u32) AND MJS_POLL_WRITABLE \<noteq> 0"
    by (simp_all add: poll_flags)
  have res: "mjs_poller_register map_kqueue (Some 3) 5 2 77 [(5, EVFILT_READ) \<mapsto> 1]
      = (0, [(5, EVFILT_WRITE) \<mapsto> 77])"
    "mjs_poller_modify map_kqueue (Some 3) 5 2 77 [(5, EVFILT_READ) \<mapsto> 1]
      = (0, [(5, EVFILT_WRITE) \<mapsto> 77])"
    by (simp_all add: mjs_poller_register_def mjs_poller_modify_def mjs_poll_set_def i bits mjs_apply_filter_def map_kqueue_def)
  have "(0 :: int) \<le> 5" by simp
  from poller_upsert [OF map_kqueue_law this i, of 3 77 "[(5, EVFILT_READ) \<mapsto> 1]"] res bits
  show ?thesis by simp
qed

end
