(* ===== verification/Mjs_Ring.thy ===== *)
theory Mjs_Ring
  imports Mjs_Poll Mjs_Sync Mjs_Page
begin

text \<open>
  The io\_uring handle and its submission ring (native/posix/mjs\_iouring.c, \<open>struct mjs_uring\<close> to
  \<open>uring_submit_poll_add\<close>). The memory shared with the kernel is the record \<open>uring_shared\<close>:
  head, tail and mask of both rings, the submission entries with their index array, and the
  completion entries. The kernel reads and writes it in \<open>io_uring_enter\<close>, the argument
  \<open>ku_enter\<close>; ring indices are 32-bit words that run free and wrap around. The lemmas show that
  the staged entries form a bounded FIFO queue, whatever the indices are.
\<close>

section \<open>Definitions\<close>

abbreviation (input) POLLIN :: int where "POLLIN \<equiv> 0x1"
abbreviation (input) POLLOUT :: int where "POLLOUT \<equiv> 0x4"
abbreviation (input) POLLERR :: int where "POLLERR \<equiv> 0x8"
abbreviation (input) POLLHUP :: int where "POLLHUP \<equiv> 0x10"
abbreviation (input) IORING_ENTER_GETEVENTS :: u32 where "IORING_ENTER_GETEVENTS \<equiv> 1"

definition MJS_URING_WAKE :: u64 where "MJS_URING_WAKE = 0xFFFFFFFFFFFFFFFE"
definition MJS_URING_TIMEOUT :: u64 where "MJS_URING_TIMEOUT = 0xFFFFFFFFFFFFFFFD"
definition MJS_URING_FIRST_SEQ :: u64 where "MJS_URING_FIRST_SEQ = 0x1000"

datatype uring_op = IORING_OP_NOP | IORING_OP_POLL_ADD | IORING_OP_POLL_REMOVE
  | IORING_OP_TIMEOUT | IORING_OP_TIMEOUT_REMOVE

text \<open>
  A submission entry. The address field of a timeout entry points at a timespec that the kernel
  reads when the entry is submitted; \<open>sqe_ts\<close> holds what it points at when the entry is staged. The
  timespec is a local variable of \<open>mjs_iouring_wait\<close>: for an entry that a failed or short
  submission leaves pending, the kernel later reads a frame that is gone, which this model does not
  represent.
\<close>

record io_uring_sqe =
  sqe_opcode :: uring_op
  sqe_async :: bool
  sqe_fd :: int
  sqe_poll_events :: u16
  sqe_addr :: u64
  sqe_len :: u32
  sqe_ts :: "(int \<times> int) option"
  sqe_user_data :: u64

definition zero_sqe :: io_uring_sqe where
  "zero_sqe = \<lparr>sqe_opcode = IORING_OP_NOP, sqe_async = False, sqe_fd = 0, sqe_poll_events = 0,
     sqe_addr = 0, sqe_len = 0, sqe_ts = None, sqe_user_data = 0\<rparr>"

record io_uring_cqe =
  cqe_user_data :: u64
  cqe_res :: int

record uring_shared =
  sq_head :: u32
  sq_tail :: u32
  sq_mask :: u32
  sq_array :: "u32 list"
  sqes :: "io_uring_sqe list"
  cq_head :: u32
  cq_tail :: u32
  cq_mask :: u32
  cqes :: "io_uring_cqe list"

record mjs_uring =
  ring_fd :: int
  wake_fd :: int
  sq_entries :: u32
  cq_entries :: u32
  sqes_at :: addr
  sqes_len :: u64
  sq_ring :: addr
  sq_ring_len :: u64
  cq_ring :: addr
  cq_ring_len :: u64
  shared :: uring_shared
  sqe_tail :: u32
  cqe_head :: u32
  r_fds :: "int list"
  r_seqs :: "u64 list"
  r_tok :: "u64 list"
  r_int :: "u32 list"
  r_at :: "addr \<times> addr \<times> addr \<times> addr"
  r_count :: u32
  r_cap :: u32
  next_seq :: u64
  wake_armed :: bool
  timeout_armed :: bool

record 'w uring_kernel =
  ku_enter :: "int \<Rightarrow> u32 \<Rightarrow> u32 \<Rightarrow> u32 \<Rightarrow> uring_shared \<Rightarrow> 'w \<Rightarrow> int host \<times> uring_shared \<times> 'w"
  ku_read :: "int \<Rightarrow> 'w \<Rightarrow> 'w"
  ku_write :: "int \<Rightarrow> 'w \<Rightarrow> unit host \<times> 'w"

definition uring_next_seq :: "mjs_uring \<Rightarrow> u64 \<times> mjs_uring" where
  "uring_next_seq u = (next_seq u, u\<lparr>next_seq := next_seq u + 1\<rparr>)"

definition mjs_interests_to_poll :: "u32 \<Rightarrow> int" where
  "mjs_interests_to_poll interests =
     (POLLHUP OR POLLERR) OR (if interests AND MJS_POLL_READABLE \<noteq> 0 then POLLIN else 0)
       OR (if interests AND MJS_POLL_WRITABLE \<noteq> 0 then POLLOUT else 0)"

subsection \<open>The submission ring\<close>

text \<open>\<open>uring_get_sqe\<close> yields the index of the zeroed entry it hands out, or \<^term>\<open>None\<close> for NULL.\<close>

definition uring_get_sqe :: "mjs_uring \<Rightarrow> nat option \<times> mjs_uring" where
  "uring_get_sqe u =
     (let tail = sqe_tail u; idx = tail AND sq_mask (shared u)
      in if tail - sq_head (shared u) < sq_entries u
         then (Some (unat idx),
               u\<lparr>shared := (shared u)\<lparr>sqes := (sqes (shared u))[unat idx := zero_sqe],
                                      sq_array := (sq_array (shared u))[unat idx := idx]\<rparr>,
                 sqe_tail := tail + 1\<rparr>)
         else (None, u))"

text \<open>Writing the entry at an index, through the pointer \<open>uring_get_sqe\<close> returned.\<close>

definition put_sqe :: "nat \<Rightarrow> io_uring_sqe \<Rightarrow> mjs_uring \<Rightarrow> mjs_uring" where
  "put_sqe i e u = u\<lparr>shared := (shared u)\<lparr>sqes := (sqes (shared u))[i := e]\<rparr>\<rparr>"

text \<open>The wrapper around \<open>io_uring_enter\<close>: the count of consumed entries, or minus the error.\<close>

definition ioring_enter ::
    "'w uring_kernel \<Rightarrow> int \<Rightarrow> u32 \<Rightarrow> u32 \<Rightarrow> u32 \<Rightarrow> uring_shared \<Rightarrow> 'w \<Rightarrow> int \<times> uring_shared \<times> 'w" where
  "ioring_enter K fd to_submit min_complete flags sh w =
     (case ku_enter K fd to_submit min_complete flags sh w of
        (Inl e, sh', w') \<Rightarrow> (- e, sh', w')
      | (Inr r, sh', w') \<Rightarrow> (c_int_of r, sh', w'))"

definition uring_submit ::
    "'w uring_kernel \<Rightarrow> mjs_uring \<Rightarrow> u32 \<Rightarrow> u32 \<Rightarrow> 'w \<Rightarrow> int \<times> mjs_uring \<times> 'w" where
  "uring_submit K u min_complete flags w =
     (let pending = sqe_tail u - sq_head (shared u)
      in if pending = 0 \<and> min_complete = 0 then (0, u, w)
         else
           let sh = (shared u)\<lparr>sq_tail := sqe_tail u\<rparr>
           in case ioring_enter K (ring_fd u) pending min_complete flags sh w of
                (rc, sh', w') \<Rightarrow> (rc, u\<lparr>shared := sh'\<rparr>, w'))"

definition uring_stage_poll_add :: "mjs_uring \<Rightarrow> int \<Rightarrow> int \<Rightarrow> u64 \<Rightarrow> int \<times> mjs_uring" where
  "uring_stage_poll_add u fd poll_mask user_data =
     (case uring_get_sqe u of
        (None, u1) \<Rightarrow> (- EAGAIN, u1)
      | (Some i, u1) \<Rightarrow>
          (0, put_sqe i (zero_sqe\<lparr>sqe_opcode := IORING_OP_POLL_ADD, sqe_async := True, sqe_fd := fd,
                sqe_poll_events := of_int poll_mask, sqe_user_data := user_data\<rparr>) u1))"

definition uring_stage_poll_remove :: "mjs_uring \<Rightarrow> u64 \<Rightarrow> int \<times> mjs_uring" where
  "uring_stage_poll_remove u d =
     (case uring_get_sqe u of
        (None, u1) \<Rightarrow> (- EAGAIN, u1)
      | (Some i, u1) \<Rightarrow> (0, put_sqe i (zero_sqe\<lparr>sqe_opcode := IORING_OP_POLL_REMOVE, sqe_addr := d\<rparr>) u1))"

definition uring_stage_timeout :: "mjs_uring \<Rightarrow> int \<times> int \<Rightarrow> int \<times> mjs_uring" where
  "uring_stage_timeout u ts =
     (case uring_get_sqe u of
        (None, u1) \<Rightarrow> (- EAGAIN, u1)
      | (Some i, u1) \<Rightarrow> (0, put_sqe i (zero_sqe\<lparr>sqe_opcode := IORING_OP_TIMEOUT, sqe_ts := Some ts,
            sqe_len := 1, sqe_user_data := MJS_URING_TIMEOUT\<rparr>) u1))"

definition uring_stage_timeout_remove :: "mjs_uring \<Rightarrow> int \<times> mjs_uring" where
  "uring_stage_timeout_remove u =
     (case uring_get_sqe u of
        (None, u1) \<Rightarrow> (- EAGAIN, u1)
      | (Some i, u1) \<Rightarrow> (0, put_sqe i (zero_sqe\<lparr>sqe_opcode := IORING_OP_TIMEOUT_REMOVE,
            sqe_addr := MJS_URING_TIMEOUT\<rparr>) u1))"

definition uring_submit_poll_add ::
    "'w uring_kernel \<Rightarrow> mjs_uring \<Rightarrow> int \<Rightarrow> int \<Rightarrow> u64 \<Rightarrow> 'w \<Rightarrow> int \<times> mjs_uring \<times> 'w" where
  "uring_submit_poll_add K u fd poll_mask user_data w =
     (let (rc, u1) = uring_stage_poll_add u fd poll_mask user_data;
          (rc2, u2, w2) =
            (if rc = - EAGAIN then
               (case uring_submit K u1 0 0 w of
                  (rc', u', w') \<Rightarrow>
                    if rc' < 0 then (rc', u', w')
                    else (case uring_stage_poll_add u' fd poll_mask user_data of
                            (rc'', u'') \<Rightarrow> (rc'', u'', w')))
             else (rc, u1, w))
      in if rc2 \<noteq> 0 then (rc2, u2, w2)
         else case uring_submit K u2 0 0 w2 of
                (rc3, u3, w3) \<Rightarrow> (if rc3 < 0 then rc3 else 0, u3, w3))"

subsection \<open>The ring as a queue\<close>

text \<open>
  A well-formed ring: a power of two of entries, addressed by the mask, at most that many of
  them handed out. The pending entries are those between the kernel's head and the local tail.
\<close>

definition sq_wf :: "mjs_uring \<Rightarrow> bool" where
  "sq_wf u \<longleftrightarrow> (\<exists>k < 32. unat (sq_entries u) = 2 ^ k \<and> sq_mask (shared u) = mask k) \<and>
     length (sqes (shared u)) = unat (sq_entries u) \<and> length (sq_array (shared u)) = unat (sq_entries u) \<and>
     sqe_tail u - sq_head (shared u) \<le> sq_entries u"

definition sq_index :: "mjs_uring \<Rightarrow> nat \<Rightarrow> nat" where
  "sq_index u j = unat ((sq_head (shared u) + of_nat j) AND sq_mask (shared u))"

definition sq_pending :: "mjs_uring \<Rightarrow> io_uring_sqe list" where
  "sq_pending u = map (\<lambda>j. sqes (shared u) ! unat (sq_array (shared u) ! sq_index u j))
     [0..<unat (sqe_tail u - sq_head (shared u))]"

definition sq_array_ok :: "mjs_uring \<Rightarrow> bool" where
  "sq_array_ok u \<longleftrightarrow> (\<forall>j < unat (sqe_tail u - sq_head (shared u)).
     unat (sq_array (shared u) ! sq_index u j) = sq_index u j)"

text \<open>What the four staging routines share: take an entry and fill it in.\<close>

definition uring_stage :: "mjs_uring \<Rightarrow> io_uring_sqe \<Rightarrow> int \<times> mjs_uring" where
  "uring_stage u e = (case uring_get_sqe u of (None, u1) \<Rightarrow> (- EAGAIN, u1) | (Some i, u1) \<Rightarrow> (0, put_sqe i e u1))"

definition poll_add_sqe :: "int \<Rightarrow> int \<Rightarrow> u64 \<Rightarrow> io_uring_sqe" where
  "poll_add_sqe fd poll_mask d = zero_sqe\<lparr>sqe_opcode := IORING_OP_POLL_ADD, sqe_async := True,
     sqe_fd := fd, sqe_poll_events := of_int poll_mask, sqe_user_data := d\<rparr>"

definition poll_remove_sqe :: "u64 \<Rightarrow> io_uring_sqe" where
  "poll_remove_sqe d = zero_sqe\<lparr>sqe_opcode := IORING_OP_POLL_REMOVE, sqe_addr := d\<rparr>"

definition timeout_sqe :: "int \<times> int \<Rightarrow> io_uring_sqe" where
  "timeout_sqe ts = zero_sqe\<lparr>sqe_opcode := IORING_OP_TIMEOUT, sqe_ts := Some ts, sqe_len := 1,
     sqe_user_data := MJS_URING_TIMEOUT\<rparr>"

definition timeout_remove_sqe :: io_uring_sqe where
  "timeout_remove_sqe = zero_sqe\<lparr>sqe_opcode := IORING_OP_TIMEOUT_REMOVE, sqe_addr := MJS_URING_TIMEOUT\<rparr>"

text \<open>
  What the submission side relies on of \<open>io_uring_enter\<close>: it consumes at most the entries it was
  told of by advancing the head, returns how many on success, none on failure, and leaves the
  entries, the index array, the mask and the tail alone.
\<close>

definition enter_law :: "'w uring_kernel \<Rightarrow> bool" where
  "enter_law K \<longleftrightarrow> (\<forall>fd p m f sh w r sh' w'. ku_enter K fd p m f sh w = (r, sh', w') \<longrightarrow>
     sq_mask sh' = sq_mask sh \<and> sqes sh' = sqes sh \<and> sq_array sh' = sq_array sh \<and> sq_tail sh' = sq_tail sh \<and>
     (case r of Inl e \<Rightarrow> 0 < e \<and> sq_head sh' = sq_head sh
      | Inr n \<Rightarrow> 0 \<le> n \<and> n \<le> uint p \<and> n < 2 ^ 31 \<and> sq_head sh' = sq_head sh + of_int n))"

section \<open>Lemmas\<close>

lemma stage_eqs:
  "uring_stage_poll_add u fd poll_mask d = uring_stage u (poll_add_sqe fd poll_mask d)"
  "uring_stage_poll_remove u d = uring_stage u (poll_remove_sqe d)"
  "uring_stage_timeout u ts = uring_stage u (timeout_sqe ts)"
  "uring_stage_timeout_remove u = uring_stage u timeout_remove_sqe"
  by (simp_all add: uring_stage_poll_add_def uring_stage_poll_remove_def uring_stage_timeout_def
      uring_stage_timeout_remove_def uring_stage_def poll_add_sqe_def poll_remove_sqe_def
      timeout_sqe_def timeout_remove_sqe_def)

lemma unat_and_mask: "unat (x AND mask k :: u32) = unat x mod 2 ^ k"
  by (metis take_bit_eq_mask take_bit_eq_mod unsigned_take_bit_eq)

text \<open>The index of the \<open>j\<close>-th pending entry, as a number, and its being free of collisions.\<close>

lemma sq_index_eq:
  assumes "sq_mask (shared u) = mask k" and "k < 32"
  shows "sq_index u j = (unat (sq_head (shared u)) + j) mod 2 ^ k"
proof -
  have "(2::nat) ^ k dvd 2 ^ 32"
    using assms(2) by (intro le_imp_power_dvd) simp
  then have "((a + j mod 2 ^ 32) mod 2 ^ 32) mod 2 ^ k = (a + j) mod (2::nat) ^ k" for a
    by (metis mod_add_right_eq mod_mod_cancel)
  then show ?thesis
    unfolding sq_index_def assms(1) unat_and_mask by (simp add: unat_word_ariths unat_of_nat)
qed

lemma sq_wfE:
  assumes "sq_wf u"
  obtains k where "k < 32" and "unat (sq_entries u) = 2 ^ k" and "sq_mask (shared u) = mask k"
    and "length (sqes (shared u)) = 2 ^ k" and "length (sq_array (shared u)) = 2 ^ k"
    and "unat (sqe_tail u - sq_head (shared u)) \<le> 2 ^ k"
  using assms unfolding sq_wf_def word_le_unat by auto

lemma sq_index_tail: "sq_index u (unat (sqe_tail u - sq_head (shared u))) = unat (sqe_tail u AND sq_mask (shared u))"
  by (simp add: sq_index_def)

lemma unat_inc_diff:
  fixes t h :: u32
  assumes "unat (t - h) < 2 ^ 31"
  shows "unat (t + 1 - h) = unat (t - h) + 1"
proof -
  have "unat (t + 1 - h) = unat ((t - h) + 1)" by (simp only: diff_add_eq)
  also have "\<dots> = (unat (t - h) + 1) mod 2 ^ 32"
    by (simp add: unat_word_ariths)
  finally show ?thesis using assms by simp
qed

lemma uring_stage_full:
  assumes "sq_wf u" and "unat (sq_entries u) \<le> length (sq_pending u)"
  shows "uring_stage u e = (- EAGAIN, u)"
  using assms by (simp add: uring_stage_def uring_get_sqe_def sq_pending_def Let_def word_less_unat)

text \<open>
  Writing an entry at the tail: it comes after the pending ones and touches none of them.
\<close>

definition sq_put :: "io_uring_sqe \<Rightarrow> mjs_uring \<Rightarrow> mjs_uring" where
  "sq_put e u = (let idx = sqe_tail u AND sq_mask (shared u)
     in u\<lparr>shared := (shared u)\<lparr>sqes := (sqes (shared u))[unat idx := e],
            sq_array := (sq_array (shared u))[unat idx := idx]\<rparr>, sqe_tail := sqe_tail u + 1\<rparr>)"

lemma sq_put_simps [simp]:
  "sqe_tail (sq_put e u) = sqe_tail u + 1" "sq_head (shared (sq_put e u)) = sq_head (shared u)"
  "sq_mask (shared (sq_put e u)) = sq_mask (shared u)" "sq_entries (sq_put e u) = sq_entries u"
  "sq_index (sq_put e u) j = sq_index u j"
  "sqes (shared (sq_put e u)) = (sqes (shared u))[unat (sqe_tail u AND sq_mask (shared u)) := e]"
  "sq_array (shared (sq_put e u)) =
     (sq_array (shared u))[unat (sqe_tail u AND sq_mask (shared u)) := sqe_tail u AND sq_mask (shared u)]"
  by (simp_all add: sq_put_def sq_index_def Let_def)

lemma sq_index_fresh:
  assumes "sq_mask (shared u) = mask k" and "k < 32" and "n = unat (sqe_tail u - sq_head (shared u))" and "n < 2 ^ k"
  shows "j < n \<Longrightarrow> sq_index u j \<noteq> unat (sqe_tail u AND sq_mask (shared u))"
    and "unat (sqe_tail u AND sq_mask (shared u)) < 2 ^ k" and "sq_index u n = unat (sqe_tail u AND sq_mask (shared u))"
proof -
  show at: "sq_index u n = unat (sqe_tail u AND sq_mask (shared u))"
    unfolding assms(3) by (rule sq_index_tail)
  show "unat (sqe_tail u AND sq_mask (shared u)) < 2 ^ k"
    unfolding at [symmetric] by (simp add: sq_index_eq [OF assms(1,2)])
  show "sq_index u j \<noteq> unat (sqe_tail u AND sq_mask (shared u))" if "j < n"
    using shift_mod_inj [of "unat (sq_head (shared u))" j "2 ^ k" n] that assms(4)
    unfolding at [symmetric] sq_index_eq [OF assms(1,2)] by auto
qed

lemma uring_stage_room:
  assumes wf: "sq_wf u" and arr: "sq_array_ok u" and room: "length (sq_pending u) < unat (sq_entries u)"
  obtains u' where "uring_stage u e = (0, u')" and "sq_wf u'" and "sq_array_ok u'"
    and "sq_pending u' = sq_pending u @ [e]"
    and "u' = u\<lparr>shared := shared u', sqe_tail := sqe_tail u + 1\<rparr>"
    and "sq_head (shared u') = sq_head (shared u)"
proof -
  obtain k where k: "k < 32" "unat (sq_entries u) = 2 ^ k" "sq_mask (shared u) = mask k"
    "length (sqes (shared u)) = 2 ^ k" "length (sq_array (shared u)) = 2 ^ k"
    using sq_wfE [OF wf] by metis
  define n where "n = unat (sqe_tail u - sq_head (shared u))"
  have n: "n < 2 ^ k" using room k(2) by (simp add: sq_pending_def n_def)
  note fresh = sq_index_fresh [OF k(3,1) n_def n]
  have st: "uring_stage u e = (0, sq_put e u)"
    using n k(2) by (simp add: uring_stage_def uring_get_sqe_def put_sqe_def Let_def word_less_unat n_def sq_put_def)
  have "(2::nat) ^ k \<le> 2 ^ 31" using k(1) by (intro power_increasing) auto
  then have n': "unat (sqe_tail (sq_put e u) - sq_head (shared (sq_put e u))) = n + 1"
    using unat_inc_diff [of "sqe_tail u" "sq_head (shared u)"] n by (simp add: n_def)
  have wf': "sq_wf (sq_put e u)"
    using k n' n unfolding sq_wf_def word_le_unat by auto
  have a: "unat (sq_array (shared (sq_put e u)) ! sq_index u j) = sq_index u j" if "j < n + 1" for j
    using that arr fresh(1) [of j, THEN not_sym] fresh(2,3) k(5) by (cases "j = n") (auto simp: sq_array_ok_def n_def)
  then have arr': "sq_array_ok (sq_put e u)"
    unfolding sq_array_ok_def n' by simp
  have ent: "sqes (shared (sq_put e u)) ! unat (sq_array (shared (sq_put e u)) ! sq_index u j) =
      (if j = n then e else sqes (shared u) ! unat (sq_array (shared u) ! sq_index u j))" if "j < n + 1" for j
    unfolding a [OF that] using that arr fresh(1) [of j, THEN not_sym] fresh(2,3) k(4)
    by (auto simp: sq_array_ok_def n_def)
  have "sq_pending (sq_put e u) = sq_pending u @ [e]"
    unfolding sq_pending_def n' n_def [symmetric] using ent by simp
  then show thesis
    using that [OF st wf' arr'] by (simp add: sq_put_def Let_def)
qed

text \<open>Submission: the kernel takes a prefix of the pending entries.\<close>

lemma uring_submit_takes:
  assumes law: "enter_law K" and sub: "uring_submit K u m f w = (rc, u', w')"
  obtains n where "sq_head (shared u') = sq_head (shared u) + of_nat n" "n = nat rc"
    "n \<le> unat (sqe_tail u - sq_head (shared u))"
    "sqes (shared u') = sqes (shared u)" "sq_array (shared u') = sq_array (shared u)"
    "sq_mask (shared u') = sq_mask (shared u)" "u' = u\<lparr>shared := shared u'\<rparr>"
    "rc \<le> int (unat (sqe_tail u - sq_head (shared u)))"
proof (cases "sqe_tail u - sq_head (shared u) = 0 \<and> m = 0")
  case True
  then show ?thesis using sub that [of 0] by (simp add: uring_submit_def ioring_enter_def Let_def)
next
  case False
  obtain r sh' w1 where e: "ku_enter K (ring_fd u) (sqe_tail u - sq_head (shared u)) m f
      ((shared u)\<lparr>sq_tail := sqe_tail u\<rparr>) w = (r, sh', w1)"
    by (metis prod.exhaust)
  note l = law [unfolded enter_law_def, rule_format, OF e]
  show ?thesis
  proof (cases r)
    case (Inl er)
    then have "- er \<le> 0" using l by simp
    then have "- er \<le> uint (sqe_tail u - sq_head (shared u))" using uint_ge_0 by (rule order_trans)
    then show ?thesis
      using Inl that [of 0] l sub False e by (auto simp: uring_submit_def ioring_enter_def Let_def)
  next
    case (Inr c)
    then have c: "0 \<le> c" "c \<le> uint (sqe_tail u - sq_head (shared u))" "c < 2 ^ 31" using l by auto
    then have "c_int_of c = c" by (intro c_int_of_id) auto
    then show ?thesis
      using that [of "nat c"] l sub False e Inr c
      by (auto simp: uring_submit_def ioring_enter_def Let_def nat_le_iff)
  qed
qed

lemma sq_taken_len:
  assumes "sq_head (shared u') = sq_head (shared u) + of_nat n" and "n \<le> unat (sqe_tail u - sq_head (shared u))"
    and u': "u' = u\<lparr>shared := shared u'\<rparr>"
  shows "unat (sqe_tail u' - sq_head (shared u')) = unat (sqe_tail u - sq_head (shared u)) - n"
proof -
  have "sqe_tail u' = sqe_tail u"
    by (subst u') simp
  then have "sqe_tail u' - sq_head (shared u') = (sqe_tail u - sq_head (shared u)) - of_nat n"
    by (simp add: assms(1) diff_diff_add)
  moreover have un: "unat (of_nat n :: u32) = n" using assms(2) by (rule le_unat_uoi)
  moreover have "(of_nat n :: u32) \<le> sqe_tail u - sq_head (shared u)"
    using assms(2) un by (simp add: word_le_unat)
  ultimately show ?thesis by (simp add: unat_sub)
qed

lemma uring_submit_drop:
  assumes wf: "sq_wf u" and arr: "sq_array_ok u" and law: "enter_law K"
    and sub: "uring_submit K u m f w = (rc, u', w')"
  shows "sq_wf u'" and "sq_array_ok u'"
    and "sq_pending u' = drop (nat rc) (sq_pending u)" and "rc \<le> int (length (sq_pending u))"
    and "u' = u\<lparr>shared := shared u'\<rparr>"
proof -
  obtain k where k: "k < 32" "unat (sq_entries u) = 2 ^ k" "sq_mask (shared u) = mask k"
    "length (sqes (shared u)) = 2 ^ k" "length (sq_array (shared u)) = 2 ^ k"
    "unat (sqe_tail u - sq_head (shared u)) \<le> 2 ^ k"
    using sq_wfE [OF wf] by metis
  let ?n = "unat (sqe_tail u - sq_head (shared u))"
  obtain n where n: "sq_head (shared u') = sq_head (shared u) + of_nat n" "n = nat rc" "n \<le> ?n"
    "sqes (shared u') = sqes (shared u)" "sq_array (shared u') = sq_array (shared u)"
    "sq_mask (shared u') = sq_mask (shared u)" and u': "u' = u\<lparr>shared := shared u'\<rparr>" and "rc \<le> int ?n"
    using uring_submit_takes [OF law sub] by metis
  note len = sq_taken_len [OF n(1,3) u']
  have k': "sq_mask (shared u') = mask k" using k(3) n(6) by simp
  have idx: "sq_index u' j = sq_index u (n + j)" for j
    using n(1) n(6) by (simp add: sq_index_def add.assoc)
  have ent: "sq_entries u' = sq_entries u" by (subst u') simp
  show "sq_wf u'"
    unfolding sq_wf_def word_le_unat len ent using k n(4-6) by auto
  show "sq_array_ok u'"
    using arr n(3) unfolding sq_array_ok_def idx len n(5) by auto
  show "sq_pending u' = drop (nat rc) (sq_pending u)"
    unfolding sq_pending_def len idx n(4,5) n(2) [symmetric] using n(3)
    by (intro nth_equalityI) auto
  show "rc \<le> int (length (sq_pending u))" using \<open>rc \<le> int ?n\<close> by (simp add: sq_pending_def)
  show "u' = u\<lparr>shared := shared u'\<rparr>" by (rule u')
qed

section \<open>Properties\<close>

text \<open>
  (C29) The submission ring is a bounded FIFO queue. On a well-formed ring, whatever the
  free-running 32-bit indices are (wrapped around or not), staging an entry appends exactly that
  entry to the pending ones as long as fewer than \<open>sq_entries\<close> are pending, and is refused with
  \<open>-EAGAIN\<close>, changing nothing, when that many are; a submission hands the kernel the oldest
  pending entries, keeps the others in order, and returns how many were taken or the error.
\<close>
theorem sq_ring_fifo:
  assumes "sq_wf u" and "sq_array_ok u" and "enter_law K"
  shows "(\<forall>e \<in> {(uring_stage_poll_add u fd poll_mask d, poll_add_sqe fd poll_mask d),
        (uring_stage_poll_remove u d, poll_remove_sqe d), (uring_stage_timeout u ts, timeout_sqe ts),
        (uring_stage_timeout_remove u, timeout_remove_sqe)}.
       if length (sq_pending u) < unat (sq_entries u)
       then (\<exists>u'. fst e = (0, u') \<and> sq_wf u' \<and> sq_array_ok u' \<and> sq_pending u' = sq_pending u @ [snd e])
       else fst e = (- EAGAIN, u)) \<and>
    (\<forall>m f w rc u' w'. uring_submit K u m f w = (rc, u', w') \<longrightarrow>
       sq_wf u' \<and> sq_array_ok u' \<and> sq_pending u' = drop (nat rc) (sq_pending u) \<and>
       rc \<le> int (length (sq_pending u)))"
proof -
  have "if length (sq_pending u) < unat (sq_entries u)
      then (\<exists>u'. uring_stage u e = (0, u') \<and> sq_wf u' \<and> sq_array_ok u' \<and> sq_pending u' = sq_pending u @ [e])
      else uring_stage u e = (- EAGAIN, u)" for e
  proof (cases "length (sq_pending u) < unat (sq_entries u)")
    case True
    then show ?thesis using uring_stage_room [OF assms(1,2) True, of e] by metis
  next
    case False
    then show ?thesis using uring_stage_full [OF assms(1), of e] by simp
  qed
  then show ?thesis
    unfolding stage_eqs using uring_submit_drop [OF assms] by fastforce
qed

text \<open>A ring of four entries whose indices have just wrapped around, and a kernel that takes one.\<close>

definition demo_ring :: mjs_uring where
  "demo_ring = \<lparr>ring_fd = 5, wake_fd = 6, sq_entries = 4, cq_entries = 8, sqes_at = 4096, sqes_len = 4096,
     sq_ring = 8192, sq_ring_len = 4096, cq_ring = 12288, cq_ring_len = 4096,
     shared = \<lparr>sq_head = 0xFFFFFFFF, sq_tail = 0xFFFFFFFF, sq_mask = 3, sq_array = [0, 1, 2, 3],
       sqes = replicate 4 zero_sqe, cq_head = 0, cq_tail = 0, cq_mask = 7,
       cqes = replicate 8 \<lparr>cqe_user_data = 0, cqe_res = 0\<rparr>\<rparr>,
     sqe_tail = 1, cqe_head = 0, r_fds = replicate 16 (- 1), r_seqs = replicate 16 0,
     r_tok = replicate 16 0, r_int = replicate 16 0, r_at = (1, 2, 3, 4), r_count = 0, r_cap = 16,
     next_seq = 0x1000, wake_armed = True, timeout_armed = False\<rparr>"

definition take_one_kernel :: "unit uring_kernel" where
  "take_one_kernel = \<lparr>ku_enter = (\<lambda>fd p m f sh w. if p = 0 then (Inr 0, sh, w)
       else (Inr 1, sh\<lparr>sq_head := sq_head sh + 1\<rparr>, w)),
     ku_read = (\<lambda>_ w. w), ku_write = (\<lambda>_ w. (Inr (), w))\<rparr>"

lemma take_one_law: "enter_law take_one_kernel"
proof -
  have "1 \<le> uint p" if "p \<noteq> 0" for p :: u32
    using that by (metis int_one_le_iff_zero_less order_le_less uint_ge_0 unsigned_eq_0_iff)
  then show ?thesis by (simp add: enter_law_def take_one_kernel_def)
qed

lemma demo_ring_wf: "sq_wf demo_ring" "sq_array_ok demo_ring" "length (sq_pending demo_ring) = 2"
proof -
  have n: "unat (sqe_tail demo_ring - sq_head (shared demo_ring)) = 2"
    by (simp add: demo_ring_def)
  show "sq_wf demo_ring"
    by (auto simp: sq_wf_def demo_ring_def word_le_unat mask_eq_exp_minus_1 intro!: exI [of _ 2])
  show "length (sq_pending demo_ring) = 2"
    by (simp add: sq_pending_def n)
  show "sq_array_ok demo_ring"
    unfolding sq_array_ok_def n by (auto simp: sq_index_def demo_ring_def less_2_cases_iff)
qed

theorem sq_ring_fifo_witness:
  "\<exists>u'. uring_stage_poll_remove demo_ring 7 = (0, u') \<and> length (sq_pending u') = 3 \<and>
     last (sq_pending u') = poll_remove_sqe 7"
proof -
  have "length (sq_pending demo_ring) < unat (sq_entries demo_ring)"
    unfolding demo_ring_wf(3) by (simp add: demo_ring_def)
  then obtain u' where "uring_stage_poll_remove demo_ring 7 = (0, u')"
    "sq_pending u' = sq_pending demo_ring @ [poll_remove_sqe 7]"
    using sq_ring_fifo [OF demo_ring_wf(1,2) take_one_law, of 0 0 7 "(0, 0)"] by auto
  then show ?thesis using demo_ring_wf(3) by auto
qed

end
