(* ===== verification/Mjs_IoUring.thy ===== *)
theory Mjs_IoUring
  imports Mjs_Ring
begin

text \<open>
  The io\_uring poller (native/posix/mjs\_iouring.c): capability probe, creation with its ladder
  of error exits, the registration table, waiting and closing. Descriptors, mappings and heap
  blocks are tracked in a ledger, from which every release removes exactly what it names.
\<close>

section \<open>Creation and closing\<close>

record uring_ledger =
  rs_fds :: "int set"
  rs_maps :: "(addr \<times> u64) set"
  rs_heap :: "addr set"

abbreviation (input) MAP_FAILED :: addr where "MAP_FAILED \<equiv> 0xFFFFFFFFFFFFFFFF"

definition led_close :: "int \<Rightarrow> uring_ledger \<Rightarrow> uring_ledger" where
  "led_close fd L = L\<lparr>rs_fds := rs_fds L - {fd}\<rparr>"

definition led_munmap :: "addr \<Rightarrow> u64 \<Rightarrow> uring_ledger \<Rightarrow> uring_ledger" where
  "led_munmap a len L = L\<lparr>rs_maps := rs_maps L - {(a, len)}\<rparr>"

definition led_free :: "addr \<Rightarrow> uring_ledger \<Rightarrow> uring_ledger" where
  "led_free a L = L\<lparr>rs_heap := rs_heap L - {a}\<rparr>"

text \<open>\<open>malloc\<close> with the answer \<open>a\<close>, where 0 is NULL.\<close>

definition led_alloc :: "addr \<Rightarrow> uring_ledger \<Rightarrow> uring_ledger" where
  "led_alloc a L = (if a = 0 then L else L\<lparr>rs_heap := insert a (rs_heap L)\<rparr>)"

text \<open>The parameters \<open>io_uring_setup\<close> fills in.\<close>

record io_uring_params =
  p_sq_entries :: u32
  p_cq_entries :: u32
  p_sq_off_array :: u32
  p_cq_off_cqes :: u32

text \<open>
  The host's answers during one creation: the environment variable, the descriptor of the probe's
  \<open>io_uring_setup\<close> and that of the real one with the parameters and the ring contents the kernel
  set up, the page size, the allocations (0 is NULL) with the contents they leave in the three
  tables that creation does not initialise, the three mappings for their lengths, the eventfd.
\<close>

record uring_host =
  uh_getenv :: "string option"
  uh_probe :: "(int \<times> io_uring_params) host"
  uh_setup :: "(int \<times> io_uring_params) host"
  uh_rings :: uring_shared
  uh_pagesize :: int
  uh_calloc :: addr
  uh_map_sq :: "u64 \<Rightarrow> addr host"
  uh_map_cq :: "u64 \<Rightarrow> addr host"
  uh_map_sqes :: "u64 \<Rightarrow> addr host"
  uh_tables :: "addr \<times> addr \<times> addr \<times> addr"
  uh_junk :: "u64 list \<times> u64 list \<times> u32 list"
  uh_eventfd :: "int host"

text \<open>
  The wrapper around \<open>io_uring_setup\<close>: the descriptor or minus the error, and the parameters, which
  a failing call leaves alone.
\<close>

definition zero_params :: io_uring_params where
  "zero_params = \<lparr>p_sq_entries = 0, p_cq_entries = 0, p_sq_off_array = 0, p_cq_off_cqes = 0\<rparr>"

definition ioring_setup :: "(int \<times> io_uring_params) host \<Rightarrow> io_uring_params \<Rightarrow> int \<times> io_uring_params" where
  "ioring_setup answer p = (case answer of Inl e \<Rightarrow> (- e, p) | Inr (r, p') \<Rightarrow> (c_int_of r, p'))"

text \<open>The probe opens a ring and closes it at once, so it leaves the ledger alone.\<close>

definition mjs_iouring_probe :: "uring_host \<Rightarrow> uring_ledger \<Rightarrow> int \<times> uring_ledger" where
  "mjs_iouring_probe H L =
     (let (fd, p) = ioring_setup (uh_probe H) zero_params
      in if fd \<ge> 0 then (1, led_close fd (L\<lparr>rs_fds := insert fd (rs_fds L)\<rparr>)) else (0, L))"

definition mjs_iouring_available :: "uring_host \<Rightarrow> uring_ledger \<Rightarrow> int \<times> uring_ledger" where
  "mjs_iouring_available H L =
     (if uh_getenv H \<noteq> Some ''1'' then (0, L) else mjs_iouring_probe H L)"

definition round_page :: "int \<Rightarrow> u64 \<Rightarrow> u64" where
  "round_page sc n =
     (let page = (if sc \<le> 0 then 4096 else of_int sc :: u64)
      in (n + page - 1) AND NOT (page - 1))"

definition unmap_one :: "addr \<Rightarrow> u64 \<Rightarrow> uring_ledger \<Rightarrow> uring_ledger" where
  "unmap_one a len L = (if a \<noteq> MAP_FAILED \<and> a \<noteq> 0 \<and> len \<noteq> 0 then led_munmap a len L else L)"

definition iouring_unmap :: "mjs_uring \<Rightarrow> uring_ledger \<Rightarrow> mjs_uring \<times> uring_ledger" where
  "iouring_unmap u L =
     (let L1 = unmap_one (sq_ring u) (sq_ring_len u) L;
          u1 = u\<lparr>sq_ring := MAP_FAILED, sq_ring_len := 0\<rparr>;
          L2 = unmap_one (cq_ring u1) (cq_ring_len u1) L1;
          u2 = u1\<lparr>cq_ring := MAP_FAILED, cq_ring_len := 0\<rparr>;
          L3 = unmap_one (sqes_at u2) (sqes_len u2) L2;
          u3 = u2\<lparr>sqes_at := MAP_FAILED, sqes_len := 0\<rparr>
      in (u3, L3))"

definition iouring_map_rings ::
    "uring_host \<Rightarrow> mjs_uring \<Rightarrow> io_uring_params \<Rightarrow> uring_ledger \<Rightarrow> int \<times> mjs_uring \<times> uring_ledger" where
  "iouring_map_rings H u p L =
     (let sq_sz = round_page (uh_pagesize H) (ucast (p_sq_off_array p) + ucast (p_sq_entries p) * 4);
          cq_sz = round_page (uh_pagesize H) (ucast (p_cq_off_cqes p) + ucast (p_cq_entries p) * 16);
          sqe_sz = round_page (uh_pagesize H) (ucast (p_sq_entries p) * 64)
      in case uh_map_sq H sq_sz of
           Inl e \<Rightarrow> (- e, u\<lparr>sq_ring := MAP_FAILED\<rparr>, L)
         | Inr a \<Rightarrow>
             let L1 = L\<lparr>rs_maps := insert (a, sq_sz) (rs_maps L)\<rparr>;
                 u1 = u\<lparr>sq_ring := a, sq_ring_len := sq_sz\<rparr>
             in (case uh_map_cq H cq_sz of
                  Inl e \<Rightarrow> (case iouring_unmap (u1\<lparr>cq_ring := MAP_FAILED\<rparr>) L1 of (u', L') \<Rightarrow> (- e, u', L'))
                | Inr b \<Rightarrow>
                    let L2 = L1\<lparr>rs_maps := insert (b, cq_sz) (rs_maps L1)\<rparr>;
                        u2 = u1\<lparr>cq_ring := b, cq_ring_len := cq_sz\<rparr>
                    in (case uh_map_sqes H sqe_sz of
                         Inl e \<Rightarrow> (case iouring_unmap (u2\<lparr>sqes_at := MAP_FAILED\<rparr>) L2 of (u', L') \<Rightarrow> (- e, u', L'))
                       | Inr c \<Rightarrow>
                           (0, u2\<lparr>sqes_at := c, sqes_len := sqe_sz, shared := uh_rings H,
                                 sq_entries := p_sq_entries p, cq_entries := p_cq_entries p\<rparr>,
                            L2\<lparr>rs_maps := insert (c, sqe_sz) (rs_maps L2)\<rparr>))))"

text \<open>The four tables, released in the order of the code.\<close>

definition free_tables :: "mjs_uring \<Rightarrow> uring_ledger \<Rightarrow> uring_ledger" where
  "free_tables u L = (case r_at u of (a, b, c, d) \<Rightarrow> led_free d (led_free c (led_free b (led_free a L))))"

definition fresh_uring :: "int \<Rightarrow> uring_shared \<Rightarrow> mjs_uring" where
  "fresh_uring fd sh = \<lparr>ring_fd = fd, wake_fd = - 1, sq_entries = 0, cq_entries = 0,
     sqes_at = MAP_FAILED, sqes_len = 0, sq_ring = MAP_FAILED, sq_ring_len = 0,
     cq_ring = MAP_FAILED, cq_ring_len = 0, shared = sh, sqe_tail = 0, cqe_head = 0,
     r_fds = [], r_seqs = [], r_tok = [], r_int = [], r_at = (0, 0, 0, 0), r_count = 0, r_cap = 0,
     next_seq = MJS_URING_FIRST_SEQ, wake_armed = False, timeout_armed = False\<rparr>"

text \<open>
  \<open>mjs_iouring_create\<close>. The out slot holds the handle together with its heap address. The last
  exit of the ladder, after a failed arming of the wake poll, and the one before share their
  releases.
\<close>

definition uring_abandon :: "addr \<Rightarrow> int \<Rightarrow> mjs_uring \<Rightarrow> uring_ledger \<Rightarrow> uring_ledger" where
  "uring_abandon ua fd u L =
     (case iouring_unmap u L of (u', L1) \<Rightarrow> led_free ua (led_close fd (free_tables u' L1)))"

text \<open>The half of creation after the rings are mapped: the tables, the eventfd, the wake poll.\<close>

definition uring_finish ::
    "'w uring_kernel \<Rightarrow> uring_host \<Rightarrow> addr \<Rightarrow> int \<Rightarrow> mjs_uring \<Rightarrow> (addr \<times> mjs_uring) option slot
      \<Rightarrow> uring_ledger \<Rightarrow> 'w \<Rightarrow> int \<times> (addr \<times> mjs_uring) option slot \<times> uring_ledger \<times> 'w" where
  "uring_finish K H ua fd u out L w =
     (let cap = (if sq_entries u < 16 then 16 else sq_entries u);
          (a, b, c, d) = uh_tables H; (js, jt, ji) = uh_junk H;
          L3 = led_alloc d (led_alloc c (led_alloc b (led_alloc a L)));
          u1 = u\<lparr>r_cap := cap, r_at := (a, b, c, d)\<rparr>
      in if a = 0 \<or> b = 0 \<or> c = 0 \<or> d = 0 then (- ENOMEM, out, uring_abandon ua fd u1 L3, w)
         else
           let u2 = u1\<lparr>r_fds := replicate (unat cap) (- 1), r_seqs := js, r_tok := jt, r_int := ji, r_count := 0\<rparr>
           in (case uh_eventfd H of
                 Inl e \<Rightarrow> (- e, out, uring_abandon ua fd (u2\<lparr>wake_fd := - 1\<rparr>) L3, w)
               | Inr wk \<Rightarrow>
                   let L4 = L3\<lparr>rs_fds := insert wk (rs_fds L3)\<rparr>; u3 = u2\<lparr>wake_fd := wk\<rparr>;
                       (rc, u4, w1) = uring_submit_poll_add K u3 wk POLLIN MJS_URING_WAKE w
                   in if rc \<noteq> 0 then (rc, out, uring_abandon ua fd u4 (led_close wk L4), w1)
                      else (0, Some (Some (ua, u4\<lparr>wake_armed := True\<rparr>)), L4, w1)))"

definition mjs_iouring_create ::
    "'w uring_kernel \<Rightarrow> uring_host \<Rightarrow> (addr \<times> mjs_uring) option slot \<Rightarrow> uring_ledger \<Rightarrow> 'w
      \<Rightarrow> int \<times> (addr \<times> mjs_uring) option slot \<times> uring_ledger \<times> 'w" where
  "mjs_iouring_create K H out L w =
     (if out = None then (- EFAULT, out, L, w)
      else
        let (av, L0) = mjs_iouring_available H L
        in if av = 0 then (- ENOSYS, out, L0, w)
           else
             let (fd, p) = ioring_setup (uh_setup H) zero_params
             in if fd < 0 then (- ENOSYS, out, L0, w)
                else
               let L1 = L0\<lparr>rs_fds := insert fd (rs_fds L0)\<rparr>; ua = uh_calloc H
               in if ua = 0 then (- ENOMEM, out, led_close fd L1, w)
                  else
                    let (rc, u, L2) = iouring_map_rings H (fresh_uring fd (uh_rings H)) p (led_alloc ua L1)
                    in if rc \<noteq> 0 then (rc, out, led_free ua (led_close fd L2), w)
                       else uring_finish K H ua fd u out L2 w)"

definition mjs_iouring_close ::
    "(addr \<times> mjs_uring) option slot \<Rightarrow> uring_ledger \<Rightarrow> int \<times> (addr \<times> mjs_uring) option slot \<times> uring_ledger" where
  "mjs_iouring_close h L =
     (case h of
        None \<Rightarrow> (- EINVAL, h, L)
      | Some None \<Rightarrow> (- EINVAL, h, L)
      | Some (Some (ua, u)) \<Rightarrow>
          let L1 = (if wake_fd u \<ge> 0 then led_close (wake_fd u) L else L);
              (u', L2) = iouring_unmap u L1
          in (0, Some None, led_free ua (free_tables u' (led_close (ring_fd u) L2))))"

definition mjs_iouring_entries ::
    "mjs_uring option \<Rightarrow> u32 slot \<Rightarrow> u32 slot \<Rightarrow> int \<times> u32 slot \<times> u32 slot" where
  "mjs_iouring_entries h out_sq out_cq =
     (if h = None \<or> out_sq = None \<or> out_cq = None then (- EFAULT, out_sq, out_cq)
      else (0, Some (sq_entries (the h)), Some (cq_entries (the h))))"

definition mjs_iouring_wake :: "'w uring_kernel \<Rightarrow> mjs_uring option \<Rightarrow> 'w \<Rightarrow> int \<times> 'w" where
  "mjs_iouring_wake K h w =
     (case h of
        None \<Rightarrow> (- EINVAL, w)
      | Some u \<Rightarrow>
          (case ku_write K (wake_fd u) w of
             (Inl e, w') \<Rightarrow> (if e \<noteq> EAGAIN then - e else 0, w')
           | (Inr _, w') \<Rightarrow> (0, w')))"

section \<open>Registration\<close>

text \<open>
  The probe of the descriptor table, for at most \<open>n\<close> steps from \<open>h\<close>; after \<open>r_cap\<close> steps it ends
  wherever it stands.
\<close>

fun uring_probe :: "int list \<Rightarrow> u32 \<Rightarrow> int \<Rightarrow> u32 \<Rightarrow> nat \<Rightarrow> u32" where
  "uring_probe T cap fd h 0 = h"
| "uring_probe T cap fd h (Suc n) =
     (if T ! unat h = - 1 \<or> T ! unat h = fd then h
      else uring_probe T cap fd ((h + 1) AND (cap - 1)) n)"

definition uring_hash :: "u32 \<Rightarrow> int \<Rightarrow> u32" where
  "uring_hash cap fd = ucast (of_int fd * 2654435761 :: u64) AND (cap - 1)"

definition uring_slot :: "mjs_uring \<Rightarrow> int \<Rightarrow> nat" where
  "uring_slot u fd = unat (uring_probe (r_fds u) (r_cap u) fd (uring_hash (r_cap u) fd) (unat (r_cap u)))"

text \<open>The file's own copy of \<open>mjs_check_interests\<close>.\<close>

definition uring_check_interests :: "u32 \<Rightarrow> int" where
  "uring_check_interests interests =
     (if interests AND NOT (MJS_POLL_READABLE OR MJS_POLL_WRITABLE) \<noteq> 0 then - EINVAL
      else if interests = 0 then - EINVAL else 0)"

definition mjs_iouring_register ::
    "'w uring_kernel \<Rightarrow> mjs_uring option \<Rightarrow> int \<Rightarrow> u32 \<Rightarrow> u64 \<Rightarrow> 'w \<Rightarrow> int \<times> mjs_uring option \<times> 'w" where
  "mjs_iouring_register K h fd interests token w =
     (case h of
        None \<Rightarrow> (- EINVAL, h, w)
      | Some p \<Rightarrow>
          let rc = uring_check_interests interests in
          if rc \<noteq> 0 then (rc, h, w)
          else if fd < 0 then (- EBADF, h, w)
          else if r_count p \<ge> r_cap p then (- ENOSPC, h, w)
          else
            let slot = uring_slot p fd; (seq, p1) = uring_next_seq p
            in if r_fds p1 ! slot = fd then
                 let (rc, p2) = uring_stage_poll_remove p1 (r_seqs p1 ! slot)
                 in if rc \<noteq> 0 then (rc, Some p2, w)
                    else
                      let (rc, p3) = uring_stage_poll_add p2 fd (mjs_interests_to_poll interests) seq
                      in if rc \<noteq> 0 then (rc, Some p3, w)
                         else
                           let (rc, p4, w1) = uring_submit K p3 0 0 w
                           in if rc < 0 then (rc, Some p4, w1)
                              else (0, Some (p4\<lparr>r_seqs := (r_seqs p4)[slot := seq],
                                      r_tok := (r_tok p4)[slot := token],
                                      r_int := (r_int p4)[slot := interests]\<rparr>), w1)
               else
                 let (rc, p2, w1) = uring_submit_poll_add K p1 fd (mjs_interests_to_poll interests) seq w
                 in if rc \<noteq> 0 then (rc, Some p2, w1)
                    else (0, Some (p2\<lparr>r_fds := (r_fds p2)[slot := fd], r_seqs := (r_seqs p2)[slot := seq],
                            r_tok := (r_tok p2)[slot := token], r_int := (r_int p2)[slot := interests],
                            r_count := r_count p2 + 1\<rparr>), w1))"

definition mjs_iouring_modify ::
    "'w uring_kernel \<Rightarrow> mjs_uring option \<Rightarrow> int \<Rightarrow> u32 \<Rightarrow> u64 \<Rightarrow> 'w \<Rightarrow> int \<times> mjs_uring option \<times> 'w" where
  "mjs_iouring_modify K h fd interests token w =
     (if h = None then (- EINVAL, h, w)
      else if fd < 0 then (- EBADF, h, w)
      else mjs_iouring_register K h fd interests token w)"

definition mjs_iouring_unregister ::
    "'w uring_kernel \<Rightarrow> mjs_uring option \<Rightarrow> int \<Rightarrow> 'w \<Rightarrow> int \<times> mjs_uring option \<times> 'w" where
  "mjs_iouring_unregister K h fd w =
     (case h of
        None \<Rightarrow> (- EINVAL, h, w)
      | Some p \<Rightarrow>
          if fd < 0 then (- EBADF, h, w)
          else
            let slot = uring_slot p fd
            in if r_fds p ! slot \<noteq> fd then (0, h, w)
               else
                 let (rc, p1) = uring_stage_poll_remove p (r_seqs p ! slot)
                 in if rc \<noteq> 0 then (rc, Some p1, w)
                    else
                      let (rc, p2, w1) = uring_submit K p1 0 0 w
                      in if rc < 0 then (rc, Some p2, w1)
                         else (0, Some (p2\<lparr>r_fds := (r_fds p2)[slot := - 1], r_count := r_count p2 - 1\<rparr>), w1))"

section \<open>Waiting\<close>

definition uring_flags :: "int \<Rightarrow> u32" where
  "uring_flags res =
     flag_if (res AND POLLIN \<noteq> 0) MJS_POLL_READABLE OR flag_if (res AND POLLOUT \<noteq> 0) MJS_POLL_WRITABLE OR
     flag_if (res AND POLLHUP \<noteq> 0) MJS_POLL_EOF OR flag_if (res AND POLLERR \<noteq> 0) MJS_POLL_ERROR"

text \<open>The first table slot that is in use and carries the completion's tag, in index order.\<close>

definition uring_find :: "mjs_uring \<Rightarrow> u64 \<Rightarrow> nat option" where
  "uring_find p d = find (\<lambda>i. r_fds p ! i \<ge> 0 \<and> r_seqs p ! i = d) [0..<unat (r_cap p)]"

text \<open>
  What one completion does: a state of the handle, the events filled so far, the two flags and the
  kernel.
\<close>

type_synonym 'w drain_state = "mjs_uring \<times> mjs_poll_event list \<times> (bool \<times> bool) \<times> 'w"

definition drain_cqe :: "'w uring_kernel \<Rightarrow> nat \<Rightarrow> io_uring_cqe \<Rightarrow> 'w drain_state \<Rightarrow> 'w drain_state" where
  "drain_cqe K cap e st =
     (case st of (p, out, (saw_wake, saw_timeout), w) \<Rightarrow>
        if cqe_user_data e = MJS_URING_TIMEOUT then (p\<lparr>timeout_armed := False\<rparr>, out, (saw_wake, True), w)
        else if cqe_user_data e = MJS_URING_WAKE
        then (p\<lparr>wake_armed := False\<rparr>, out, (True, saw_timeout), ku_read K (wake_fd p) w)
        else (case uring_find p (cqe_user_data e) of
            None \<Rightarrow> st
          | Some i \<Rightarrow>
              if cqe_res e < 0
              then (p\<lparr>r_fds := (r_fds p)[i := - 1], r_count := r_count p - 1\<rparr>, out, (saw_wake, saw_timeout), w)
              else
                (p\<lparr>r_seqs := (r_seqs p)[i := 0]\<rparr>,
                 (if length out < cap
                  then out @ [\<lparr>pe_token = r_tok p ! i, pe_fd = r_fds p ! i, pe_events = uring_flags (cqe_res e)\<rparr>]
                  else out), (saw_wake, saw_timeout), w)))"

text \<open>
  The loop over the completion ring: the shared ring does not change while it runs, the indices
  wrap around.
\<close>

function drain_loop ::
    "'w uring_kernel \<Rightarrow> nat \<Rightarrow> uring_shared \<Rightarrow> u32 \<Rightarrow> u32 \<Rightarrow> 'w drain_state \<Rightarrow> 'w drain_state" where
  "drain_loop K cap sh head tail st =
     (if head = tail then st
      else drain_loop K cap sh (head + 1) tail (drain_cqe K cap (cqes sh ! unat (head AND cq_mask sh)) st))"
  by pat_completeness auto
termination
proof (relation "measure (\<lambda>(K, cap, sh, head, tail, st). unat (tail - head))")
  fix K :: "'w uring_kernel" and cap :: nat and sh and head tail :: u32 and st :: "'w drain_state"
  assume "head \<noteq> tail"
  then have "tail - head \<noteq> 0" by simp
  then have "unat (tail - (head + 1)) < unat (tail - head)"
    by (metis diff_diff_eq measure_unat)
  then show "((K, cap, sh, head + 1, tail, drain_cqe K cap (cqes sh ! unat (head AND cq_mask sh)) st),
      K, cap, sh, head, tail, st) \<in> measure (\<lambda>(K, cap, sh, head, tail, st). unat (tail - head))"
    by simp
qed simp

declare drain_loop.simps [simp del]

definition uring_drain_cq ::
    "'w uring_kernel \<Rightarrow> mjs_uring \<Rightarrow> u32 \<Rightarrow> 'w \<Rightarrow> int \<times> mjs_poll_event list \<times> mjs_uring \<times> 'w" where
  "uring_drain_cq K p cap w =
     (let tail = cq_tail (shared p);
          (p', out, _, w') = drain_loop K (unat cap) (shared p) (cqe_head p) tail (p, [], (False, False), w)
      in (int (length out), out, p'\<lparr>cqe_head := tail, shared := (shared p')\<lparr>cq_head := tail\<rparr>\<rparr>, w'))"

text \<open>Re-arming the slots in \<open>is\<close> whose one-shot poll has fired; an error ends the loop.\<close>

fun rearm_loop :: "nat list \<Rightarrow> mjs_uring \<Rightarrow> int \<times> mjs_uring" where
  "rearm_loop [] p = (0, p)"
| "rearm_loop (i # is) p =
     (if r_fds p ! i \<ge> 0 \<and> r_seqs p ! i = 0 then
        let (seq, p1) = uring_next_seq p;
            (rc, p2) = uring_stage_poll_add p1 (r_fds p1 ! i) (mjs_interests_to_poll (r_int p1 ! i)) seq
        in if rc \<noteq> 0 then (rc, p2) else rearm_loop is (p2\<lparr>r_seqs := (r_seqs p2)[i := seq]\<rparr>)
      else rearm_loop is p)"

definition rearm_wake :: "mjs_uring \<Rightarrow> int \<times> mjs_uring" where
  "rearm_wake p =
     (if \<not> wake_armed p then
        let (rc, p1) = uring_stage_poll_add p (wake_fd p) POLLIN MJS_URING_WAKE
        in if rc \<noteq> 0 then (rc, p1) else (0, p1\<lparr>wake_armed := True\<rparr>)
      else (0, p))"

definition arm_timeout :: "u64 option \<Rightarrow> mjs_uring \<Rightarrow> int \<times> mjs_uring" where
  "arm_timeout timeout_ns p =
     (case timeout_ns of
        None \<Rightarrow> (0, p)
      | Some nsec \<Rightarrow>
          let (rc, p1) = (if timeout_armed p then
                            (case uring_stage_timeout_remove p of
                               (rc, p') \<Rightarrow> if rc \<noteq> 0 then (rc, p') else (0, p'\<lparr>timeout_armed := False\<rparr>))
                          else (0, p))
          in if rc \<noteq> 0 then (rc, p1)
             else
               let (rc, p2) = uring_stage_timeout p1 (ns_timespec nsec)
               in if rc \<noteq> 0 then (rc, p2) else (0, p2\<lparr>timeout_armed := True\<rparr>))"

definition mjs_iouring_wait ::
    "'w uring_kernel \<Rightarrow> mjs_uring option \<Rightarrow> bool \<Rightarrow> u32 \<Rightarrow> u64 option \<Rightarrow> u32 slot \<Rightarrow> 'w
      \<Rightarrow> int \<times> mjs_poll_event list \<times> u32 slot \<times> mjs_uring option \<times> 'w" where
  "mjs_iouring_wait K h events cap timeout_ns out_n w =
     (if h = None \<or> out_n = None then (- EFAULT, [], out_n, h, w)
      else if cap = 0 then (- EINVAL, [], out_n, h, w)
      else if \<not> events then (- EFAULT, [], out_n, h, w)
      else
        let (rc, p1) = rearm_loop [0..<unat (r_cap (the h))] (the h)
        in if rc \<noteq> 0 then (rc, [], out_n, Some p1, w)
           else
             let (rc, p2) = rearm_wake p1
             in if rc \<noteq> 0 then (rc, [], out_n, Some p2, w)
                else
                  let (rc, p3) = arm_timeout timeout_ns p2
                  in if rc \<noteq> 0 then (rc, [], out_n, Some p3, w)
                     else
                       let (rc, p4, w1) = uring_submit K p3 1 IORING_ENTER_GETEVENTS w
                       in if rc < 0 then (rc, [], out_n, Some p4, w1)
                          else
                            let (filled, out, p5, w2) = uring_drain_cq K p4 cap w1
                            in (0, out, Some (of_int filled), Some p5, w2))"

text \<open>
  Hosts without io\_uring: the predicates are 0, every other entry point is \<open>-ENOSYS\<close> and leaves
  what its arguments point to as it was.
\<close>

definition mjs_iouring_probe_stub :: int where
  "mjs_iouring_probe_stub = 0"

definition mjs_iouring_available_stub :: int where
  "mjs_iouring_available_stub = 0"

definition mjs_iouring_stub :: "'a \<Rightarrow> int \<times> 'a" where
  "mjs_iouring_stub args = (- ENOSYS, args)"

section \<open>Lemmas\<close>

lemma uring_check_interests_eq [simp]: "uring_check_interests = mjs_check_interests"
  by (simp add: fun_eq_iff uring_check_interests_def mjs_check_interests_def)

subsection \<open>What a submission leaves alone\<close>

text \<open>Two handles that differ in the ring contents and the local tail only.\<close>

definition same_rest :: "mjs_uring \<Rightarrow> mjs_uring \<Rightarrow> bool" where
  "same_rest u u' \<longleftrightarrow> u'\<lparr>shared := shared u, sqe_tail := 0\<rparr> = u\<lparr>sqe_tail := 0\<rparr>"

lemma same_rest_refl [simp]: "same_rest u u"
  by (simp add: same_rest_def)

lemma same_rest_fields:
  assumes "same_rest u u'"
  shows "ring_fd u' = ring_fd u" "wake_fd u' = wake_fd u" "sq_entries u' = sq_entries u"
    "cq_entries u' = cq_entries u" "sqes_at u' = sqes_at u" "sqes_len u' = sqes_len u"
    "sq_ring u' = sq_ring u" "sq_ring_len u' = sq_ring_len u" "cq_ring u' = cq_ring u"
    "cq_ring_len u' = cq_ring_len u" "cqe_head u' = cqe_head u" "r_fds u' = r_fds u"
    "r_seqs u' = r_seqs u" "r_tok u' = r_tok u" "r_int u' = r_int u" "r_at u' = r_at u"
    "r_count u' = r_count u" "r_cap u' = r_cap u" "next_seq u' = next_seq u"
    "wake_armed u' = wake_armed u" "timeout_armed u' = timeout_armed u"
  using assms unfolding same_rest_def by (cases u; cases u'; simp)+

lemma same_rest_trans: "same_rest u v \<Longrightarrow> same_rest v x \<Longrightarrow> same_rest u x"
  unfolding same_rest_def by (cases u; cases v; cases x) simp

lemma uring_stage_rest: "uring_stage u e = (rc, u') \<Longrightarrow> same_rest u u'"
  by (auto simp: uring_stage_def uring_get_sqe_def put_sqe_def Let_def same_rest_def split: if_splits)

lemma uring_submit_rest: "uring_submit K u m f w = (rc, u', w') \<Longrightarrow> same_rest u u'"
  by (auto simp: uring_submit_def ioring_enter_def Let_def same_rest_def split: if_splits sum.splits prod.splits)

lemma uring_submit_poll_add_rest:
  assumes "uring_submit_poll_add K u fd m d w = (rc, u', w')"
  shows "same_rest u u'"
  using assms unfolding uring_submit_poll_add_def stage_eqs
  by (auto simp: Let_def split: if_splits prod.splits
      dest!: uring_stage_rest uring_submit_rest intro: same_rest_trans)

end
