(* ===== verification/Mjs_UringLife.thy ===== *)
theory Mjs_UringLife
  imports Mjs_IoUring
begin

text \<open>
  The lifetime of an io\_uring handle: every exit of \<open>mjs_iouring_create\<close> and \<open>mjs_iouring_close\<close>
  against the ledger of descriptors, mappings and heap blocks.
\<close>

section \<open>The ledger of a creation\<close>

text \<open>
  What the host promises: descriptors, mappings and heap blocks it hands out are new to the
  ledger and distinct from each other, descriptors of rings are non-negative and fit an \<open>int\<close>,
  mappings are non-empty and at proper addresses, and errors are positive numbers.
\<close>

definition uring_host_ok :: "uring_host \<Rightarrow> uring_ledger \<Rightarrow> bool" where
  "uring_host_ok H L \<longleftrightarrow>
     (\<forall>fd p. uh_probe H = Inr (fd, p) \<longrightarrow> fd \<notin> rs_fds L) \<and>
     (\<forall>fd p. uh_probe H = Inr (fd, p) \<or> uh_setup H = Inr (fd, p) \<longrightarrow> 0 \<le> fd \<and> fd \<le> 2147483647) \<and>
     (\<forall>e. uh_probe H = Inl e \<or> uh_setup H = Inl e \<longrightarrow> 0 < e) \<and>
     (\<forall>fd p. uh_setup H = Inr (fd, p) \<longrightarrow> fd \<notin> rs_fds L \<and>
        (\<forall>wk. uh_eventfd H = Inr wk \<longrightarrow> wk \<notin> rs_fds L \<and> wk \<noteq> fd \<and> 0 \<le> wk)) \<and>
     (\<forall>n a. uh_map_sq H n = Inr a \<or> uh_map_cq H n = Inr a \<or> uh_map_sqes H n = Inr a \<longrightarrow>
        a \<noteq> 0 \<and> a \<noteq> MAP_FAILED \<and> n \<noteq> 0 \<and> (\<forall>m. (a, m) \<notin> rs_maps L)) \<and>
     (\<forall>n m k a b c. uh_map_sq H n = Inr a \<and> uh_map_cq H m = Inr b \<longrightarrow> a \<noteq> b \<and>
        (uh_map_sqes H k = Inr c \<longrightarrow> a \<noteq> c \<and> b \<noteq> c)) \<and>
     (\<forall>n e. uh_map_sq H n = Inl e \<or> uh_map_cq H n = Inl e \<or> uh_map_sqes H n = Inl e \<longrightarrow> 0 < e) \<and>
     (\<forall>e. uh_eventfd H = Inl e \<longrightarrow> 0 < e) \<and>
     (case uh_tables H of (a, b, c, d) \<Rightarrow>
        distinct (filter (\<lambda>x. x \<noteq> 0) [uh_calloc H, a, b, c, d]) \<and>
        {uh_calloc H, a, b, c, d} \<inter> rs_heap L = {})"

lemma uring_host_okD:
  assumes "uring_host_ok H L"
  shows "uh_map_sq H n = Inr a \<or> uh_map_cq H n = Inr a \<or> uh_map_sqes H n = Inr a \<Longrightarrow>
      a \<noteq> 0 \<and> a \<noteq> MAP_FAILED \<and> n \<noteq> 0 \<and> (\<forall>m. (a, m) \<notin> rs_maps L)"
    and "uh_setup H = Inr (fd, p) \<Longrightarrow> fd \<notin> rs_fds L \<and>
      (\<forall>wk. uh_eventfd H = Inr wk \<longrightarrow> wk \<notin> rs_fds L \<and> wk \<noteq> fd \<and> 0 \<le> wk)"
    and "uh_map_sq H n = Inl e \<or> uh_map_cq H n = Inl e \<or> uh_map_sqes H n = Inl e \<Longrightarrow> 0 < e"
    and "uh_eventfd H = Inl e \<Longrightarrow> 0 < e"
    and "uh_tables H = (x, y, z, v) \<Longrightarrow> distinct (filter (\<lambda>x. x \<noteq> 0) [uh_calloc H, x, y, z, v]) \<and>
      {uh_calloc H, x, y, z, v} \<inter> rs_heap L = {}"
    and "uh_probe H = Inr (fd, p) \<Longrightarrow> fd \<notin> rs_fds L"
    and "uh_probe H = Inr (fd, p) \<or> uh_setup H = Inr (fd, p) \<Longrightarrow> 0 \<le> fd \<and> fd \<le> 2147483647"
    and "uh_probe H = Inl e \<or> uh_setup H = Inl e \<Longrightarrow> 0 < e"
proof -
  note ok = assms [unfolded uring_host_ok_def]
  have "\<forall>n a. uh_map_sq H n = Inr a \<or> uh_map_cq H n = Inr a \<or> uh_map_sqes H n = Inr a \<longrightarrow>
      a \<noteq> 0 \<and> a \<noteq> MAP_FAILED \<and> n \<noteq> 0 \<and> (\<forall>m. (a, m) \<notin> rs_maps L)"
    using ok by (elim conjE) assumption
  then show "uh_map_sq H n = Inr a \<or> uh_map_cq H n = Inr a \<or> uh_map_sqes H n = Inr a \<Longrightarrow>
      a \<noteq> 0 \<and> a \<noteq> MAP_FAILED \<and> n \<noteq> 0 \<and> (\<forall>m. (a, m) \<notin> rs_maps L)" by blast
  have "\<forall>fd p. uh_setup H = Inr (fd, p) \<longrightarrow> fd \<notin> rs_fds L \<and>
      (\<forall>wk. uh_eventfd H = Inr wk \<longrightarrow> wk \<notin> rs_fds L \<and> wk \<noteq> fd \<and> 0 \<le> wk)"
    using ok by (elim conjE) assumption
  then show "uh_setup H = Inr (fd, p) \<Longrightarrow> fd \<notin> rs_fds L \<and>
      (\<forall>wk. uh_eventfd H = Inr wk \<longrightarrow> wk \<notin> rs_fds L \<and> wk \<noteq> fd \<and> 0 \<le> wk)" by blast
  have "\<forall>n e. uh_map_sq H n = Inl e \<or> uh_map_cq H n = Inl e \<or> uh_map_sqes H n = Inl e \<longrightarrow> 0 < e"
    using ok by (elim conjE) assumption
  then show "uh_map_sq H n = Inl e \<or> uh_map_cq H n = Inl e \<or> uh_map_sqes H n = Inl e \<Longrightarrow> 0 < e" by blast
  have "\<forall>e. uh_eventfd H = Inl e \<longrightarrow> 0 < e"
    using ok by (elim conjE) assumption
  then show "uh_eventfd H = Inl e \<Longrightarrow> 0 < e" by blast
  have "case uh_tables H of (a, b, c, d) \<Rightarrow>
      distinct (filter (\<lambda>x. x \<noteq> 0) [uh_calloc H, a, b, c, d]) \<and> {uh_calloc H, a, b, c, d} \<inter> rs_heap L = {}"
    using ok by (elim conjE) assumption
  then show "uh_tables H = (x, y, z, v) \<Longrightarrow> distinct (filter (\<lambda>x. x \<noteq> 0) [uh_calloc H, x, y, z, v]) \<and>
      {uh_calloc H, x, y, z, v} \<inter> rs_heap L = {}" by simp
  have "\<forall>fd p. uh_probe H = Inr (fd, p) \<longrightarrow> fd \<notin> rs_fds L"
    using ok by (elim conjE) assumption
  then show "uh_probe H = Inr (fd, p) \<Longrightarrow> fd \<notin> rs_fds L" by blast
  have "\<forall>fd p. uh_probe H = Inr (fd, p) \<or> uh_setup H = Inr (fd, p) \<longrightarrow> 0 \<le> fd \<and> fd \<le> 2147483647"
    using ok by (elim conjE) assumption
  then show "uh_probe H = Inr (fd, p) \<or> uh_setup H = Inr (fd, p) \<Longrightarrow> 0 \<le> fd \<and> fd \<le> 2147483647" by blast
  have "\<forall>e. uh_probe H = Inl e \<or> uh_setup H = Inl e \<longrightarrow> 0 < e"
    using ok by (elim conjE) assumption
  then show "uh_probe H = Inl e \<or> uh_setup H = Inl e \<Longrightarrow> 0 < e" by blast
qed

text \<open>The wrapper passes a proper descriptor through, and a failure is negative.\<close>

lemma ioring_setup_ok:
  assumes "uring_host_ok H L" and "r = uh_probe H \<or> r = uh_setup H"
  shows "r = Inr (fd, p) \<Longrightarrow> ioring_setup r q = (fd, p) \<and> 0 \<le> fd" and "r = Inl e \<Longrightarrow> ioring_setup r q = (- e, q) \<and> 0 < e"
  using uring_host_okD(7) [OF assms(1), of fd p] uring_host_okD(8) [OF assms(1), of e] assms(2)
  by (auto simp: ioring_setup_def c_int_of_id)

lemma available_ledger:
  "uring_host_ok H L \<Longrightarrow> mjs_iouring_available H L = (av, L') \<Longrightarrow> L' = L"
  using uring_host_okD(6) [of H L] ioring_setup_ok [of H L "uh_probe H"]
  by (cases "uh_probe H") (auto simp: mjs_iouring_available_def mjs_iouring_probe_def led_close_def split: if_splits)

text \<open>The mappings a handle owns, as \<open>iouring_unmap\<close> sees them.\<close>

definition owned :: "addr \<Rightarrow> u64 \<Rightarrow> (addr \<times> u64) set" where
  "owned a n = (if a \<noteq> MAP_FAILED \<and> a \<noteq> 0 \<and> n \<noteq> 0 then {(a, n)} else {})"

definition uring_maps :: "mjs_uring \<Rightarrow> (addr \<times> u64) set" where
  "uring_maps u = owned (sq_ring u) (sq_ring_len u) \<union> owned (cq_ring u) (cq_ring_len u) \<union>
     owned (sqes_at u) (sqes_len u)"

lemma unmap_one_owned: "unmap_one a n L = L\<lparr>rs_maps := rs_maps L - owned a n\<rparr>"
  by (simp add: unmap_one_def led_munmap_def owned_def)

lemma iouring_unmap_ledger:
  "snd (iouring_unmap u L) = L\<lparr>rs_maps := rs_maps L - uring_maps u\<rparr>"
  "r_at (fst (iouring_unmap u L)) = r_at u"
  by (simp_all add: iouring_unmap_def unmap_one_owned uring_maps_def Let_def set_diff_eq Un_iff)

lemma iouring_map_rings_ledger:
  assumes ok: "uring_host_ok H L" and m: "iouring_map_rings H (fresh_uring fd sh) p L1 = (rc, u, L2)"
    and L1: "rs_maps L1 = rs_maps L"
  shows "rc \<noteq> 0 \<Longrightarrow> L2 = L1" and "rc = 0 \<Longrightarrow> L2 = L1\<lparr>rs_maps := rs_maps L \<union> uring_maps u\<rparr> \<and>
      uring_maps u \<inter> rs_maps L = {} \<and> ring_fd u = fd"
proof -
  define sq where "sq = round_page (uh_pagesize H) (ucast (p_sq_off_array p) + ucast (p_sq_entries p) * 4)"
  define cq where "cq = round_page (uh_pagesize H) (ucast (p_cq_off_cqes p) + ucast (p_cq_entries p) * 16)"
  define se where "se = round_page (uh_pagesize H) (ucast (p_sq_entries p) * 64)"
  note fr = uring_host_okD(1) [OF ok]
  note m' = m [unfolded iouring_map_rings_def Let_def, folded sq_def cq_def se_def]
  have er: "e \<noteq> 0" if "uh_map_sq H n = Inl e \<or> uh_map_cq H n = Inl e \<or> uh_map_sqes H n = Inl e" for n e
    using uring_host_okD(3) [OF ok that] by simp
  have "(rc \<noteq> 0 \<longrightarrow> L2 = L1) \<and> (rc = 0 \<longrightarrow> L2 = L1\<lparr>rs_maps := rs_maps L \<union> uring_maps u\<rparr> \<and>
      uring_maps u \<inter> rs_maps L = {} \<and> ring_fd u = fd)"
  proof (cases "uh_map_sq H sq")
    case (Inl e)
    then show ?thesis using m' er [of sq e] by auto
  next
    case Sq: (Inr a)
    have a: "a \<noteq> 0 \<and> a \<noteq> MAP_FAILED \<and> sq \<noteq> 0 \<and> (\<forall>m. (a, m) \<notin> rs_maps L)"
      by (rule fr) (simp add: Sq)
    show ?thesis
    proof (cases "uh_map_cq H cq")
      case (Inl e)
      have "snd (iouring_unmap (fresh_uring fd sh\<lparr>sq_ring := a, sq_ring_len := sq, cq_ring := MAP_FAILED\<rparr>)
          (L1\<lparr>rs_maps := insert (a, sq) (rs_maps L1)\<rparr>)) = L1"
        using a L1 by (auto simp: iouring_unmap_ledger uring_maps_def owned_def fresh_uring_def)
      then show ?thesis
        using m' Sq Inl er [of cq e] by (auto split: prod.splits)
    next
      case Cq: (Inr b)
      have b: "b \<noteq> 0 \<and> b \<noteq> MAP_FAILED \<and> cq \<noteq> 0 \<and> (\<forall>m. (b, m) \<notin> rs_maps L)"
        by (rule fr) (simp add: Cq)
      show ?thesis
      proof (cases "uh_map_sqes H se")
        case (Inl e)
        have "snd (iouring_unmap (fresh_uring fd sh\<lparr>sq_ring := a, sq_ring_len := sq, cq_ring := b,
            cq_ring_len := cq, sqes_at := MAP_FAILED\<rparr>)
            (L1\<lparr>rs_maps := insert (b, cq) (insert (a, sq) (rs_maps L1))\<rparr>)) = L1"
          using a b L1 by (auto simp: iouring_unmap_ledger uring_maps_def owned_def fresh_uring_def)
        then show ?thesis
          using m' Sq Cq Inl er [of se e] by (auto split: prod.splits)
      next
        case Se: (Inr c)
        have c: "c \<noteq> 0 \<and> c \<noteq> MAP_FAILED \<and> se \<noteq> 0 \<and> (\<forall>m. (c, m) \<notin> rs_maps L)"
          by (rule fr) (simp add: Se)
        have "rc = 0" and L2: "L2 = L1\<lparr>rs_maps := insert (c, se) (insert (b, cq) (insert (a, sq) (rs_maps L1)))\<rparr>"
          and u: "sq_ring u = a" "sq_ring_len u = sq" "cq_ring u = b" "cq_ring_len u = cq" "sqes_at u = c" "sqes_len u = se"
            "ring_fd u = fd"
          using m' Sq Cq Se by (auto simp: fresh_uring_def)
        moreover have "uring_maps u = {(a, sq), (b, cq), (c, se)}"
          using a b c u by (auto simp: uring_maps_def owned_def)
        ultimately show ?thesis using a b c L1 by (auto simp: insert_commute)
      qed
    qed
  qed
  then show "rc \<noteq> 0 \<Longrightarrow> L2 = L1" and "rc = 0 \<Longrightarrow> L2 = L1\<lparr>rs_maps := rs_maps L \<union> uring_maps u\<rparr> \<and>
      uring_maps u \<inter> rs_maps L = {} \<and> ring_fd u = fd" by blast+
qed

lemma release_set: "S \<inter> A = {} \<Longrightarrow> (A \<union> (S - Z)) - S = A"
  by blast

lemma release_five: "X - {a} - {b} - {c} - {d} - {e} = X - {e, a, b, c, d}"
  by blast

lemma uring_abandon_ledger:
  assumes "r_at u = (a, b, c, d)"
  shows "uring_abandon ua fd u L = L\<lparr>rs_fds := rs_fds L - {fd}, rs_maps := rs_maps L - uring_maps u,
    rs_heap := rs_heap L - {ua, a, b, c, d}\<rparr>"
proof -
  obtain u' L' where e: "iouring_unmap u L = (u', L')" by fastforce
  have "L' = L\<lparr>rs_maps := rs_maps L - uring_maps u\<rparr>" "r_at u' = (a, b, c, d)"
    using iouring_unmap_ledger [of u L] assms unfolding e by simp_all
  then show ?thesis
    by (simp add: uring_abandon_def e free_tables_def led_free_def led_close_def release_five)
qed

lemma led_alloc_heap: "led_alloc a L = L\<lparr>rs_heap := rs_heap L \<union> ({a} - {0})\<rparr>"
  by (cases "a = 0") (simp_all add: led_alloc_def)

lemma uring_maps_cong:
  "sq_ring u' = sq_ring u \<Longrightarrow> sq_ring_len u' = sq_ring_len u \<Longrightarrow> cq_ring u' = cq_ring u \<Longrightarrow>
   cq_ring_len u' = cq_ring_len u \<Longrightarrow> sqes_at u' = sqes_at u \<Longrightarrow> sqes_len u' = sqes_len u \<Longrightarrow>
   uring_maps u' = uring_maps u"
  by (simp add: uring_maps_def)

text \<open>The ledger with everything a complete handle owns, and its release by either route.\<close>

definition full_ledger :: "uring_ledger \<Rightarrow> int set \<Rightarrow> mjs_uring \<Rightarrow> addr set \<Rightarrow> uring_ledger" where
  "full_ledger L fds u heap = L\<lparr>rs_fds := rs_fds L \<union> fds, rs_maps := rs_maps L \<union> uring_maps u,
     rs_heap := rs_heap L \<union> (heap - {0})\<rparr>"

lemma full_ledger_abandon:
  assumes "r_at u' = (a, b, c, d)" and "uring_maps u' = uring_maps u" and "uring_maps u \<inter> rs_maps L = {}"
    and "fd \<notin> rs_fds L" and "{ua, a, b, c, d} \<inter> rs_heap L = {}"
  shows "uring_abandon ua fd u' (full_ledger L {fd} u {ua, a, b, c, d}) = L"
proof -
  have "(rs_fds L \<union> {fd}) - {fd} = rs_fds L" "(rs_maps L \<union> uring_maps u) - uring_maps u = rs_maps L"
    using assms(3,4) by blast+
  moreover have "(rs_heap L \<union> ({ua, a, b, c, d} - {0})) - {ua, a, b, c, d} = rs_heap L"
    using assms(5) by (rule release_set)
  ultimately show ?thesis
    unfolding uring_abandon_ledger [OF assms(1)] full_ledger_def assms(2) by simp
qed

lemma full_ledger_close:
  assumes "r_at u = (a, b, c, d)" and "uring_maps u \<inter> rs_maps L = {}" and "0 \<le> wake_fd u"
    and "ring_fd u \<notin> rs_fds L" and "wake_fd u \<notin> rs_fds L" and "{ua, a, b, c, d} \<inter> rs_heap L = {}"
  shows "mjs_iouring_close (Some (Some (ua, u))) (full_ledger L {ring_fd u, wake_fd u} u {ua, a, b, c, d})
    = (0, Some None, L)"
proof -
  let ?L = "full_ledger L {ring_fd u, wake_fd u} u {ua, a, b, c, d}"
  obtain u' L' where e: "iouring_unmap u (led_close (wake_fd u) ?L) = (u', L')" by fastforce
  have "L' = (led_close (wake_fd u) ?L)\<lparr>rs_maps := rs_maps ?L - uring_maps u\<rparr>" "r_at u' = (a, b, c, d)"
    using iouring_unmap_ledger [of u "led_close (wake_fd u) ?L"] assms(1) unfolding e
    by (simp_all add: led_close_def)
  moreover have "(rs_fds L \<union> {ring_fd u, wake_fd u}) - {wake_fd u} - {ring_fd u} = rs_fds L"
    "(rs_maps L \<union> uring_maps u) - uring_maps u = rs_maps L"
    using assms(2,4,5) by blast+
  moreover have "(rs_heap L \<union> ({ua, a, b, c, d} - {0})) - {a} - {b} - {c} - {d} - {ua} = rs_heap L"
    unfolding release_five using assms(6) by (rule release_set)
  ultimately show ?thesis
    using assms(3) e
    by (simp add: mjs_iouring_close_def free_tables_def led_free_def led_close_def full_ledger_def)
qed

text \<open>The ladder's stages as one case distinction: what the ledger is where the rings are mapped.\<close>

lemma create_mapped:
  assumes ok: "uring_host_ok H L" and su: "uh_setup H = Inr (fd, p)" and ua: "uh_calloc H \<noteq> 0"
    and m: "iouring_map_rings H (fresh_uring fd (uh_rings H)) p
      (led_alloc (uh_calloc H) (L\<lparr>rs_fds := insert fd (rs_fds L)\<rparr>)) = (rc, u, L2)"
    and tabs: "uh_tables H = (a, b, c, d)"
  shows "rc \<noteq> 0 \<Longrightarrow> led_free (uh_calloc H) (led_close fd L2) = L"
    and "rc = 0 \<Longrightarrow> led_alloc d (led_alloc c (led_alloc b (led_alloc a L2)))
      = full_ledger L {fd} u {uh_calloc H, a, b, c, d} \<and> uring_maps u \<inter> rs_maps L = {} \<and> ring_fd u = fd"
proof -
  let ?L1 = "led_alloc (uh_calloc H) (L\<lparr>rs_fds := insert fd (rs_fds L)\<rparr>)"
  have L1: "rs_maps ?L1 = rs_maps L" "rs_fds ?L1 = insert fd (rs_fds L)"
    "rs_heap ?L1 = insert (uh_calloc H) (rs_heap L)"
    using ua by (simp_all add: led_alloc_def)
  note fresh = uring_host_okD(2) [OF ok su] uring_host_okD(5) [OF ok tabs]
  note r = iouring_map_rings_ledger [OF ok m L1(1)]
  show "led_free (uh_calloc H) (led_close fd L2) = L" if "rc \<noteq> 0"
  proof -
    have "insert fd (rs_fds L) - {fd} = rs_fds L"
      "insert (uh_calloc H) (rs_heap L) - {uh_calloc H} = rs_heap L"
      using fresh by auto
    then show ?thesis
      using r(1) [OF that] ua by (simp add: led_free_def led_close_def led_alloc_def)
  qed
  show "led_alloc d (led_alloc c (led_alloc b (led_alloc a L2)))
      = full_ledger L {fd} u {uh_calloc H, a, b, c, d} \<and> uring_maps u \<inter> rs_maps L = {} \<and> ring_fd u = fd"
    if "rc = 0"
  proof -
    have "rs_heap L \<union> ({uh_calloc H} - {0}) \<union> ({a} - {0}) \<union> ({b} - {0}) \<union> ({c} - {0}) \<union> ({d} - {0})
        = rs_heap L \<union> ({uh_calloc H, a, b, c, d} - {0})" by blast
    then show ?thesis
      using r(2) [OF that] ua by (simp add: led_alloc_heap full_ledger_def)
  qed
qed

text \<open>The wake eventfd on top: closing it alone, and closing the finished handle.\<close>

lemma full_ledger_wake:
  assumes "wk \<notin> rs_fds L" and "wk \<noteq> fd" and "0 \<le> wk" and fd: "fd \<notin> rs_fds L"
    and maps: "uring_maps u \<inter> rs_maps L = {}" and heap: "{ua, a, b, c, d} \<inter> rs_heap L = {}"
    and v: "r_at v = (a, b, c, d)" "uring_maps v = uring_maps u" "ring_fd v = fd" "wake_fd v = wk"
    and L4: "L4 = (full_ledger L {fd} u {ua, a, b, c, d})\<lparr>rs_fds := insert wk (rs_fds (full_ledger L {fd} u {ua, a, b, c, d}))\<rparr>"
  shows "led_close wk L4 = full_ledger L {fd} u {ua, a, b, c, d}"
    and "mjs_iouring_close (Some (Some (ua, v\<lparr>wake_armed := True\<rparr>))) L4 = (0, Some None, L)"
proof -
  show "led_close wk L4 = full_ledger L {fd} u {ua, a, b, c, d}"
    using assms(1,2) by (simp add: L4 led_close_def full_ledger_def)
  have m: "uring_maps (v\<lparr>wake_armed := True\<rparr>) = uring_maps u"
    using v(2) by (simp add: uring_maps_cong [of "v\<lparr>wake_armed := True\<rparr>" v])
  have "L4 = full_ledger L {ring_fd (v\<lparr>wake_armed := True\<rparr>), wake_fd (v\<lparr>wake_armed := True\<rparr>)}
      (v\<lparr>wake_armed := True\<rparr>) {ua, a, b, c, d}"
    using v m by (simp add: L4 full_ledger_def insert_commute)
  then show "mjs_iouring_close (Some (Some (ua, v\<lparr>wake_armed := True\<rparr>))) L4 = (0, Some None, L)"
    by (simp only:) (rule full_ledger_close, use v m assms(1-3) fd maps heap in simp_all)
qed

text \<open>The second half of the ladder, from the ledger of the mapped rings.\<close>

lemma uring_finish_ledger:
  assumes ok: "uring_host_ok H L" and su: "uh_setup H = Inr (fd, p)" and tabs: "uh_tables H = (a, b, c, d)"
    and full: "led_alloc d (led_alloc c (led_alloc b (led_alloc a L2))) = full_ledger L {fd} u {uh_calloc H, a, b, c, d}"
    and maps: "uring_maps u \<inter> rs_maps L = {}" and rf: "ring_fd u = fd"
    and fin: "uring_finish K H (uh_calloc H) fd u out L2 w = (rc, out', L', w')"
  shows "(rc \<noteq> 0 \<longrightarrow> out' = out \<and> L' = L) \<and>
    (rc = 0 \<longrightarrow> (\<exists>ua u. out' = Some (Some (ua, u)) \<and> wake_armed u \<and> mjs_iouring_close out' L' = (0, Some None, L)))"
proof -
  obtain js jt ji where junk: "uh_junk H = (js, jt, ji)"
    by (metis prod.exhaust)
  define cap where "cap = (if sq_entries u < 16 then 16 else sq_entries u)"
  define u1 where "u1 = u\<lparr>r_cap := cap, r_at := (a, b, c, d)\<rparr>"
  define u2 where "u2 = u1\<lparr>r_fds := replicate (unat cap) (- 1), r_seqs := js, r_tok := jt, r_int := ji, r_count := 0\<rparr>"
  let ?ua = "uh_calloc H"
  let ?F = "full_ledger L {fd} u {?ua, a, b, c, d}"
  note fds = uring_host_okD(2) [OF ok su]
  note heap = conjunct2 [OF uring_host_okD(5) [OF ok tabs]]
  have ab: "uring_abandon ?ua fd v ?F = L" if "r_at v = (a, b, c, d)" "uring_maps v = uring_maps u" for v
    using that maps conjunct1 [OF fds] heap by (rule full_ledger_abandon)
  have ab1: "uring_abandon ?ua fd u1 ?F = L" and ab2: "uring_abandon ?ua fd (u2\<lparr>wake_fd := - 1\<rparr>) ?F = L"
    by (rule ab; simp add: u1_def u2_def uring_maps_def)+
  note fin' = fin [unfolded uring_finish_def tabs junk Let_def prod.case full, folded cap_def, folded u1_def,
      folded u2_def]
  show ?thesis
  proof (cases "a = 0 \<or> b = 0 \<or> c = 0 \<or> d = 0")
    case True
    then show ?thesis using fin' ab1 by auto
  next
    case nz: False
    show ?thesis
    proof (cases "uh_eventfd H")
      case (Inl e)
      then show ?thesis using fin' nz ab2 uring_host_okD(4) [OF ok Inl] by auto
    next
      case (Inr wk)
      obtain rc1 u4 w1 where s: "uring_submit_poll_add K (u2\<lparr>wake_fd := wk\<rparr>) wk 1 MJS_URING_WAKE w = (rc1, u4, w1)"
        by (metis prod.exhaust)
      let ?L4 = "?F\<lparr>rs_fds := insert wk (rs_fds ?F)\<rparr>"
      have wk: "wk \<notin> rs_fds L" "wk \<noteq> fd" "0 \<le> wk" using fds Inr by auto
      note f = same_rest_fields [OF uring_submit_poll_add_rest [OF s]]
      have u4: "r_at u4 = (a, b, c, d)" "uring_maps u4 = uring_maps u" "ring_fd u4 = fd" "wake_fd u4 = wk"
        using f rf by (simp_all add: u2_def u1_def uring_maps_def)
      note wake = full_ledger_wake [OF wk conjunct1 [OF fds] maps heap u4 refl]
      have ab4: "uring_abandon ?ua fd u4 (led_close wk ?L4) = L"
        unfolding wake(1) using ab [OF u4(1,2)] .
      show ?thesis
        using fin' nz Inr s ab4 wake(2) by (cases "rc1 = 0") auto
    qed
  qed
qed

section \<open>Properties\<close>

text \<open>
  (C31) Creation leaks nothing and closing undoes it. With a host that hands out fresh resources,
  whichever of the calls of \<open>mjs_iouring_create\<close> fails (setup, allocation of the handle, any of
  the three mappings, any of the four tables, the eventfd, or arming the wake poll), the
  descriptors, mappings and heap blocks are those from before the call and the out slot is
  untouched; on success the ledger has grown by exactly what the handle records, and closing
  the handle gives back exactly that and clears the slot.
\<close>
theorem uring_create_clean:
  assumes "uring_host_ok H L" and "mjs_iouring_create K H (Some x) L w = (rc, out, L', w')"
  shows "(rc \<noteq> 0 \<longrightarrow> out = Some x \<and> L' = L) \<and>
    (rc = 0 \<longrightarrow> (\<exists>ua u. out = Some (Some (ua, u)) \<and> wake_armed u \<and> mjs_iouring_close out L' = (0, Some None, L)))"
proof -
  obtain av L0 where av: "mjs_iouring_available H L = (av, L0)" by fastforce
  have L0: "L0 = L" using available_ledger [OF assms(1) av] .
  note create = assms(2) [unfolded mjs_iouring_create_def av L0 Let_def prod.case]
  show ?thesis
  proof (cases "av = 0")
    case True
    then show ?thesis using create by auto
  next
    case av0: False
    show ?thesis
    proof (cases "uh_setup H")
      case (Inl e)
      then show ?thesis using create av0 ioring_setup_ok(2) [OF assms(1), of "uh_setup H"] by auto
    next
      case (Inr fp)
      then obtain fd p where su: "uh_setup H = Inr (fd, p)" by (cases fp) simp
      then have se: "ioring_setup (uh_setup H) zero_params = (fd, p)" "\<not> fd < 0"
        using ioring_setup_ok(1) [OF assms(1), of "uh_setup H" fd p zero_params] by simp_all
      note fds = uring_host_okD(2) [OF assms(1) su]
      let ?ua = "uh_calloc H"
      let ?L1 = "L\<lparr>rs_fds := insert fd (rs_fds L)\<rparr>"
      show ?thesis
      proof (cases "?ua = 0")
        case True
        have "led_close fd ?L1 = L" using fds by (simp add: led_close_def)
        then show ?thesis using create av0 se True by auto
      next
        case ua: False
        obtain rc1 u L2 where m: "iouring_map_rings H (fresh_uring fd (uh_rings H)) p (led_alloc ?ua ?L1) = (rc1, u, L2)"
          by (metis prod.exhaust)
        obtain a b c d where tabs: "uh_tables H = (a, b, c, d)"
          by (metis prod.exhaust)
        note cm = create_mapped [OF assms(1) su ua m tabs]
        show ?thesis
        proof (cases "rc1 = 0")
          case False
          then show ?thesis using create av0 se ua m cm(1) by auto
        next
          case True
          have "uring_finish K H ?ua fd u (Some x) L2 w = (rc, out, L', w')"
            using create av0 se ua m True by simp
          then show ?thesis
            using cm(2) [OF True] by (intro uring_finish_ledger [OF assms(1) su tabs]) simp_all
        qed
      qed
    qed
  qed
qed

definition demo_host :: uring_host where
  "demo_host = \<lparr>uh_getenv = Some ''1'', uh_probe = Inr (4, zero_params),
     uh_setup = Inr (5, \<lparr>p_sq_entries = 4, p_cq_entries = 8, p_sq_off_array = 64, p_cq_off_cqes = 64\<rparr>),
     uh_rings = \<lparr>sq_head = 0, sq_tail = 0, sq_mask = 3, sq_array = [0, 0, 0, 0],
       sqes = replicate 4 zero_sqe, cq_head = 0, cq_tail = 0, cq_mask = 7,
       cqes = replicate 8 \<lparr>cqe_user_data = 0, cqe_res = 0\<rparr>\<rparr>,
     uh_pagesize = 4096, uh_calloc = 256,
     uh_map_sq = (\<lambda>n. if n = 0 then Inl 22 else Inr 65536),
     uh_map_cq = (\<lambda>n. if n = 0 then Inl 22 else Inr 131072),
     uh_map_sqes = (\<lambda>n. if n = 0 then Inl 22 else Inr 196608),
     uh_tables = (512, 768, 1024, 1280), uh_junk = ([], [], []), uh_eventfd = Inr 6\<rparr>"

definition empty_ledger :: uring_ledger where
  "empty_ledger = \<lparr>rs_fds = {0, 1, 2}, rs_maps = {}, rs_heap = {}\<rparr>"

lemma demo_host_ok: "uring_host_ok demo_host empty_ledger"
  unfolding uring_host_ok_def by (auto simp: demo_host_def empty_ledger_def split: if_splits)

lemma demo_create_rc: "fst (mjs_iouring_create take_one_kernel demo_host (Some None) empty_ledger ()) = 0"
  by (simp add: mjs_iouring_create_def mjs_iouring_available_def mjs_iouring_probe_def demo_host_def
      iouring_map_rings_def round_page_def fresh_uring_def uring_finish_def uring_submit_poll_add_def
      stage_eqs uring_stage_def uring_get_sqe_def put_sqe_def uring_submit_def ioring_enter_def take_one_kernel_def
      ioring_setup_def c_int_of_def Let_def)

theorem uring_create_clean_witness:
  "\<exists>ua u L' w'. mjs_iouring_create take_one_kernel demo_host (Some None) empty_ledger ()
      = (0, Some (Some (ua, u)), L', w') \<and>
    mjs_iouring_close (Some (Some (ua, u))) L' = (0, Some None, empty_ledger)"
proof -
  obtain rc out L' w' where c: "mjs_iouring_create take_one_kernel demo_host (Some None) empty_ledger () = (rc, out, L', w')"
    by (metis prod.exhaust)
  then have "rc = 0" using demo_create_rc by simp
  with uring_create_clean [OF demo_host_ok c] c show ?thesis by auto
qed

end
