(* ===== verification/Mjs_UringTable.thy ===== *)
theory Mjs_UringTable
  imports Mjs_IoUring
begin

text \<open>
  The registration table of the io\_uring poller: the tags that identify armed polls stay
  unique, a drain of the completion ring is a fold over the completions and delivers exactly
  the armed ones, and the two ways in which the table loses a registration.
\<close>

section \<open>Tags\<close>

text \<open>
  The invariant of the table: the parallel arrays have \<open>r_cap\<close> elements, and the tags of used
  slots are either 0 (the poll has fired and is not yet re-armed) or were handed out before, no
  two alike.
\<close>

definition uring_tags :: "mjs_uring \<Rightarrow> bool" where
  "uring_tags u \<longleftrightarrow>
     length (r_fds u) = unat (r_cap u) \<and> length (r_seqs u) = unat (r_cap u) \<and> 0 < unat (r_cap u) \<and>
     (\<forall>i < unat (r_cap u). r_fds u ! i \<ge> 0 \<longrightarrow>
        r_seqs u ! i = 0 \<or> MJS_URING_FIRST_SEQ \<le> r_seqs u ! i \<and> r_seqs u ! i < next_seq u) \<and>
     (\<forall>i < unat (r_cap u). \<forall>j < unat (r_cap u). i \<noteq> j \<longrightarrow> r_fds u ! i \<ge> 0 \<longrightarrow> r_fds u ! j \<ge> 0 \<longrightarrow>
        r_seqs u ! i \<noteq> 0 \<longrightarrow> r_seqs u ! i \<noteq> r_seqs u ! j) \<and>
     MJS_URING_FIRST_SEQ \<le> next_seq u"

text \<open>The completions between the local head and the kernel's tail, oldest first.\<close>

definition cq_list :: "uring_shared \<Rightarrow> u32 \<Rightarrow> u32 \<Rightarrow> io_uring_cqe list" where
  "cq_list sh head tail = map (\<lambda>j. cqes sh ! unat ((head + of_nat j) AND cq_mask sh)) [0..<unat (tail - head)]"

definition is_marker :: "io_uring_cqe \<Rightarrow> bool" where
  "is_marker e \<longleftrightarrow> cqe_user_data e = MJS_URING_TIMEOUT \<or> cqe_user_data e = MJS_URING_WAKE"

text \<open>The slot a completion belongs to, and the event it becomes.\<close>

definition cqe_slot :: "mjs_uring \<Rightarrow> io_uring_cqe \<Rightarrow> nat option" where
  "cqe_slot p e = (if is_marker e then None else uring_find p (cqe_user_data e))"

definition event_of :: "mjs_uring \<Rightarrow> io_uring_cqe \<Rightarrow> mjs_poll_event" where
  "event_of p e = (let i = the (cqe_slot p e)
     in \<lparr>pe_token = r_tok p ! i, pe_fd = r_fds p ! i, pe_events = uring_flags (cqe_res e)\<rparr>)"

text \<open>
  The drain on an abstract table. A slot is free, or registered with a poll that has fired and is
  not yet re-armed, or registered with an armed poll of some tag. A completion belongs to the slot
  armed with its tag; one of tag 0, which only removals carry, to the first slot that has fired.
  A failure frees the slot, anything else fires it and is a hit. The result lists the hits in
  order and the final table.
\<close>

datatype slot_state = Free | Fired | Armed u64

definition slot_states :: "mjs_uring \<Rightarrow> slot_state list" where
  "slot_states p = map (\<lambda>i. if r_fds p ! i < 0 then Free else if r_seqs p ! i = 0 then Fired
     else Armed (r_seqs p ! i)) [0..<unat (r_cap p)]"

definition cqe_target :: "slot_state list \<Rightarrow> io_uring_cqe \<Rightarrow> nat option" where
  "cqe_target S e =
     (if is_marker e then None
      else let d = cqe_user_data e in find (\<lambda>i. S ! i = (if d = 0 then Fired else Armed d)) [0..<length S])"

fun drain_spec :: "io_uring_cqe list \<Rightarrow> slot_state list \<Rightarrow> (nat \<times> io_uring_cqe) list \<times> slot_state list" where
  "drain_spec [] S = ([], S)"
| "drain_spec (e # es) S =
     (case cqe_target S e of
        None \<Rightarrow> drain_spec es S
      | Some i \<Rightarrow>
          if cqe_res e < 0 then drain_spec es (S[i := Free])
          else let (hs, S') = drain_spec es (S[i := Fired]) in ((i, e) # hs, S'))"

definition slot_event :: "mjs_uring \<Rightarrow> nat \<Rightarrow> io_uring_cqe \<Rightarrow> mjs_poll_event" where
  "slot_event p i e = \<lparr>pe_token = r_tok p ! i, pe_fd = r_fds p ! i, pe_events = uring_flags (cqe_res e)\<rparr>"

text \<open>The completions a drain would give to the armed tag \<open>d\<close>.\<close>

definition cqes_for :: "u64 \<Rightarrow> io_uring_cqe list \<Rightarrow> io_uring_cqe list" where
  "cqes_for d cs = filter (\<lambda>e. cqe_user_data e = d \<and> \<not> is_marker e) cs"

section \<open>Lemmas\<close>

subsection \<open>The drain as a fold\<close>

lemma cq_list_simps:
  "cq_list sh h h = []"
  "h \<noteq> t \<Longrightarrow> cq_list sh h t = cqes sh ! unat (h AND cq_mask sh) # cq_list sh (h + 1) t"
proof -
  show "cq_list sh h h = []" by (simp add: cq_list_def)
  assume "h \<noteq> t"
  then have "t - h \<noteq> 0" by simp
  then have "unat (t - h) = Suc (unat (t - h - 1))"
    by (metis Suc_pred' unat_gt_0 unat_minus_one)
  moreover have "t - h - 1 = t - (h + 1)" by (simp only: diff_diff_eq)
  ultimately have n: "unat (t - h) = Suc (unat (t - (h + 1)))" by simp
  have "[0..<Suc k] = 0 # map Suc [0..<k]" for k
    by (simp add: map_Suc_upt upt_conv_Cons del: upt_Suc)
  then show "cq_list sh h t = cqes sh ! unat (h AND cq_mask sh) # cq_list sh (h + 1) t"
    unfolding cq_list_def n by (simp add: o_def add.assoc)
qed

lemma drain_loop_fold: "drain_loop K cap sh head tail st = fold (drain_cqe K cap) (cq_list sh head tail) st"
proof (induction K cap sh head tail st rule: drain_loop.induct)
  case (1 K cap sh head tail st)
  then show ?case
    by (subst drain_loop.simps) (simp add: cq_list_simps)
qed

lemma nth_upd: "j < length xs \<Longrightarrow> xs[i := x] ! j = (if i = j then x else xs ! j)"
  by auto

lemma find_cong_list: "(\<And>x. x \<in> set xs \<Longrightarrow> P x = Q x) \<Longrightarrow> find P xs = find Q xs"
  by (induction xs) auto

lemma uring_find_SomeD:
  assumes "uring_find p d = Some i"
  shows "i < unat (r_cap p)" and "0 \<le> r_fds p ! i" and "r_seqs p ! i = d"
  using assms unfolding uring_find_def by (auto simp: find_Some_iff)

text \<open>One completion, by cases on the slot it belongs to.\<close>

lemma drain_cqe_cases:
  assumes "drain_cqe K cap e (p, out, f, w) = (p', out', f', w')"
    and "length (r_fds p) = unat (r_cap p)" and "length (r_seqs p) = unat (r_cap p)"
  shows "r_tok p' = r_tok p" and "r_cap p' = r_cap p" and "next_seq p' = next_seq p"
    and "shared p' = shared p" and "length (r_fds p') = unat (r_cap p')" and "length (r_seqs p') = unat (r_cap p')"
    and "cqe_slot p e = None \<Longrightarrow> r_fds p' = r_fds p \<and> r_seqs p' = r_seqs p \<and> out' = out"
    and "cqe_slot p e = Some i \<Longrightarrow> cqe_res e < 0 \<Longrightarrow>
      r_fds p' = (r_fds p)[i := - 1] \<and> r_seqs p' = r_seqs p \<and> out' = out"
    and "cqe_slot p e = Some i \<Longrightarrow> 0 \<le> cqe_res e \<Longrightarrow> r_fds p' = r_fds p \<and> r_seqs p' = (r_seqs p)[i := 0] \<and>
      out' = (if length out < cap then out @ [event_of p e] else out)"
  using assms
  by (auto simp: drain_cqe_def cqe_slot_def is_marker_def event_of_def Let_def
      split: if_splits option.splits prod.splits)

subsection \<open>The drain on the abstract table\<close>

lemma slot_states_length [simp]: "length (slot_states p) = unat (r_cap p)"
  by (simp add: slot_states_def)

lemma slot_states_nth:
  "i < unat (r_cap p) \<Longrightarrow> slot_states p ! i =
     (if r_fds p ! i < 0 then Free else if r_seqs p ! i = 0 then Fired else Armed (r_seqs p ! i))"
  by (simp add: slot_states_def)

lemma cqe_target_slot: "cqe_target (slot_states p) e = cqe_slot p e"
proof -
  have "find (\<lambda>i. slot_states p ! i = (if d = 0 then Fired else Armed d)) [0..<unat (r_cap p)] =
      find (\<lambda>i. r_fds p ! i \<ge> 0 \<and> r_seqs p ! i = d) [0..<unat (r_cap p)]" for d
    by (intro find_cong_list) (auto simp: slot_states_nth)
  then show ?thesis
    by (simp add: cqe_target_def cqe_slot_def uring_find_def Let_def)
qed

lemma drain_cqe_states:
  assumes "drain_cqe K cap e (p, out, f, w) = (p', out', f', w')"
    and "length (r_fds p) = unat (r_cap p)" and "length (r_seqs p) = unat (r_cap p)"
  shows "slot_states p' = (case cqe_slot p e of None \<Rightarrow> slot_states p
     | Some i \<Rightarrow> (slot_states p)[i := if cqe_res e < 0 then Free else Fired])"
proof (cases "cqe_slot p e")
  case None
  then show ?thesis
    using drain_cqe_cases [OF assms] by (simp add: slot_states_def)
next
  case (Some i)
  note c = drain_cqe_cases [OF assms]
  have i: "i < unat (r_cap p)" "0 \<le> r_fds p ! i"
    using Some uring_find_SomeD [of p "cqe_user_data e" i] by (auto simp: cqe_slot_def split: if_splits)
  show ?thesis
    using c(8,9) [OF Some] Some i assms(2,3)
    by (cases "cqe_res e < 0"; intro nth_equalityI) (auto simp: c(2) slot_states_nth nth_upd)
qed

lemma cqe_targetD:
  assumes "cqe_target S e = Some i"
  shows "i < length S" and "S ! i \<noteq> Free"
  using assms by (auto simp: cqe_target_def Let_def find_Some_iff split: if_splits)

lemma drain_spec_length [simp]: "length (snd (drain_spec cs S)) = length S"
  by (induction cs S rule: drain_spec.induct) (auto split: option.splits prod.splits)

lemma drain_spec_hits: "(j, e) \<in> set (fst (drain_spec cs S)) \<Longrightarrow> j < length S \<and> S ! j \<noteq> Free"
proof (induction cs S rule: drain_spec.induct)
  case (2 c cs S)
  show ?case
  proof (cases "cqe_target S c")
    case None
    then show ?thesis using 2 by simp
  next
    case (Some i)
    note i = cqe_targetD [OF Some]
    show ?thesis
    proof (cases "cqe_res c < 0")
      case True
      then have "j < length S \<and> S[i := Free] ! j \<noteq> Free"
        using 2 Some by simp
      then show ?thesis by (auto simp: nth_upd split: if_splits)
    next
      case False
      then have "(j, e) = (i, c) \<or> j < length S \<and> S[i := Fired] ! j \<noteq> Free"
        using 2 Some by (auto split: prod.splits)
      then show ?thesis using i by (auto simp: nth_upd split: if_splits)
    qed
  qed
qed simp

lemma drain_fold_spec:
  assumes "fold (drain_cqe K cap) cs (p, out, f, w) = (p', out', f', w')"
    and "length (r_fds p) = unat (r_cap p)" and "length (r_seqs p) = unat (r_cap p)"
  shows "out' = out @ take (cap - length out) (map (\<lambda>(i, e). slot_event p i e) (fst (drain_spec cs (slot_states p)))) \<and>
    slot_states p' = snd (drain_spec cs (slot_states p)) \<and> r_tok p' = r_tok p \<and> r_cap p' = r_cap p \<and>
    (\<forall>i < unat (r_cap p). r_fds p' ! i = r_fds p ! i \<or> r_fds p' ! i = - 1)"
  using assms
proof (induction cs arbitrary: p out f w)
  case (Cons e cs)
  obtain p1 out1 f1 w1 where s: "drain_cqe K cap e (p, out, f, w) = (p1, out1, f1, w1)"
    by (metis prod.exhaust)
  note c = drain_cqe_cases [OF s Cons.prems(2,3)] and st = drain_cqe_states [OF s Cons.prems(2,3)]
  have fd: "r_fds p1 ! i = r_fds p ! i \<or> r_fds p1 ! i = - 1" if "i < unat (r_cap p)" for i
    using c(7-9) that Cons.prems(2) by (cases "cqe_slot p e"; cases "cqe_res e < 0") (auto simp: nth_upd)
  have "fold (drain_cqe K cap) cs (p1, out1, f1, w1) = (p', out', f', w')"
    using Cons.prems(1) s by simp
  note IH = Cons.IH [OF this c(5,6)]
  have ev: "map (\<lambda>(i, e). slot_event p1 i e) (fst (drain_spec cs (slot_states p1))) =
      map (\<lambda>(i, e). slot_event p i e) (fst (drain_spec cs (slot_states p1)))"
  proof (intro map_cong refl, clarify)
    fix i x assume "(i, x) \<in> set (fst (drain_spec cs (slot_states p1)))"
    from drain_spec_hits [OF this] have i: "i < unat (r_cap p)" "slot_states p1 ! i \<noteq> Free"
      using c(2) by simp_all
    then have "\<not> r_fds p1 ! i < 0" using c(2) slot_states_nth [of i p1] by auto
    with fd [OF i(1)] show "slot_event p1 i x = slot_event p i x"
      by (auto simp: slot_event_def c(1))
  qed
  have out1: "out1 @ take (cap - length out1) ys = out @ take (cap - length out)
      ((case cqe_slot p e of None \<Rightarrow> [] | Some i \<Rightarrow> if cqe_res e < 0 then [] else [slot_event p i e]) @ ys)" for ys
    using c(7-9) by (cases "cqe_slot p e"; cases "cqe_res e < 0")
      (auto simp: event_of_def slot_event_def Let_def take_Cons' Suc_diff_Suc)
  have hits: "map (\<lambda>(i, e). slot_event p i e) (fst (drain_spec (e # cs) (slot_states p))) =
      (case cqe_slot p e of None \<Rightarrow> [] | Some i \<Rightarrow> if cqe_res e < 0 then [] else [slot_event p i e]) @
        map (\<lambda>(i, e). slot_event p i e) (fst (drain_spec cs (slot_states p1)))"
    by (auto simp: cqe_target_slot st split: option.splits prod.splits)
  have fin: "snd (drain_spec (e # cs) (slot_states p)) = snd (drain_spec cs (slot_states p1))"
    by (auto simp: cqe_target_slot st split: option.splits prod.splits)
  have "r_fds p' ! i = r_fds p ! i \<or> r_fds p' ! i = - 1" if "i < unat (r_cap p)" for i
    using IH fd [OF that] that c(2) by metis
  moreover have "out' = out @ take (cap - length out)
      (map (\<lambda>(i, e). slot_event p i e) (fst (drain_spec (e # cs) (slot_states p))))"
    unfolding hits out1 [symmetric] using IH ev by simp
  ultimately show ?case
    using IH c(1,2) unfolding fin by simp
qed simp

text \<open>Without completions of tag 0, a slot that is not armed is left alone, and an armed one is
  decided by the first completion of its tag.\<close>

lemma cqe_target_armed:
  assumes "cqe_user_data e \<noteq> 0" and "cqe_target S e = Some j"
  shows "S ! j = Armed (cqe_user_data e)"
  using assms by (auto simp: cqe_target_def Let_def find_Some_iff split: if_splits)

lemma drain_spec_idle:
  assumes "\<forall>e \<in> set cs. cqe_user_data e \<noteq> 0" and "i < length S" and "\<And>d. S ! i \<noteq> Armed d"
  shows "filter (\<lambda>h. fst h = i) (fst (drain_spec cs S)) = [] \<and> snd (drain_spec cs S) ! i = S ! i"
  using assms
proof (induction cs S rule: drain_spec.induct)
  case (2 e cs S)
  have ne: "j \<noteq> i" if "cqe_target S e = Some j" for j
    using cqe_target_armed [OF _ that] 2(4,6) by auto
  show ?case
    using 2 ne by (cases "cqe_target S e") (auto split: prod.splits)
qed simp

lemma drain_spec_armed:
  assumes "\<forall>e \<in> set cs. cqe_user_data e \<noteq> 0" and "i < length S" and "S ! i = Armed d" and "d \<noteq> 0"
    and "\<And>j. j < length S \<Longrightarrow> S ! j = Armed d \<Longrightarrow> j = i"
  shows "filter (\<lambda>h. fst h = i) (fst (drain_spec cs S)) =
      (case cqes_for d cs of [] \<Rightarrow> [] | e # _ \<Rightarrow> if cqe_res e < 0 then [] else [(i, e)]) \<and>
    snd (drain_spec cs S) ! i =
      (case cqes_for d cs of [] \<Rightarrow> Armed d | e # _ \<Rightarrow> if cqe_res e < 0 then Free else Fired)"
  using assms
proof (induction cs arbitrary: S)
  case Nil
  from Nil(3) show ?case by (simp add: cqes_for_def)
next
  case (Cons e cs)
  show ?case
  proof (cases "cqe_user_data e = d \<and> \<not> is_marker e")
    case True
    have "cqe_target S e \<noteq> None"
      using True Cons.prems(2-4) by (auto simp: cqe_target_def Let_def find_None_iff)
    then obtain j where j: "cqe_target S e = Some j" by blast
    have "S ! j = Armed d" using cqe_target_armed [OF _ j] True Cons.prems(4) by simp
    from Cons.prems(5) [OF cqe_targetD(1) [OF j] this] have t: "cqe_target S e = Some i" using j by simp
    have idle: "filter (\<lambda>h. fst h = i) (fst (drain_spec cs (S[i := x]))) = [] \<and> snd (drain_spec cs (S[i := x])) ! i = x"
      if "x = Free \<or> x = Fired" for x
      using drain_spec_idle [of cs i "S[i := x]"] Cons.prems(1,2) that by auto
    show ?thesis
      using True t idle [of Free] idle [of Fired] by (auto simp: cqes_for_def split: prod.splits)
  next
    case False
    have ne: "j \<noteq> i" if "cqe_target S e = Some j" for j
      using cqe_target_armed [OF _ that] Cons.prems(1,3) False that by (auto simp: cqe_target_def split: if_splits)
    have IH: "filter (\<lambda>h. fst h = i) (fst (drain_spec cs S1)) =
        (case cqes_for d cs of [] \<Rightarrow> [] | e # _ \<Rightarrow> if cqe_res e < 0 then [] else [(i, e)]) \<and>
      snd (drain_spec cs S1) ! i =
        (case cqes_for d cs of [] \<Rightarrow> Armed d | e # _ \<Rightarrow> if cqe_res e < 0 then Free else Fired)"
      if "S1 = S \<or> (\<exists>j x. j \<noteq> i \<and> S1 = S[j := x] \<and> (x = Free \<or> x = Fired))" for S1
    proof (rule Cons.IH)
      show "\<forall>e \<in> set cs. cqe_user_data e \<noteq> 0" using Cons.prems(1) by simp
      show "i < length S1" "S1 ! i = Armed d" "d \<noteq> 0" using that Cons.prems(2-4) by auto
      show "j = i" if j: "j < length S1" "S1 ! j = Armed d" for j
      proof (rule Cons.prems(5))
        show "j < length S" "S ! j = Armed d"
          using j \<open>S1 = S \<or> _\<close> by (auto simp: nth_upd split: if_splits)
      qed
    qed
    have c: "cqes_for d (e # cs) = cqes_for d cs" using False by (simp add: cqes_for_def)
    show ?thesis
    proof (cases "cqe_target S e")
      case None
      then show ?thesis using IH [of S] unfolding c by simp
    next
      case (Some j)
      have upd: "S[j := x] = S \<or> (\<exists>k y. k \<noteq> i \<and> S[j := x] = S[k := y] \<and> (y = Free \<or> y = Fired))"
        if "x = Free \<or> x = Fired" for x
        using ne [OF Some] that by blast
      show ?thesis
        using IH [OF upd, of Free] IH [OF upd, of Fired] Some ne [OF Some] unfolding c
        by (cases "cqe_res e < 0") (auto split: prod.splits)
    qed
  qed
qed

subsection \<open>Keeping the tags\<close>

lemma uring_tags_cong:
  assumes "uring_tags u" and "r_fds u' = r_fds u" and "r_seqs u' = r_seqs u" and "r_cap u' = r_cap u"
    and "next_seq u' = next_seq u"
  shows "uring_tags u'"
  using assms unfolding uring_tags_def by simp

lemma uring_tagsD:
  assumes "uring_tags u" and "i < unat (r_cap u)" and "0 \<le> r_fds u ! i" and "r_seqs u ! i \<noteq> 0"
  shows "r_seqs u ! i < next_seq u"
    and "j < unat (r_cap u) \<Longrightarrow> i \<noteq> j \<Longrightarrow> 0 \<le> r_fds u ! j \<Longrightarrow> r_seqs u ! i \<noteq> r_seqs u ! j"
proof -
  have "\<forall>i < unat (r_cap u). 0 \<le> r_fds u ! i \<longrightarrow>
      r_seqs u ! i = 0 \<or> MJS_URING_FIRST_SEQ \<le> r_seqs u ! i \<and> r_seqs u ! i < next_seq u"
    using assms(1) by (simp add: uring_tags_def)
  from this [rule_format, OF assms(2,3)] assms(4) show "r_seqs u ! i < next_seq u" by simp
  show "r_seqs u ! i \<noteq> r_seqs u ! j" if "j < unat (r_cap u)" "i \<noteq> j" "0 \<le> r_fds u ! j"
    using assms that unfolding uring_tags_def by simp
qed

lemma same_rest_tags: "same_rest u u' \<Longrightarrow> uring_tags u \<Longrightarrow> uring_tags u'"
  using uring_tags_cong [of u u'] same_rest_fields [of u u'] by simp

text \<open>Freeing a slot, un-arming it, and giving it the next tag.\<close>

lemma uring_tags_free:
  assumes "uring_tags u"
  shows "uring_tags (u\<lparr>r_fds := (r_fds u)[i := - 1], r_count := n\<rparr>)"
  using assms unfolding uring_tags_def by (auto simp: nth_upd)

lemma uring_tags_fire:
  assumes "uring_tags u"
  shows "uring_tags (u\<lparr>r_seqs := (r_seqs u)[i := 0]\<rparr>)"
  using assms unfolding uring_tags_def by (auto simp: nth_upd)

lemma next_tag:
  assumes "uring_tags u" and "unat (next_seq u) < 18446744073709551613"
  shows "MJS_URING_FIRST_SEQ \<le> next_seq u" "next_seq u \<noteq> 0" "next_seq u < next_seq u + 1"
    "x < next_seq u \<Longrightarrow> x < next_seq u + 1"
proof -
  show f: "MJS_URING_FIRST_SEQ \<le> next_seq u" using assms(1) by (simp add: uring_tags_def)
  then show "next_seq u \<noteq> 0" by (auto simp: MJS_URING_FIRST_SEQ_def)
  have "unat (next_seq u + 1) = unat (next_seq u) + 1"
    using assms(2) by (intro unat_inc64) (auto simp: unat_max64)
  then show "next_seq u < next_seq u + 1" by (simp add: word_less_unat)
  then show "x < next_seq u \<Longrightarrow> x < next_seq u + 1" by (rule less_trans [rotated])
qed

lemma uring_tags_arm:
  assumes tags: "uring_tags u" and room: "unat (next_seq u) < 18446744073709551613" and i: "i < unat (r_cap u)"
  shows "uring_tags (u\<lparr>next_seq := next_seq u + 1, r_fds := (r_fds u)[i := fd], r_seqs := (r_seqs u)[i := next_seq u]\<rparr>)"
proof -
  note n = next_tag [OF tags room]
  have old: "r_seqs u ! j \<noteq> next_seq u" if "j < unat (r_cap u)" "r_fds u ! j \<ge> 0" for j
    using tags that n(2) unfolding uring_tags_def by (metis less_irrefl)
  show ?thesis
    using tags i n old unfolding uring_tags_def by (auto simp: nth_upd)
qed

lemma uring_tags_skip:
  assumes tags: "uring_tags u" and room: "unat (next_seq u) < 18446744073709551613"
  shows "uring_tags (u\<lparr>next_seq := next_seq u + 1\<rparr>)"
  using tags next_tag [OF tags room] unfolding uring_tags_def by auto

lemma and_less_cap:
  fixes x c :: u32
  assumes "0 < unat c"
  shows "unat (x AND (c - 1)) < unat c"
proof -
  have "unat (x AND (c - 1)) \<le> unat (c - 1)"
    by (intro word_le_unat [THEN iffD1] word_and_le1)
  moreover have "unat (c - 1) < unat c"
    using assms by (metis measure_unat unat_gt_0)
  ultimately show ?thesis by simp
qed

lemma uring_probe_less:
  "0 < unat cap \<Longrightarrow> unat h < unat cap \<Longrightarrow> unat (uring_probe T cap fd h n) < unat cap"
  by (induction n arbitrary: h) (auto simp: and_less_cap)

lemma uring_slot_less: "uring_tags u \<Longrightarrow> uring_slot u fd < unat (r_cap u)"
  unfolding uring_slot_def uring_hash_def
  by (intro uring_probe_less and_less_cap) (simp_all add: uring_tags_def)

lemma drain_cqe_tags:
  assumes "uring_tags p" and "drain_cqe K cap e (p, out, f, w) = (p', out', f', w')"
  shows "uring_tags p'" and "next_seq p' = next_seq p" and "r_cap p' = r_cap p"
  using assms uring_tags_free [OF assms(1)] uring_tags_fire [OF assms(1)]
    uring_tags_cong [OF assms(1), of "p\<lparr>timeout_armed := False\<rparr>"]
    uring_tags_cong [OF assms(1), of "p\<lparr>wake_armed := False\<rparr>"]
  by (auto simp: drain_cqe_def split: if_splits option.splits prod.splits)

lemma drain_fold_tags:
  "uring_tags p \<Longrightarrow> fold (drain_cqe K cap) cs (p, out, f, w) = (p', out', f', w') \<Longrightarrow> uring_tags p'"
proof (induction cs arbitrary: p out f w)
  case (Cons e cs)
  obtain p1 out1 f1 w1 where s: "drain_cqe K cap e (p, out, f, w) = (p1, out1, f1, w1)"
    by (metis prod.exhaust)
  show ?case
    using Cons.IH [OF drain_cqe_tags(1) [OF Cons.prems(1) s]] Cons.prems(2) s by simp
qed simp

lemma uring_drain_tags:
  assumes "uring_tags p" and "uring_drain_cq K p cap w = (n, out, p', w')"
  shows "uring_tags p'"
proof -
  obtain p1 out1 f1 w1 where d: "drain_loop K (unat cap) (shared p) (cqe_head p) (cq_tail (shared p))
      (p, [], (False, False), w) = (p1, out1, f1, w1)"
    by (metis prod.exhaust)
  have "uring_tags p1"
    using drain_fold_tags [OF assms(1) d [unfolded drain_loop_fold]] .
  then show ?thesis
    using assms(2) d by (auto simp: uring_drain_cq_def Let_def intro: uring_tags_cong)
qed

lemma rearm_loop_tags:
  assumes "rearm_loop is p = (rc, p')" and "uring_tags p" and "\<forall>i \<in> set is. i < unat (r_cap p)"
    and "unat (next_seq p) + length is < 18446744073709551614"
  shows "uring_tags p'"
  using assms
proof (induction "is" arbitrary: p)
  case (Cons i "is")
  show ?case
  proof (cases "r_fds p ! i \<ge> 0 \<and> r_seqs p ! i = 0")
    case False
    then show ?thesis using Cons by auto
  next
    case True
    let ?p1 = "p\<lparr>next_seq := next_seq p + 1\<rparr>"
    obtain rc2 p2 where s: "uring_stage_poll_add ?p1 (r_fds p ! i) (mjs_interests_to_poll (r_int p ! i)) (next_seq p) = (rc2, p2)"
      by (metis prod.exhaust)
    have rest: "same_rest ?p1 p2" using s uring_stage_rest unfolding stage_eqs by blast
    note f = same_rest_fields [OF rest]
    have room: "unat (next_seq p) < 18446744073709551613" using Cons.prems(4) by simp
    have inc: "unat (next_seq p + 1) = unat (next_seq p) + 1"
      using room by (intro unat_inc64) (auto simp: unat_max64)
    have i: "i < unat (r_cap p)" using Cons.prems(3) by simp
    have t1: "uring_tags p2"
      using same_rest_tags [OF rest uring_tags_skip [OF Cons.prems(2) room]] .
    have t2: "uring_tags (p2\<lparr>r_seqs := (r_seqs p2)[i := next_seq p]\<rparr>)"
      using uring_tags_arm [OF Cons.prems(2) room i, of "r_fds p ! i"]
      by (rule uring_tags_cong) (simp_all add: f)
    show ?thesis
    proof (cases "rc2 = 0")
      case True2: True
      then have "rearm_loop is (p2\<lparr>r_seqs := (r_seqs p2)[i := next_seq p]\<rparr>) = (rc, p')"
        using Cons.prems(1) True s by (simp add: uring_next_seq_def)
      then show ?thesis
        by (rule Cons.IH) (use t2 f inc Cons.prems(3,4) in auto)
    next
      case False
      then show ?thesis using Cons.prems(1) True s t1 by (simp add: uring_next_seq_def)
    qed
  qed
qed simp

text \<open>The replacement of a descriptor's own slot: a removal and an addition in one submission.\<close>

lemma register_replaces:
  assumes reg: "mjs_iouring_register K (Some p) fd interests token w = (rc, Some p', w')"
    and i_def: "i = uring_slot p fd" and p1_def: "p1 = p\<lparr>next_seq := next_seq p + 1\<rparr>"
    and ok: "\<not> (mjs_check_interests interests \<noteq> 0 \<or> fd < 0 \<or> r_count p \<ge> r_cap p)" and hit: "r_fds p ! i = fd"
  obtains (part) "same_rest p1 p'" "rc \<noteq> 0"
    | (armed) "rc = 0" "r_fds p' = (r_fds p)[i := fd]" "r_seqs p' = (r_seqs p)[i := next_seq p]"
      "r_cap p' = r_cap p" "next_seq p' = next_seq p + 1"
proof -
  note r = reg [unfolded mjs_iouring_register_def uring_next_seq_def option.case Let_def prod.case,
      folded p1_def i_def]
  obtain rc2 p2 where s2: "uring_stage_poll_remove p1 (r_seqs p1 ! i) = (rc2, p2)" by fastforce
  obtain rc3 p3 where s3: "uring_stage_poll_add p2 fd (mjs_interests_to_poll interests) (next_seq p) = (rc3, p3)"
    by fastforce
  obtain rc4 p4 w4 where s4: "uring_submit K p3 0 0 w = (rc4, p4, w4)" by (metis prod.exhaust)
  note s12 = uring_stage_rest [OF s2 [unfolded stage_eqs]]
  note s13 = same_rest_trans [OF s12 uring_stage_rest [OF s3 [unfolded stage_eqs]]]
  note s14 = same_rest_trans [OF s13 uring_submit_rest [OF s4]]
  note f = same_rest_fields [OF s14]
  have upd: "(r_fds p)[i := fd] = r_fds p" using hit by (metis list_update_id)
  have p1: "r_fds p1 = r_fds p" "r_seqs p1 = r_seqs p" "r_cap p1 = r_cap p" "next_seq p1 = next_seq p + 1"
    by (simp_all add: p1_def)
  note r' = r [unfolded s2 s3 s4 p1(1,2) prod.case, simplified ok hit s2 [unfolded p1(2)] s3 s4 prod.case, simplified]
  consider "rc2 \<noteq> 0" | "rc2 = 0" "rc3 \<noteq> 0" | "rc2 = 0" "rc3 = 0" "rc4 < 0" | "rc2 = 0" "rc3 = 0" "\<not> rc4 < 0"
    by blast
  then show ?thesis
  proof cases
    case 1
    then have "rc = rc2" "p' = p2" using r' ok by auto
    then show ?thesis using that(1) 1 s12 by simp
  next
    case 2
    then have "rc = rc3" "p' = p3" using r' ok by auto
    then show ?thesis using that(1) 2 s13 by simp
  next
    case 3
    then have "rc = rc4" "p' = p4" using r' ok by auto
    then show ?thesis using that(1) 3 s14 by simp
  next
    case 4
    then have "rc = 0" "p' = p4\<lparr>r_seqs := (r_seqs p4)[i := next_seq p], r_tok := (r_tok p4)[i := token],
        r_int := (r_int p4)[i := interests]\<rparr>" using r' ok by auto
    then show ?thesis using that(2) f upd p1 by simp
  qed
qed

text \<open>
  How a registration ends: refused with nothing changed, failed with only the rings and the tag
  counter moved, or successful with the slot armed under the fresh tag.
\<close>

lemma register_cases:
  assumes reg: "mjs_iouring_register K (Some p) fd interests token w = (rc, Some p', w')"
    and i_def: "i = uring_slot p fd" and p1_def: "p1 = p\<lparr>next_seq := next_seq p + 1\<rparr>"
  obtains (refused) "p' = p" "rc \<noteq> 0" | (part) "same_rest p1 p'" "rc \<noteq> 0"
    | (armed) "rc = 0" "r_fds p' = (r_fds p)[i := fd]" "r_seqs p' = (r_seqs p)[i := next_seq p]"
      "r_cap p' = r_cap p" "next_seq p' = next_seq p + 1"
proof -
  note r = reg [unfolded mjs_iouring_register_def uring_next_seq_def option.case Let_def prod.case,
      folded p1_def i_def]
  show thesis
  proof (cases "mjs_check_interests interests \<noteq> 0 \<or> fd < 0 \<or> r_count p \<ge> r_cap p")
    case True
    then show ?thesis using r that(1) by (auto split: if_splits)
  next
    case ok: False
    show ?thesis
    proof (cases "r_fds p ! i = fd")
      case True
      show ?thesis by (rule register_replaces [OF reg i_def p1_def ok True]) (use that(2,3) in blast)+
    next
      case False
      obtain rc2 p2 w2 where s2: "uring_submit_poll_add K p1 fd (mjs_interests_to_poll interests) (next_seq p) w = (rc2, p2, w2)"
        by (metis prod.exhaust)
      note rest = uring_submit_poll_add_rest [OF s2]
      note f = same_rest_fields [OF rest]
      have p1: "r_fds p1 = r_fds p" "r_seqs p1 = r_seqs p" "r_cap p1 = r_cap p" "next_seq p1 = next_seq p + 1"
        by (simp_all add: p1_def)
      note r' = r [unfolded p1(1), simplified ok False s2, simplified]
      show ?thesis
      proof (cases "rc2 = 0")
        case True
        then have "rc = 0" "p' = p2\<lparr>r_fds := (r_fds p2)[i := fd], r_seqs := (r_seqs p2)[i := next_seq p],
            r_tok := (r_tok p2)[i := token], r_int := (r_int p2)[i := interests], r_count := r_count p2 + 1\<rparr>"
          using r' ok by auto
        then show ?thesis using that(3) f p1 by simp
      next
        case nz: False
        then have "rc = rc2" "p' = p2" using r' ok by auto
        then show ?thesis using that(2) nz rest by simp
      qed
    qed
  qed
qed

lemma register_tags:
  assumes reg: "mjs_iouring_register K (Some p) fd interests token w = (rc, Some p', w')"
    and tags: "uring_tags p" and room: "unat (next_seq p) < 18446744073709551613"
  shows "uring_tags p'"
    and "rc = 0 \<Longrightarrow> r_fds p' ! uring_slot p fd = fd \<and> r_seqs p' ! uring_slot p fd = next_seq p \<and>
      r_fds p' = (r_fds p)[uring_slot p fd := fd] \<and> r_seqs p' = (r_seqs p)[uring_slot p fd := next_seq p] \<and>
      r_cap p' = r_cap p"
proof -
  define i where "i = uring_slot p fd"
  have i: "i < unat (r_cap p)" using uring_slot_less [OF tags] by (simp add: i_def)
  have len: "length (r_fds p) = unat (r_cap p)" "length (r_seqs p) = unat (r_cap p)"
    using tags by (simp_all add: uring_tags_def)
  have keep: "uring_tags q" if "same_rest (p\<lparr>next_seq := next_seq p + 1\<rparr>) q" for q
    using same_rest_tags [OF that uring_tags_skip [OF tags room]] .
  have arm: "uring_tags q" if "r_fds q = (r_fds p)[i := fd]" "r_seqs q = (r_seqs p)[i := next_seq p]"
    "r_cap q = r_cap p" "next_seq q = next_seq p + 1" for q
    using uring_tags_arm [OF tags room i, of fd] by (rule uring_tags_cong) (simp_all add: that)
  show "uring_tags p'" and "rc = 0 \<Longrightarrow> r_fds p' ! uring_slot p fd = fd \<and>
      r_seqs p' ! uring_slot p fd = next_seq p \<and> r_fds p' = (r_fds p)[uring_slot p fd := fd] \<and>
      r_seqs p' = (r_seqs p)[uring_slot p fd := next_seq p] \<and> r_cap p' = r_cap p"
    by (cases rule: register_cases [OF reg i_def refl]; use tags keep arm i len in \<open>simp add: i_def\<close>)+
qed

lemma unregister_tags:
  assumes un: "mjs_iouring_unregister K (Some p) fd w = (rc, Some p', w')" and tags: "uring_tags p"
  shows "uring_tags p'"
proof -
  define i where "i = uring_slot p fd"
  obtain rc2 p2 where s2: "uring_stage_poll_remove p (r_seqs p ! i) = (rc2, p2)" by fastforce
  obtain rc3 p3 w3 where s3: "uring_submit K p2 0 0 w = (rc3, p3, w3)" by (metis prod.exhaust)
  note s12 = uring_stage_rest [OF s2 [unfolded stage_eqs]]
  note s13 = same_rest_trans [OF s12 uring_submit_rest [OF s3]]
  note r = un [unfolded mjs_iouring_unregister_def option.case Let_def, folded i_def,
      unfolded s2 prod.case s3]
  consider "fd < 0 \<or> r_fds p ! i \<noteq> fd" | "\<not> fd < 0" "r_fds p ! i = fd" "rc2 \<noteq> 0"
    | "\<not> fd < 0" "r_fds p ! i = fd" "rc2 = 0" "rc3 < 0" | "\<not> fd < 0" "r_fds p ! i = fd" "rc2 = 0" "\<not> rc3 < 0"
    by blast
  then show ?thesis
  proof cases
    case 1
    then have "p' = p" using r by (simp split: if_splits)
    then show ?thesis using tags by simp
  next
    case 2
    then have "p' = p2" using r by simp
    then show ?thesis using same_rest_tags [OF s12 tags] by simp
  next
    case 3
    then have "p' = p3" using r by simp
    then show ?thesis using same_rest_tags [OF s13 tags] by simp
  next
    case 4
    then have "p' = p3\<lparr>r_fds := (r_fds p3)[i := - 1], r_count := r_count p3 - 1\<rparr>" using r by simp
    then show ?thesis using uring_tags_free [OF same_rest_tags [OF s13 tags], of "r_count p3 - 1" i] by simp
  qed
qed

lemma unregister_frees:
  assumes un: "mjs_iouring_unregister K (Some p) fd w = (0, Some p', w')"
    and fd: "0 \<le> fd" "r_fds p ! uring_slot p fd = fd" and ok: "uring_tags p"
  shows "r_fds p' = (r_fds p)[uring_slot p fd := - 1]" and "r_seqs p' = r_seqs p" and "r_cap p' = r_cap p"
proof -
  define i where "i = uring_slot p fd"
  obtain rc2 p2 where s2: "uring_stage_poll_remove p (r_seqs p ! i) = (rc2, p2)" by fastforce
  obtain rc3 p3 w3 where s3: "uring_submit K p2 0 0 w = (rc3, p3, w3)" by (metis prod.exhaust)
  note f = same_rest_fields [OF same_rest_trans [OF uring_stage_rest [OF s2 [unfolded stage_eqs]] uring_submit_rest [OF s3]]]
  note r = un [unfolded mjs_iouring_unregister_def option.case Let_def, folded i_def,
      unfolded s2 prod.case s3]
  have "rc2 = 0" "\<not> rc3 < 0" using r fd unfolding i_def [symmetric] by (auto split: if_splits)
  then have "p' = p3\<lparr>r_fds := (r_fds p3)[i := - 1], r_count := r_count p3 - 1\<rparr>"
    using r fd unfolding i_def [symmetric] by simp
  then show "r_fds p' = (r_fds p)[uring_slot p fd := - 1]" "r_seqs p' = r_seqs p" "r_cap p' = r_cap p"
    by (simp_all add: f i_def)
qed

lemma uring_slot_at_hash:
  assumes "uring_tags p" and "r_fds p ! unat (uring_hash (r_cap p) fd) = - 1"
  shows "uring_slot p fd = unat (uring_hash (r_cap p) fd)"
proof -
  obtain n where "unat (r_cap p) = Suc n" using assms(1) unfolding uring_tags_def by (metis gr0_implies_Suc)
  then show ?thesis using assms(2) by (simp add: uring_slot_def)
qed

lemma rearm_wake_rest: "rearm_wake p = (rc, p') \<Longrightarrow> uring_tags p \<Longrightarrow> uring_tags p'"
proof -
  assume r: "rearm_wake p = (rc, p')" and tags: "uring_tags p"
  obtain rc1 p1 where s: "uring_stage_poll_add p (wake_fd p) 1 MJS_URING_WAKE = (rc1, p1)" by fastforce
  have t1: "uring_tags p1"
    using same_rest_tags [OF uring_stage_rest [OF s [unfolded stage_eqs]] tags] .
  have t2: "uring_tags (p1\<lparr>wake_armed := True\<rparr>)" by (rule uring_tags_cong [OF t1]) simp_all
  note r' = r [unfolded rearm_wake_def s Let_def prod.case]
  show ?thesis
    using r' tags t1 t2 by (cases "wake_armed p"; cases "rc1 = 0") simp_all
qed

lemma arm_timeout_tags: "arm_timeout tmo p = (rc, p') \<Longrightarrow> uring_tags p \<Longrightarrow> uring_tags p'"
proof -
  assume r: "arm_timeout tmo p = (rc, p')" and tags: "uring_tags p"
  obtain rc1 p1 where s1: "uring_stage_timeout_remove p = (rc1, p1)" by fastforce
  have t1: "uring_tags p1"
    using same_rest_tags [OF uring_stage_rest [OF s1 [unfolded stage_eqs]] tags] .
  then have t1': "uring_tags (p1\<lparr>timeout_armed := False\<rparr>)" by (rule uring_tags_cong) simp_all
  have t2: "uring_tags p2" "uring_tags (p2\<lparr>timeout_armed := True\<rparr>)"
    if "uring_stage_timeout q ts = (r, p2)" "uring_tags q" for q ts r p2
  proof -
    show "uring_tags p2"
      using same_rest_tags [OF uring_stage_rest [OF that(1) [unfolded stage_eqs]] that(2)] .
    then show "uring_tags (p2\<lparr>timeout_armed := True\<rparr>)" by (rule uring_tags_cong) simp_all
  qed
  show ?thesis
  proof (cases tmo)
    case None
    then show ?thesis using r tags by (simp add: arm_timeout_def)
  next
    case (Some n)
    define ts where "ts = ns_timespec n"
    obtain rc2 q where q: "(if timeout_armed p then if rc1 \<noteq> 0 then (rc1, p1) else (0, p1\<lparr>timeout_armed := False\<rparr>)
        else (0, p)) = (rc2, q)" by fastforce
    then have tq: "uring_tags q" using tags t1 t1' by (auto split: if_splits)
    obtain rc3 p3 where s3: "uring_stage_timeout q ts = (rc3, p3)" by fastforce
    note r' = r [unfolded arm_timeout_def Some option.case s1 prod.case Let_def q, folded ts_def, unfolded s3 prod.case]
    show ?thesis
      using r' tq t2 [OF s3 tq] by (cases "rc2 = 0"; cases "rc3 = 0") simp_all
  qed
qed

lemma wait_tags:
  assumes w: "mjs_iouring_wait K (Some p) ev cap tmo out_n w = (rc, out, out_n', Some p', w')"
    and tags: "uring_tags p" and room: "unat (next_seq p) + unat (r_cap p) < 18446744073709551614"
  shows "uring_tags p'"
proof -
  obtain rc1 p1 where s1: "rearm_loop [0..<unat (r_cap p)] p = (rc1, p1)" by fastforce
  obtain rc2 p2 where s2: "rearm_wake p1 = (rc2, p2)" by fastforce
  obtain rc3 p3 where s3: "arm_timeout tmo p2 = (rc3, p3)" by fastforce
  obtain rc4 p4 w4 where s4: "uring_submit K p3 1 1 w = (rc4, p4, w4)" by (metis prod.exhaust)
  obtain n o5 p5 w5 where s5: "uring_drain_cq K p4 cap w4 = (n, o5, p5, w5)" by (metis prod.exhaust)
  have t1: "uring_tags p1" using rearm_loop_tags [OF s1 tags] room by simp
  have t2: "uring_tags p2" using rearm_wake_rest [OF s2 t1] .
  have t3: "uring_tags p3" using arm_timeout_tags [OF s3 t2] .
  have t4: "uring_tags p4" using same_rest_tags [OF uring_submit_rest [OF s4] t3] .
  have t5: "uring_tags p5" using uring_drain_tags [OF t4 s5] .
  have "p' \<in> {p, p1, p2, p3, p4, p5}"
    using w s1 s2 s3 s4 s5 by (auto simp: mjs_iouring_wait_def split: if_splits)
  then show ?thesis using tags t1 t2 t3 t4 t5 by auto
qed

section \<open>Properties\<close>

text \<open>
  (C30) What a drain of the completion ring does, for every content of the ring. The loop over the
  wrapping indices ends and consumes every completion; what it does to the table, and what it
  delivers, is the drain of the abstract table, cut off at the size of the caller's array: each
  completion goes to the slot armed with its tag (one of tag 0, which the code stages for removals,
  to the first slot that has fired), a failure frees that slot, anything else fires it and
  is delivered in ring order with the slot's token, descriptor and translated flags while there is
  room; markers and completions without a slot leave no trace; and both heads end at the tail.
  When no completion has tag 0, each armed slot is decided by the first completion of
  its tag alone: it stays armed if there is none, is freed without an event if that failed, and
  otherwise is fired with exactly one hit; slots that are not armed stay as they are.
\<close>
theorem uring_drain_exact:
  assumes "uring_tags p" and "cs = cq_list (shared p) (cqe_head p) (cq_tail (shared p))"
    and "uring_drain_cq K p cap w = (filled, out, p', w')" and "drain_spec cs (slot_states p) = (hits, S')"
  shows "out = take (unat cap) (map (\<lambda>(i, e). slot_event p i e) hits) \<and> filled = int (length out) \<and>
    slot_states p' = S' \<and> r_tok p' = r_tok p \<and> r_cap p' = r_cap p \<and>
    (\<forall>i < unat (r_cap p). r_fds p' ! i = r_fds p ! i \<or> r_fds p' ! i = - 1) \<and>
    cqe_head p' = cq_tail (shared p) \<and> cq_head (shared p') = cq_tail (shared p) \<and>
    ((\<forall>e \<in> set cs. cqe_user_data e \<noteq> 0) \<longrightarrow>
       (\<forall>i < unat (r_cap p). case slot_states p ! i of
          Armed d \<Rightarrow> (case cqes_for d cs of
              [] \<Rightarrow> filter (\<lambda>h. fst h = i) hits = [] \<and> S' ! i = Armed d
            | e # _ \<Rightarrow> filter (\<lambda>h. fst h = i) hits = (if cqe_res e < 0 then [] else [(i, e)]) \<and>
                S' ! i = (if cqe_res e < 0 then Free else Fired))
        | s \<Rightarrow> filter (\<lambda>h. fst h = i) hits = [] \<and> S' ! i = s))"
proof -
  obtain p1 out1 f1 w1 where d: "fold (drain_cqe K (unat cap)) cs (p, [], (False, False), w) = (p1, out1, f1, w1)"
    by (metis prod.exhaust)
  have eq: "filled = int (length out1)" "out = out1"
    "p' = p1\<lparr>cqe_head := cq_tail (shared p), shared := (shared p1)\<lparr>cq_head := cq_tail (shared p)\<rparr>\<rparr>"
    using assms(3) d by (auto simp: uring_drain_cq_def drain_loop_fold Let_def assms(2))
  have st: "slot_states p' = slot_states p1"
    by (simp add: eq slot_states_def)
  have len: "length (r_fds p) = unat (r_cap p)" "length (r_seqs p) = unat (r_cap p)"
    using assms(1) by (simp_all add: uring_tags_def)
  note fold = drain_fold_spec [OF d len, unfolded assms(4)]
  have slots: "case slot_states p ! i of
          Armed d \<Rightarrow> (case cqes_for d cs of
              [] \<Rightarrow> filter (\<lambda>h. fst h = i) hits = [] \<and> S' ! i = Armed d
            | e # _ \<Rightarrow> filter (\<lambda>h. fst h = i) hits = (if cqe_res e < 0 then [] else [(i, e)]) \<and>
                S' ! i = (if cqe_res e < 0 then Free else Fired))
        | s \<Rightarrow> filter (\<lambda>h. fst h = i) hits = [] \<and> S' ! i = s"
    if nz: "\<forall>e \<in> set cs. cqe_user_data e \<noteq> 0" and i: "i < unat (r_cap p)" for i
  proof (cases "slot_states p ! i")
    case (Armed d)
    have dz: "d \<noteq> 0" and uniq: "\<And>j. j < length (slot_states p) \<Longrightarrow> slot_states p ! j = Armed d \<Longrightarrow> j = i"
    proof -
      have a: "0 \<le> r_fds p ! i" "r_seqs p ! i = d" "d \<noteq> 0"
        using Armed i by (auto simp: slot_states_nth split: if_splits)
      then show "d \<noteq> 0" by simp
      fix j assume j: "j < length (slot_states p)" "slot_states p ! j = Armed d"
      then have "0 \<le> r_fds p ! j" "r_seqs p ! j = d" "j < unat (r_cap p)"
        by (auto simp: slot_states_nth split: if_splits)
      with uring_tagsD(2) [OF assms(1) i a(1), of j] a show "j = i" by auto
    qed
    have il: "i < length (slot_states p)" using i by simp
    have "filter (\<lambda>h. fst h = i) hits =
        (case cqes_for d cs of [] \<Rightarrow> [] | e # _ \<Rightarrow> if cqe_res e < 0 then [] else [(i, e)]) \<and>
      S' ! i = (case cqes_for d cs of [] \<Rightarrow> Armed d | e # _ \<Rightarrow> if cqe_res e < 0 then Free else Fired)"
      using drain_spec_armed [OF nz il Armed dz uniq] unfolding assms(4) by simp
    with Armed show ?thesis
      by (cases "cqes_for d cs") simp_all
  qed (use drain_spec_idle [OF nz, of i "slot_states p"] i assms(4) in simp_all)
  show ?thesis
    using fold slots st unfolding eq by simp
qed

text \<open>
  (C32) Tags are never confused. From a well-formed table, every register, unregister and wait,
  successful or not, leaves the tags of the used slots pairwise different and below the counter,
  as long as fewer than 2\^64 - 3 were handed out; a successful register gives its slot the fresh
  tag, so a late completion of the poll it replaced matches no slot.
\<close>
theorem uring_tags_invariant:
  assumes "uring_tags p" and "unat (next_seq p) + unat (r_cap p) < 18446744073709551614"
  shows "(\<forall>rc p' w'. mjs_iouring_register K (Some p) fd interests token w = (rc, Some p', w') \<longrightarrow> uring_tags p' \<and>
      (rc = 0 \<longrightarrow> r_fds p' ! uring_slot p fd = fd \<and> r_seqs p' ! uring_slot p fd = next_seq p \<and>
         (r_fds p ! uring_slot p fd = fd \<and> r_seqs p ! uring_slot p fd \<noteq> 0 \<longrightarrow> 0 \<le> fd \<longrightarrow>
            uring_find p' (r_seqs p ! uring_slot p fd) = None))) \<and>
    (\<forall>rc p' w'. mjs_iouring_unregister K (Some p) fd w = (rc, Some p', w') \<longrightarrow> uring_tags p') \<and>
    (\<forall>ev cap tmo out_n rc out out_n' p' w'.
       mjs_iouring_wait K (Some p) ev cap tmo out_n w = (rc, out, out_n', Some p', w') \<longrightarrow> uring_tags p')"
proof -
  have cap: "0 < unat (r_cap p)" using assms(1) by (simp add: uring_tags_def)
  then have room: "unat (next_seq p) < 18446744073709551613" using assms(2) by linarith
  let ?i = "uring_slot p fd"
  have stale: "uring_find p' (r_seqs p ! ?i) = None"
    if r: "mjs_iouring_register K (Some p) fd interests token w = (0, Some p', w')"
      and f: "r_fds p ! ?i = fd" "r_seqs p ! ?i \<noteq> 0" "0 \<le> fd" for p' w'
  proof (rule ccontr)
    assume "uring_find p' (r_seqs p ! ?i) \<noteq> None"
    then obtain j where "uring_find p' (r_seqs p ! ?i) = Some j" by blast
    note j = uring_find_SomeD [OF this]
    note e = register_tags(2) [OF r assms(1) room, simplified]
    have i: "?i < unat (r_cap p)" by (rule uring_slot_less [OF assms(1)])
    have old: "r_seqs p ! ?i < next_seq p" using uring_tagsD(1) [OF assms(1) i] f by simp
    have "j \<noteq> ?i" using j(3) e old by auto
    moreover from this have "0 \<le> r_fds p ! j" "r_seqs p ! j = r_seqs p ! ?i" "j < unat (r_cap p)"
      using j e by auto
    ultimately show False
      using uring_tagsD(2) [OF assms(1) i, of j] f by simp
  qed
  show ?thesis
  proof (intro conjI allI impI)
    fix rc p' w' assume r: "mjs_iouring_register K (Some p) fd interests token w = (rc, Some p', w')"
    show "uring_tags p'" by (rule register_tags(1) [OF r assms(1) room])
    assume z: "rc = 0"
    note c = register_tags(2) [OF r assms(1) room z]
    show "r_fds p' ! ?i = fd" by (rule conjunct1 [OF c])
    show "r_seqs p' ! ?i = next_seq p" by (rule conjunct1 [OF conjunct2 [OF c]])
    show "uring_find p' (r_seqs p ! ?i) = None"
      if "r_fds p ! ?i = fd \<and> r_seqs p ! ?i \<noteq> 0" "0 \<le> fd"
      using stale r z that by simp
  qed (fact unregister_tags [OF _ assms(1)] wait_tags [OF _ assms])+
qed

text \<open>
  (C33) Freeing a slot breaks the probe chains that pass over it. Let descriptor \<open>b\<close> hash to the
  slot of \<open>a\<close> and have been stored further along. Once \<open>a\<close> is unregistered, unregistering \<open>b\<close>
  reports success and changes nothing: \<open>b\<close> keeps its slot and its tag, so its completions are
  still delivered, and no call can reach it any more.
\<close>
theorem uring_chain_break:
  assumes "uring_tags p" and "0 \<le> a" and "r_fds p ! uring_slot p a = a"
    and "mjs_iouring_unregister K (Some p) a w = (0, Some p', w')"
    and "0 \<le> b" and "unat (uring_hash (r_cap p) b) = uring_slot p a"
    and "j < unat (r_cap p)" and "j \<noteq> uring_slot p a" and "r_fds p ! j = b" and "r_seqs p ! j \<noteq> 0"
  shows "mjs_iouring_unregister K (Some p') b w' = (0, Some p', w') \<and>
    r_fds p' ! j = b \<and> uring_find p' (r_seqs p ! j) = Some j"
proof -
  note f = unregister_frees [OF assms(4,2,3,1)]
  have tags: "uring_tags p'" by (rule unregister_tags [OF assms(4,1)])
  have len: "uring_slot p a < length (r_fds p)"
    using uring_slot_less [OF assms(1)] assms(1) by (simp add: uring_tags_def)
  have gone: "r_fds p' ! uring_slot p a = - 1" using len by (simp add: f(1))
  then have slot: "uring_slot p' b = uring_slot p a"
    using uring_slot_at_hash [OF tags, of b] assms(6) f(3) by simp
  have free: "r_fds p' ! uring_slot p' b \<noteq> b" using gone slot assms(5) by simp
  have stays: "r_fds p' ! j = b" "r_seqs p' ! j = r_seqs p ! j" using assms(8,9) f by simp_all
  have "mjs_iouring_unregister K (Some p') b w' = (0, Some p', w')"
    using free assms(5) by (simp add: mjs_iouring_unregister_def)
  moreover have "uring_find p' (r_seqs p ! j) = Some j"
  proof -
    have "r_seqs p' ! k \<noteq> r_seqs p ! j" if "k < j" "0 \<le> r_fds p' ! k" for k
      using uring_tagsD(2) [OF tags, of j k] that stays assms(5,7,10) f(3) by simp
    then show ?thesis
      using stays assms(5,7) f(3) unfolding uring_find_def find_Some_iff
      by (intro exI [of _ j]) auto
  qed
  ultimately show ?thesis using stays(1) by blast
qed

text \<open>
  Completions of removals hit bystanders. The entries staged to remove a poll or a timeout
  carry the tag 0, which is also the tag of a slot whose poll has just fired. A drain that meets
  the completion of slot \<open>i\<close> and then a failed removal delivers the event and retires \<open>i\<close>,
  a registration nobody removed.
\<close>
theorem uring_removal_hits_bystander:
  assumes "uring_tags p" and "cq_list (shared p) (cqe_head p) (cq_tail (shared p)) = [e0, e1]"
    and "cqe_slot p e0 = Some i" and "0 \<le> cqe_res e0"
    and "cqe_user_data e1 = sqe_user_data (poll_remove_sqe d)" and "cqe_res e1 < 0"
    and "\<forall>j < i. 0 \<le> r_fds p ! j \<longrightarrow> r_seqs p ! j \<noteq> 0" and "0 < unat cap"
    and "uring_drain_cq K p cap w = (filled, out, p', w')"
  shows "out = [event_of p e0] \<and> 0 \<le> r_fds p ! i \<and> r_fds p' ! i = - 1 \<and> r_count p' = r_count p - 1"
proof -
  obtain p1 out1 f1 w1 where s0: "drain_cqe K (unat cap) e0 (p, [], (False, False), w) = (p1, out1, f1, w1)"
    by (metis prod.exhaust)
  obtain p2 out2 f2 w2 where s1: "drain_cqe K (unat cap) e1 (p1, out1, f1, w1) = (p2, out2, f2, w2)"
    by (metis prod.exhaust)
  have len: "length (r_fds p) = unat (r_cap p)" "length (r_seqs p) = unat (r_cap p)"
    using assms(1) by (simp_all add: uring_tags_def)
  note c = drain_cqe_cases [OF s0 len]
  note c0 = c(9) [OF assms(3,4)]
  have cnt: "r_count p1 = r_count p"
    using s0 assms(3,4) by (auto simp: drain_cqe_def cqe_slot_def is_marker_def split: if_splits)
  have i: "i < unat (r_cap p)" "0 \<le> r_fds p ! i"
    using assms(3) uring_find_SomeD [of p "cqe_user_data e0" i] by (auto simp: cqe_slot_def split: if_splits)
  have z: "cqe_user_data e1 = 0" using assms(5) by (simp add: poll_remove_sqe_def zero_sqe_def)
  have find: "uring_find p1 0 = Some i"
    using i c0 c(2) assms(7) len unfolding uring_find_def find_Some_iff by (intro exI [of _ i]) auto
  have s: "cqe_slot p1 e1 = Some i"
    using find z by (simp add: cqe_slot_def is_marker_def MJS_URING_TIMEOUT_def MJS_URING_WAKE_def)
  note c1 = drain_cqe_cases(8) [OF s1 c(5,6) s assms(6)]
  have cnt2: "r_count p2 = r_count p1 - 1"
    using s1 s assms(6) z by (auto simp: drain_cqe_def cqe_slot_def is_marker_def split: if_splits prod.splits)
  have "out = out2" "p' = p2\<lparr>cqe_head := cq_tail (shared p), shared := (shared p2)\<lparr>cq_head := cq_tail (shared p)\<rparr>\<rparr>"
    using assms(9) s0 s1 by (auto simp: uring_drain_cq_def drain_loop_fold assms(2) Let_def)
  then show ?thesis
    using c0 c1 cnt cnt2 i len assms(8) by simp
qed

section \<open>Witnesses\<close>

text \<open>
  A table of sixteen slots in which the descriptors 1 and 17, which hash alike, are stored one
  after the other, and a completion ring with an event of the first and a failed removal, of
  which \<open>n\<close> are published.
\<close>

definition demo_table :: "u32 \<Rightarrow> mjs_uring" where
  "demo_table n = demo_ring\<lparr>
     shared := (shared demo_ring)\<lparr>cq_tail := n,
       cqes := [\<lparr>cqe_user_data = 0x1000, cqe_res = 1\<rparr>, \<lparr>cqe_user_data = 0, cqe_res = - 2\<rparr>]\<rparr>,
     r_fds := [-1, 1, 17, -1, -1, -1, -1, -1, -1, -1, -1, -1, -1, -1, -1, -1],
     r_seqs := [0, 0x1000, 0x1001, 0, 0, 0, 0, 0, 0, 0, 0, 0, 0, 0, 0, 0],
     r_tok := [0, 7, 8, 0, 0, 0, 0, 0, 0, 0, 0, 0, 0, 0, 0, 0],
     r_count := 2, next_seq := 0x1002\<rparr>"

lemma demo_table_tags: "uring_tags (demo_table n)"
proof -
  have c: "unat (r_cap (demo_table n)) = 16" by (simp add: demo_table_def demo_ring_def)
  have "\<forall>i \<in> set [0..<16]. 0 \<le> ([-1, 1, 17, -1, -1, -1, -1, -1, -1, -1, -1, -1, -1, -1, -1, -1] :: int list) ! i \<longrightarrow>
      i = 1 \<or> i = 2" by code_simp
  then have used: "i = 1 \<or> i = 2" if "i < 16" "0 \<le> r_fds (demo_table n) ! i" for i
    using that by (simp add: demo_table_def)
  have len: "length (r_fds (demo_table n)) = 16" "length (r_seqs (demo_table n)) = 16" by (simp_all add: demo_table_def)
  have at: "r_seqs (demo_table n) ! 1 = 0x1000" "r_seqs (demo_table n) ! 2 = 0x1001" "next_seq (demo_table n) = 0x1002"
    by (simp_all add: demo_table_def)
  show ?thesis
    unfolding uring_tags_def c len
  proof (intro conjI allI impI)
    fix i :: nat assume "i < 16" "0 \<le> r_fds (demo_table n) ! i"
    from used [OF this] at show "r_seqs (demo_table n) ! i = 0 \<or>
        MJS_URING_FIRST_SEQ \<le> r_seqs (demo_table n) ! i \<and> r_seqs (demo_table n) ! i < next_seq (demo_table n)"
      by (auto simp: MJS_URING_FIRST_SEQ_def)
  next
    fix i j :: nat assume "i < 16" "j < 16" "i \<noteq> j" "0 \<le> r_fds (demo_table n) ! i" "0 \<le> r_fds (demo_table n) ! j"
    then show "r_seqs (demo_table n) ! i \<noteq> r_seqs (demo_table n) ! j"
      using used [of i] used [of j] at by auto
  qed (simp_all add: at MJS_URING_FIRST_SEQ_def)
qed

lemma demo_table_cq:
  "cq_list (shared (demo_table 1)) (cqe_head (demo_table 1)) (cq_tail (shared (demo_table 1)))
     = [\<lparr>cqe_user_data = 0x1000, cqe_res = 1\<rparr>]"
  "cq_list (shared (demo_table 2)) (cqe_head (demo_table 2)) (cq_tail (shared (demo_table 2)))
     = [\<lparr>cqe_user_data = 0x1000, cqe_res = 1\<rparr>, \<lparr>cqe_user_data = 0, cqe_res = - 2\<rparr>]"
  by (simp_all add: cq_list_simps demo_table_def demo_ring_def)

lemma demo_table_slot: "cqe_slot (demo_table n) \<lparr>cqe_user_data = 0x1000, cqe_res = 1\<rparr> = Some 1"
  by (simp add: cqe_slot_def is_marker_def uring_find_def demo_table_def demo_ring_def
      MJS_URING_TIMEOUT_def MJS_URING_WAKE_def upt_rec)

theorem uring_drain_exact_witness:
  "\<exists>filled out p' w'. uring_drain_cq take_one_kernel (demo_table 1) 4 () = (filled, out, p', w') \<and>
     out = [slot_event (demo_table 1) 1 \<lparr>cqe_user_data = 0x1000, cqe_res = 1\<rparr>] \<and> slot_states p' ! 1 = Fired"
proof -
  let ?e = "\<lparr>cqe_user_data = 0x1000, cqe_res = 1\<rparr>" and ?S = "slot_states (demo_table 1)"
  obtain filled out p' w' where d: "uring_drain_cq take_one_kernel (demo_table 1) 4 () = (filled, out, p', w')"
    by (metis prod.exhaust)
  have s: "drain_spec [?e] ?S = ([(1, ?e)], ?S[1 := Fired])"
    by (simp add: cqe_target_slot demo_table_slot)
  have "length ?S = 16" by (simp add: demo_table_def demo_ring_def)
  then show ?thesis
    using d uring_drain_exact [OF demo_table_tags demo_table_cq(1) [symmetric] d s] by auto
qed

theorem uring_tags_invariant_witness:
  "\<exists>rc p' w'. mjs_iouring_unregister take_one_kernel (Some (demo_table 1)) 1 () = (rc, Some p', w') \<and> uring_tags p'"
proof -
  have room: "unat (next_seq (demo_table 1)) + unat (r_cap (demo_table 1)) < 18446744073709551614"
    by (simp add: demo_table_def demo_ring_def)
  obtain rc q w' where u: "mjs_iouring_unregister take_one_kernel (Some (demo_table 1)) 1 () = (rc, q, w')"
    by (metis prod.exhaust)
  then obtain p' where "q = Some p'"
    by (auto simp: mjs_iouring_unregister_def Let_def split: if_splits prod.splits)
  then show ?thesis
    using u uring_tags_invariant [OF demo_table_tags room, of take_one_kernel 1 0 0 "()"] by blast
qed

lemma demo_table_chain:
  "uring_slot (demo_table 0) 1 = 1" "unat (uring_hash (r_cap (demo_table 0)) 17) = 1"
  by code_simp+

theorem uring_chain_break_witness:
  "\<exists>p'. mjs_iouring_unregister take_one_kernel (Some (demo_table 0)) 1 () = (0, Some p', ()) \<and>
     mjs_iouring_unregister take_one_kernel (Some p') 17 () = (0, Some p', ()) \<and> r_fds p' ! 2 = 17"
proof -
  have "fst (mjs_iouring_unregister take_one_kernel (Some (demo_table 0)) 1 ()) = 0" by code_simp
  moreover obtain rc q w' where u: "mjs_iouring_unregister take_one_kernel (Some (demo_table 0)) 1 () = (rc, q, w')"
    by (metis prod.exhaust)
  moreover from this obtain p' where "q = Some p'"
    by (auto simp: mjs_iouring_unregister_def Let_def split: if_splits prod.splits)
  ultimately have u: "mjs_iouring_unregister take_one_kernel (Some (demo_table 0)) 1 () = (0, Some p', ())" by simp
  have f: "r_fds (demo_table 0) ! 1 = 1" "r_fds (demo_table 0) ! 2 = 17" "r_seqs (demo_table 0) ! 2 \<noteq> 0"
    "unat (r_cap (demo_table 0)) = 16"
    by (simp_all add: demo_table_def demo_ring_def)
  show ?thesis
    using u uring_chain_break [OF demo_table_tags _ _ u, of 17 2] f demo_table_chain by auto
qed

theorem uring_removal_hits_bystander_witness:
  "\<exists>filled out p' w'. uring_drain_cq take_one_kernel (demo_table 2) 4 () = (filled, out, p', w') \<and>
     r_fds (demo_table 2) ! 1 = 1 \<and> r_fds p' ! 1 = - 1"
proof -
  obtain filled out p' w' where d: "uring_drain_cq take_one_kernel (demo_table 2) 4 () = (filled, out, p', w')"
    by (metis prod.exhaust)
  have f: "r_fds (demo_table 2) ! 1 = 1" "r_fds (demo_table 2) ! 0 = - 1" by (simp_all add: demo_table_def)
  show ?thesis
    using d f uring_removal_hits_bystander [OF demo_table_tags demo_table_cq(2) demo_table_slot, of 0 4 take_one_kernel "()" filled out p' w']
    by (auto simp: poll_remove_sqe_def zero_sqe_def less_Suc_eq)
qed

end
