(* ===== verification/Mjs_Context.thy ===== *)
theory Mjs_Context
  imports Mjs_Prelude
begin

text \<open>
  Stackful contexts (native/posix/ms\_context.c, ms\_context\_aarch64.S,
  mjs\_ctx\_call.c). The machine is the callee-saved register file, the context records by
  address and the 64-bit words of stack memory; context records and stacks are disjoint storage.
  A trap instruction ends a run with its immediate, a NULL record with a fault.
\<close>

section \<open>Records and machine\<close>

definition MS_CTX_DEAD :: u64 where "MS_CTX_DEAD = 0"
definition MS_CTX_EMPTY :: u64 where "MS_CTX_EMPTY = 1"
definition MS_CTX_RUNNING :: u64 where "MS_CTX_RUNNING = 2"
definition MS_CTX_SUSPENDED :: u64 where "MS_CTX_SUSPENDED = 3"
definition MS_CTX_FINISHED :: u64 where "MS_CTX_FINISHED = 4"

lemmas ctx_states = MS_CTX_DEAD_def MS_CTX_EMPTY_def MS_CTX_RUNNING_def MS_CTX_SUSPENDED_def MS_CTX_FINISHED_def

record ms_context =
  cx_regs :: "u64 list"
  cx_fps :: "u64 list"
  cx_sp :: u64
  cx_state :: u64
  cx_ret_to :: addr
  cx_finish_cb :: addr
  cx_finish_ud :: u64

definition zero_context :: ms_context where
  "zero_context = \<lparr>cx_regs = replicate 12 0, cx_fps = replicate 8 0, cx_sp = 0, cx_state = 0,
     cx_ret_to = 0, cx_finish_cb = 0, cx_finish_ud = 0\<rparr>"

text \<open>
  The callee-saved registers: \<open>x_regs\<close> is x19 to x30 (the last two the frame pointer and the
  link register, which is where a return goes), \<open>d_regs\<close> is d8 to d15.
\<close>

record cpu =
  x_regs :: "u64 list"
  d_regs :: "u64 list"
  cpu_sp :: u64

record machine =
  cpu_of :: cpu
  ctxs :: "addr \<Rightarrow> ms_context"
  words :: "addr \<Rightarrow> u64"

datatype outcome = Running machine | Brk int | Segv

definition upd_ctx :: "addr \<Rightarrow> (ms_context \<Rightarrow> ms_context) \<Rightarrow> machine \<Rightarrow> machine" where
  "upd_ctx c f m = m\<lparr>ctxs := (ctxs m)(c := f (ctxs m c))\<rparr>"

definition ms_context_size :: size_t where
  "ms_context_size = 12 * 8 + 8 * 8 + 8 + 4 * 8"

definition ms_context_alignment :: size_t where
  "ms_context_alignment = 8"

section \<open>The switch\<close>

definition save_cpu :: "cpu \<Rightarrow> ms_context \<Rightarrow> ms_context" where
  "save_cpu c r = r\<lparr>cx_regs := x_regs c, cx_fps := d_regs c, cx_sp := cpu_sp c\<rparr>"

definition load_cpu :: "ms_context \<Rightarrow> cpu" where
  "load_cpu r = \<lparr>x_regs = cx_regs r, d_regs = cx_fps r, cpu_sp = cx_sp r\<rparr>"

definition ctx_restore :: "addr \<Rightarrow> machine \<Rightarrow> outcome" where
  "ctx_restore c m =
     (if cx_sp (ctxs m c) AND 15 \<noteq> 0 then Brk 0x6b else Running (m\<lparr>cpu_of := load_cpu (ctxs m c)\<rparr>))"

text \<open>
  The lifecycle half of the switch, which both backends share: \<open>save\<close> and \<open>restore\<close> are their
  register halves. With one thread the exclusive store that arms the target succeeds, and a
  spurious failure repeats the same checks on the same values.
\<close>

definition switch_with ::
    "(cpu \<Rightarrow> ms_context \<Rightarrow> ms_context) \<Rightarrow> (addr \<Rightarrow> machine \<Rightarrow> outcome) \<Rightarrow> addr \<Rightarrow> addr \<Rightarrow> machine \<Rightarrow> outcome" where
  "switch_with save restore from to m =
     (if from = 0 then Segv
      else
        let m1 = upd_ctx from (save (cpu_of m)) m
        in if from = to then restore to (upd_ctx to (cx_state_update (\<lambda>_. MS_CTX_SUSPENDED)) m1)
           else if to = 0 then Segv
           else if cx_state (ctxs m1 to) = MS_CTX_DEAD then Brk 0x68
           else if cx_state (ctxs m1 to) = MS_CTX_RUNNING then Brk 0x69
           else if cx_state (ctxs m1 to) = MS_CTX_FINISHED then Brk 0x66
           else
             let m2 = (if cx_state (ctxs m1 from) = MS_CTX_RUNNING
                       then upd_ctx from (cx_state_update (\<lambda>_. MS_CTX_SUSPENDED)) m1 else m1);
                 m3 = upd_ctx to (cx_state_update (\<lambda>_. MS_CTX_RUNNING)) m2;
                 m4 = upd_ctx to (cx_ret_to_update (\<lambda>_. from)) m3
             in if cx_sp (ctxs m4 to) = 0 then Brk 0x68 else restore to m4)"

definition ms_context_switch :: "addr \<Rightarrow> addr \<Rightarrow> machine \<Rightarrow> outcome" where
  "ms_context_switch = switch_with save_cpu ctx_restore"

section \<open>Creating and destroying\<close>

definition mjs__ctx_make_raw :: "u64 \<Rightarrow> addr \<Rightarrow> addr \<Rightarrow> addr \<Rightarrow> u64 \<Rightarrow> machine \<Rightarrow> outcome" where
  "mjs__ctx_make_raw trampoline ctx stack_top entry userdata m =
     (if stack_top AND 15 \<noteq> 0 then Brk 0x64
      else Running (upd_ctx ctx (\<lambda>r.
        \<lparr>cx_regs = [entry, userdata, 0, 0, 0, 0, 0, 0, 0, 0, 0, trampoline],
         cx_fps = replicate 8 0, cx_sp = stack_top - 16, cx_state = MS_CTX_EMPTY,
         cx_ret_to = 0, cx_finish_cb = 0, cx_finish_ud = 0\<rparr>)
        (m\<lparr>words := (words m)(stack_top - 16 := ctx)\<rparr>)))"

text \<open>The portable half of creation; \<open>mk\<close> is the backend's \<open>mjs__ctx_make_raw\<close>.\<close>

definition init_with ::
    "(addr \<Rightarrow> addr \<Rightarrow> addr \<Rightarrow> u64 \<Rightarrow> machine \<Rightarrow> outcome)
      \<Rightarrow> addr \<Rightarrow> addr \<Rightarrow> size_t \<Rightarrow> addr \<Rightarrow> u64 \<Rightarrow> machine \<Rightarrow> int \<times> outcome" where
  "init_with mk ctx stack_low stack_size entry userdata m =
     (if ctx = 0 \<or> stack_low = 0 \<or> entry = 0 then (- EINVAL, Running m)
      else if stack_size = 0 \<or> stack_size AND 15 \<noteq> 0 \<or> stack_low AND 15 \<noteq> 0
        \<or> stack_low > - 1 - stack_size then (- EINVAL, Running m)
      else (0, mk ctx (stack_low + stack_size) entry userdata m))"

definition ms_context_init ::
    "u64 \<Rightarrow> addr \<Rightarrow> addr \<Rightarrow> size_t \<Rightarrow> addr \<Rightarrow> u64 \<Rightarrow> machine \<Rightarrow> int \<times> outcome" where
  "ms_context_init trampoline = init_with (mjs__ctx_make_raw trampoline)"

definition ms_context_capture :: "addr \<Rightarrow> machine \<Rightarrow> outcome" where
  "ms_context_capture ctx m = ms_context_switch ctx ctx m"

definition ms_context_set_finish_hook :: "addr \<Rightarrow> addr \<Rightarrow> u64 \<Rightarrow> machine \<Rightarrow> machine" where
  "ms_context_set_finish_hook ctx hook userdata m =
     (if ctx = 0 then m else upd_ctx ctx (\<lambda>r. r\<lparr>cx_finish_cb := hook, cx_finish_ud := userdata\<rparr>) m)"

definition ms_context_destroy :: "addr \<Rightarrow> machine \<Rightarrow> machine" where
  "ms_context_destroy ctx m = (if ctx = 0 then m else upd_ctx ctx (\<lambda>_. zero_context) m)"

text \<open>
  The exit trampoline, and the dispatch shim. \<open>call fn arg m\<close> is the effect of calling the
  function at \<open>fn\<close>; the calls the trampoline makes are returned with the outcome. \<open>guard\<close> is the
  address of the final trap instruction.
\<close>

type_synonym callee = "addr \<Rightarrow> u64 \<Rightarrow> machine \<Rightarrow> outcome"

definition mjs_ctx_call :: "callee \<Rightarrow> addr \<Rightarrow> u64 \<Rightarrow> machine \<Rightarrow> outcome" where
  "mjs_ctx_call call fn arg m = call fn arg m"

definition set_x :: "nat \<Rightarrow> u64 \<Rightarrow> cpu \<Rightarrow> cpu" where
  "set_x i v c = c\<lparr>x_regs := (x_regs c)[i := v]\<rparr>"

definition set_sp :: "u64 \<Rightarrow> cpu \<Rightarrow> cpu" where
  "set_sp v c = c\<lparr>cpu_sp := v\<rparr>"

definition tramp_exit :: "u64 \<Rightarrow> machine \<Rightarrow> outcome" where
  "tramp_exit guard m =
     (let self = x_regs (cpu_of m) ! 0;
          m1 = upd_ctx self (cx_state_update (\<lambda>_. MS_CTX_FINISHED)) m
      in ms_context_switch self (cx_ret_to (ctxs m1 self)) (m1\<lparr>cpu_of := set_x 11 guard (cpu_of m1)\<rparr>))"

text \<open>The stack on entry, with the self pointer stashed, and the state after \<open>entry\<close> returned.\<close>

definition tramp_enter :: "machine \<Rightarrow> machine" where
  "tramp_enter m =
     (let c = cpu_of m; self = words m (cpu_sp c); sp1 = cpu_sp c - 16
      in m\<lparr>cpu_of := set_sp sp1 c, words := (words m)(sp1 := self)\<rparr>)"

definition tramp_after :: "machine \<Rightarrow> machine" where
  "tramp_after m =
     (let c = cpu_of m; self = words m (cpu_sp c)
      in m\<lparr>cpu_of := set_sp (cpu_sp c + 16) (set_x 0 self c)\<rparr>)"

definition mjs_ctx_trampoline :: "callee \<Rightarrow> u64 \<Rightarrow> machine \<Rightarrow> (addr \<times> u64) list \<times> outcome" where
  "mjs_ctx_trampoline call guard m =
     (let entry = x_regs (cpu_of m) ! 0; userdata = x_regs (cpu_of m) ! 1
      in case call entry userdata (tramp_enter m) of
           Running m2 \<Rightarrow>
             let m3 = tramp_after m2; self = x_regs (cpu_of m3) ! 0;
                 cb = cx_finish_cb (ctxs m3 self); ud = cx_finish_ud (ctxs m3 self)
             in if cb = 0 then ([(entry, userdata)], tramp_exit guard m3)
                else (case call cb ud m3 of
                        Running m4 \<Rightarrow> ([(entry, userdata), (cb, ud)], tramp_exit guard m4)
                      | r \<Rightarrow> ([(entry, userdata), (cb, ud)], r))
         | r \<Rightarrow> ([(entry, userdata)], r))"

section \<open>Sequences of operations\<close>

text \<open>
  What a program does between two points: context operations, and computation that changes the
  registers and the words of stack memory in any way.
\<close>

datatype ctx_op = Switch addr addr | Init addr addr size_t addr u64 | Capture addr
  | Hook addr addr u64 | Destroy addr | Compute cpu "addr \<Rightarrow> u64"

definition ctx_exec :: "u64 \<Rightarrow> ctx_op \<Rightarrow> machine \<Rightarrow> outcome" where
  "ctx_exec trampoline p m =
     (case p of
        Switch a b \<Rightarrow> ms_context_switch a b m
      | Init c l n e u \<Rightarrow> snd (ms_context_init trampoline c l n e u m)
      | Capture c \<Rightarrow> ms_context_capture c m
      | Hook c h u \<Rightarrow> Running (ms_context_set_finish_hook c h u m)
      | Destroy c \<Rightarrow> Running (ms_context_destroy c m)
      | Compute c w \<Rightarrow> Running (m\<lparr>cpu_of := c, words := w\<rparr>))"

fun ctx_run :: "u64 \<Rightarrow> ctx_op list \<Rightarrow> machine \<Rightarrow> outcome" where
  "ctx_run t [] m = Running m"
| "ctx_run t (p # ps) m = (case ctx_exec t p m of Running m' \<Rightarrow> ctx_run t ps m' | r \<Rightarrow> r)"

definition op_ctxs :: "ctx_op \<Rightarrow> addr set" where
  "op_ctxs p = (case p of Switch a b \<Rightarrow> {a, b} | Init c _ _ _ _ \<Rightarrow> {c} | Capture c \<Rightarrow> {c}
     | Hook c _ _ \<Rightarrow> {c} | Destroy c \<Rightarrow> {c} | Compute _ _ \<Rightarrow> {})"

text \<open>
  What the trampoline relies on of the functions it calls, the procedure call standard: they
  return with the callee-saved registers and the stack pointer they were called with, and leave
  their caller's frame alone.
\<close>

definition aapcs_call :: "callee \<Rightarrow> bool" where
  "aapcs_call call \<longleftrightarrow> (\<forall>fn arg m m'. call fn arg m = Running m' \<longrightarrow>
     take 11 (x_regs (cpu_of m')) = take 11 (x_regs (cpu_of m)) \<and> d_regs (cpu_of m') = d_regs (cpu_of m) \<and>
     cpu_sp (cpu_of m') = cpu_sp (cpu_of m) \<and> words m' (cpu_sp (cpu_of m)) = words m (cpu_sp (cpu_of m)))"

definition resumable :: "ms_context \<Rightarrow> bool" where
  "resumable r \<longleftrightarrow> cx_state r \<notin> {MS_CTX_DEAD, MS_CTX_RUNNING, MS_CTX_FINISHED} \<and> cx_sp r \<noteq> 0 \<and> cx_sp r AND 15 = 0"

section \<open>Lemmas\<close>

lemma upd_ctx_simps [simp]:
  "ctxs (upd_ctx c f m) d = (if d = c then f (ctxs m c) else ctxs m d)"
  "cpu_of (upd_ctx c f m) = cpu_of m" "words (upd_ctx c f m) = words m"
  by (simp_all add: upd_ctx_def)

lemma load_save_cpu [simp]:
  "load_cpu (save_cpu c r) = c" "cx_state (save_cpu c r) = cx_state r" "cx_sp (save_cpu c r) = cpu_sp c"
  "cx_ret_to (save_cpu c r) = cx_ret_to r"
  "load_cpu (r\<lparr>cx_state := s\<rparr>) = load_cpu r" "load_cpu (r\<lparr>cx_ret_to := x\<rparr>) = load_cpu r"
  by (simp_all add: load_cpu_def save_cpu_def)

text \<open>
  What the lifecycle half of the switch relies on of a backend: saving leaves the lifecycle fields
  alone and records the stack pointer, and restoring changes registers only and succeeds exactly on
  aligned stack pointers.
\<close>

locale ctx_backend =
  fixes save :: "cpu \<Rightarrow> ms_context \<Rightarrow> ms_context" and restore :: "addr \<Rightarrow> machine \<Rightarrow> outcome"
  assumes save_state: "cx_state (save c r) = cx_state r" and save_ret_to: "cx_ret_to (save c r) = cx_ret_to r"
    and save_sp: "cx_sp (save c r) = cpu_sp c"
    and restore_frame: "restore t m = Running m' \<Longrightarrow> ctxs m' = ctxs m \<and> words m' = words m"
    and restore_aligned: "(\<exists>m'. restore t m = Running m') \<longleftrightarrow> cx_sp (ctxs m t) AND 15 = 0"
    and restore_trap: "cx_sp (ctxs m t) AND 15 \<noteq> 0 \<Longrightarrow> restore t m = Brk 0x6b"
begin

lemma restored:
  assumes "restore t m = Running m'"
  shows "ctxs m' = ctxs m" "words m' = words m" "cx_sp (ctxs m t) AND 15 = 0"
  using restore_frame [OF assms] restore_aligned [of t m] assms by auto

lemma running:
  assumes "switch_with save restore a b m = Running m'" and "a \<noteq> b"
  shows "words m' = words m" and "cx_state (ctxs m' b) = MS_CTX_RUNNING" and "cx_ret_to (ctxs m' b) = a"
    and "cx_state (ctxs m' a) = (if cx_state (ctxs m a) = MS_CTX_RUNNING then MS_CTX_SUSPENDED else cx_state (ctxs m a))"
    and "cx_ret_to (ctxs m' a) = cx_ret_to (ctxs m a)" and "cx_sp (ctxs m' a) = cpu_sp (cpu_of m)"
    and "d \<noteq> a \<Longrightarrow> d \<noteq> b \<Longrightarrow> ctxs m' d = ctxs m d" and "resumable (ctxs m b)" and "a \<noteq> 0" and "b \<noteq> 0"
  using assms
  by (auto simp: switch_with_def Let_def resumable_def save_state save_ret_to save_sp
      dest: restored split: if_splits)

lemma runs:
  assumes "resumable (ctxs m b)" and "a \<noteq> 0" and "b \<noteq> 0" and "a \<noteq> b"
  shows "\<exists>m'. switch_with save restore a b m = Running m'"
  using assms by (auto simp: switch_with_def Let_def resumable_def restore_aligned)

text \<open>A record with a misaligned stack pointer cannot be resumed, whatever its state.\<close>

lemma misaligned:
  assumes "cx_sp (ctxs m b) AND 15 \<noteq> 0" and "a \<noteq> 0" and "b \<noteq> 0" and "a \<noteq> b"
  shows "\<exists>code. switch_with save restore a b m = Brk code"
  using assms by (auto simp: switch_with_def Let_def restore_trap)

lemma capture_misaligned:
  assumes "cpu_sp (cpu_of m) AND 15 \<noteq> 0" and "a \<noteq> 0"
  shows "switch_with save restore a a m = Brk 0x6b"
  using assms by (auto simp: switch_with_def Let_def restore_trap save_sp)

lemma capture_frame:
  assumes "switch_with save restore a a m = Running m'" and "d \<noteq> a"
  shows "ctxs m' d = ctxs m d"
  using assms restored(1) by (auto simp: switch_with_def Let_def split: if_splits)

text \<open>Dead, running and finished records are refused.\<close>

lemma refused:
  assumes "a \<noteq> 0" and "b \<noteq> 0" and "a \<noteq> b"
  shows "cx_state (ctxs m b) = MS_CTX_DEAD \<Longrightarrow> switch_with save restore a b m = Brk 0x68"
    and "cx_state (ctxs m b) = MS_CTX_RUNNING \<Longrightarrow> switch_with save restore a b m = Brk 0x69"
    and "cx_state (ctxs m b) = MS_CTX_FINISHED \<Longrightarrow> switch_with save restore a b m = Brk 0x66"
  using assms by (simp_all add: switch_with_def Let_def ctx_states)

end

interpretation a64: ctx_backend save_cpu ctx_restore
  by unfold_locales (auto simp: ctx_restore_def split: if_splits)

text \<open>The AArch64 switch puts the whole register file back.\<close>

lemma switch_running:
  assumes "ms_context_switch a b m = Running m'" and "a \<noteq> b"
  shows "cpu_of m' = load_cpu (ctxs m b)" and "words m' = words m"
    and "load_cpu (ctxs m' a) = cpu_of m"
    and "cx_state (ctxs m' a) = (if cx_state (ctxs m a) = MS_CTX_RUNNING then MS_CTX_SUSPENDED else cx_state (ctxs m a))"
    and "cx_state (ctxs m' b) = MS_CTX_RUNNING" and "cx_ret_to (ctxs m' b) = a"
    and "d \<noteq> a \<Longrightarrow> d \<noteq> b \<Longrightarrow> ctxs m' d = ctxs m d"
    and "resumable (ctxs m b)" and "a \<noteq> 0" and "b \<noteq> 0" and "cx_sp (ctxs m' a) = cpu_sp (cpu_of m)"
    and "cx_ret_to (ctxs m' a) = cx_ret_to (ctxs m a)"
proof -
  note sw = assms(1) [unfolded ms_context_switch_def]
  show "cpu_of m' = load_cpu (ctxs m b)" "load_cpu (ctxs m' a) = cpu_of m"
    using sw assms(2) by (auto simp: switch_with_def Let_def ctx_restore_def split: if_splits)
qed (rule a64.running [OF assms(1) [unfolded ms_context_switch_def] assms(2)]; assumption)+

lemma switch_runs:
  assumes "resumable (ctxs m b)" and "a \<noteq> 0" and "b \<noteq> 0" and "a \<noteq> b"
  shows "\<exists>m'. ms_context_switch a b m = Running m'"
  using a64.runs [OF assms] by (simp add: ms_context_switch_def)

lemma capture_running:
  "ms_context_capture c m = Running m' \<Longrightarrow> d \<noteq> c \<Longrightarrow> ctxs m' d = ctxs m d"
  by (simp add: ms_context_capture_def ms_context_switch_def a64.capture_frame)

lemma make_running:
  "mjs__ctx_make_raw t c stk e u m = Running m' \<Longrightarrow> d \<noteq> c \<Longrightarrow> ctxs m' d = ctxs m d"
  by (auto simp: mjs__ctx_make_raw_def split: if_splits)

lemma exec_frame:
  assumes "ctx_exec t p m = Running m'" and "a \<notin> op_ctxs p"
  shows "ctxs m' a = ctxs m a"
proof (cases p)
  case (Switch x y)
  then show ?thesis
    using assms switch_running(7) [where a = x and b = y and m = m and m' = m' and d = a] capture_running [of x m m' a]
    by (cases "x = y") (auto simp: ctx_exec_def op_ctxs_def ms_context_capture_def)
next
  case (Init c l n e u)
  then show ?thesis
    using assms make_running [of t c "l + n" e u m m' a]
    by (auto simp: ctx_exec_def op_ctxs_def ms_context_init_def init_with_def split: if_splits)
next
  case (Capture c)
  then show ?thesis using assms capture_running [of c m m' a] by (simp add: ctx_exec_def op_ctxs_def)
qed (use assms in \<open>auto simp: ctx_exec_def op_ctxs_def ms_context_set_finish_hook_def ms_context_destroy_def split: if_splits\<close>)

lemma run_frame:
  "ctx_run t ps m = Running m' \<Longrightarrow> a \<notin> (\<Union>p \<in> set ps. op_ctxs p) \<Longrightarrow> ctxs m' a = ctxs m a"
proof (induction ps arbitrary: m)
  case (Cons p ps)
  then show ?case
    by (auto split: outcome.splits dest: exec_frame)
qed simp

subsection \<open>The first resume\<close>

lemma aligned_sum:
  fixes a b :: u64
  assumes "a AND 15 = 0" and "b AND 15 = 0"
  shows "(a + b) AND 15 = 0" and "(a - 16) AND 15 = 0"
proof -
  have m: "x AND 15 = x mod 16" for x :: u64
    using take_bit_eq_mask [of 4 x] take_bit_eq_mod [of 4 x] by (simp add: mask_eq_exp_minus_1)
  have d: "x AND 15 = 0 \<longleftrightarrow> 16 dvd unat x" for x :: u64
    unfolding m word_eq_unat by (simp add: unat_mod dvd_eq_mod_eq_0)
  have u: "(x :: u64) AND 15 = 0 \<longleftrightarrow> (16::int) dvd uint x" for x
    unfolding d using of_nat_dvd_iff [of 16 "unat x", where 'a = int] by simp
  have "(16::int) dvd 2 ^ 64" by simp
  then have w: "(16::int) dvd x mod 2 ^ 64 \<longleftrightarrow> 16 dvd x" for x
    by (metis dvd_mod_iff)
  show "(a + b) AND 15 = 0"
    using assms unfolding u uint_word_ariths(1) by (simp add: w [simplified])
  show "(a - 16) AND 15 = 0"
    using assms(1) unfolding u uint_word_ariths(2) by (simp add: w [simplified])
qed

text \<open>What the guards of creation leave: an aligned stack top that does not wrap around.\<close>

lemma init_geometry:
  assumes "init_with mk ctx low sz entry ud m = (0, r)"
  shows "r = mk ctx (low + sz) entry ud m" and "ctx \<noteq> 0" and "entry \<noteq> 0"
    and "(low + sz) AND 15 = 0" and "(low + sz - 16) AND 15 = 0" and "low + sz - 16 \<noteq> 0"
    and "unat (low + sz - 16) + 16 = unat low + unat sz" and "unat low \<le> unat (low + sz - 16)"
proof -
  have g: "low \<noteq> 0" "sz \<noteq> 0" "sz AND 15 = 0" "low AND 15 = 0" "low \<le> - 1 - sz"
    and 1: "r = mk ctx (low + sz) entry ud m" "ctx \<noteq> 0" "entry \<noteq> 0"
    using assms by (auto simp: init_with_def split: if_splits)
  have al: "(low + sz) AND 15 = 0" "(low + sz - 16) AND 15 = 0"
    using aligned_sum [OF g(4,3)] aligned_sum(2) [of "low + sz" 0] by simp_all
  have d: "16 dvd unat x" if "x AND 15 = 0" for x :: u64
    using that by (simp add: low4_zero)
  have "unat low \<le> 18446744073709551615 - unat sz"
    using g(5) unat_sub_max [of sz] by (simp add: word_le_unat)
  then have "unat low + unat sz < 18446744073709551616" using unat_le64 [of sz] by linarith
  then have sum: "unat (low + sz) = unat low + unat sz" by (rule unat_add64)
  have ge: "16 \<le> unat low" "16 \<le> unat sz"
    using d [OF g(3)] d [OF g(4)] g(1,2) by (auto simp: unat_gt_0 intro!: dvd_imp_le)
  have sub: "unat (low + sz - 16) = unat low + unat sz - 16"
    using ge sum by (subst unat_sub64) simp_all
  show "r = mk ctx (low + sz) entry ud m" "ctx \<noteq> 0" "entry \<noteq> 0" "(low + sz) AND 15 = 0"
    "(low + sz - 16) AND 15 = 0" "unat (low + sz - 16) + 16 = unat low + unat sz"
    "unat low \<le> unat (low + sz - 16)" "low + sz - 16 \<noteq> 0"
    using 1 al sub ge by (auto simp: word_eq_unat)
qed

lemma init_ok:
  assumes "ms_context_init t ctx low sz entry ud m = (0, r)"
  shows "\<exists>m1. r = Running m1 \<and> resumable (ctxs m1 ctx) \<and> ctx \<noteq> 0 \<and>
    load_cpu (ctxs m1 ctx) = \<lparr>x_regs = [entry, ud, 0, 0, 0, 0, 0, 0, 0, 0, 0, t], d_regs = replicate 8 0,
      cpu_sp = low + sz - 16\<rparr> \<and> words m1 (low + sz - 16) = ctx \<and>
    unat (low + sz - 16) + 16 = unat low + unat sz \<and> unat low \<le> unat (low + sz - 16) \<and>
    cx_finish_cb (ctxs m1 ctx) = 0"
  using init_geometry [OF assms [unfolded ms_context_init_def]]
  by (auto simp: mjs__ctx_make_raw_def resumable_def ctx_states load_cpu_def)

lemma init_accepts:
  assumes "ctx \<noteq> 0" and "entry \<noteq> 0" and "low \<noteq> 0" and "sz \<noteq> 0" and "16 dvd unat low" and "16 dvd unat sz"
    and "unat low + unat sz < 18446744073709551616"
  shows "\<exists>r. ms_context_init t ctx low sz entry ud m = (0, r)"
proof -
  have "\<not> low > - 1 - sz" using assms(7) unat_le64 [of sz] by (simp add: word_less_unat unat_sub_max)
  then show ?thesis using assms by (simp add: ms_context_init_def init_with_def low4_zero)
qed

text \<open>The trampoline, run on the frame that creation prepared.\<close>

lemma trampoline_runs:
  assumes law: "aapcs_call call" and self: "words m (cpu_sp (cpu_of m)) = ctx"
    and len: "length (x_regs (cpu_of m)) = 12"
    and entry: "call (x_regs (cpu_of m) ! 0) (x_regs (cpu_of m) ! 1) (tramp_enter m) = Running m3"
    and h: "h = cx_finish_cb (ctxs m3 ctx)" "hud = cx_finish_ud (ctxs m3 ctx)"
    and hook: "if h = 0 then m4 = tramp_after m3 else call h hud (tramp_after m3) = Running m4"
  shows "mjs_ctx_trampoline call guard m =
      ((x_regs (cpu_of m) ! 0, x_regs (cpu_of m) ! 1) # (if h = 0 then [] else [(h, hud)]), tramp_exit guard m4)"
    and "x_regs (cpu_of m4) ! 0 = ctx"
proof -
  note l = law [unfolded aapcs_call_def, rule_format, OF entry]
  have "take 11 (x_regs (cpu_of m3)) = take 11 (x_regs (cpu_of m))"
    using l by (simp add: tramp_enter_def Let_def set_sp_def)
  from arg_cong [OF this, of length] len have len3: "11 \<le> length (x_regs (cpu_of m3))" by simp
  have "words m3 (cpu_sp (cpu_of m3)) = ctx"
    using l self by (simp add: tramp_enter_def Let_def set_sp_def)
  then have x0: "x_regs (cpu_of (tramp_after m3)) ! 0 = ctx"
    using len3 by (cases "x_regs (cpu_of m3)") (auto simp: tramp_after_def Let_def set_sp_def set_x_def)
  have cx: "ctxs (tramp_after m3) = ctxs m3" by (simp add: tramp_after_def Let_def)
  show "x_regs (cpu_of m4) ! 0 = ctx"
  proof (cases "h = 0")
    case False
    then have "take 11 (x_regs (cpu_of m4)) = take 11 (x_regs (cpu_of (tramp_after m3)))"
      using hook law unfolding aapcs_call_def by (metis (full_types))
    then have "take 11 (x_regs (cpu_of m4)) ! 0 = take 11 (x_regs (cpu_of (tramp_after m3))) ! 0" by simp
    then show ?thesis using x0 by simp
  qed (use hook x0 in simp)
  show "mjs_ctx_trampoline call guard m =
      ((x_regs (cpu_of m) ! 0, x_regs (cpu_of m) ! 1) # (if h = 0 then [] else [(h, hud)]), tramp_exit guard m4)"
    using entry hook x0 by (auto simp: mjs_ctx_trampoline_def Let_def cx h)
qed

lemma tramp_exit_runs:
  assumes "x_regs (cpu_of m) ! 0 = ctx" and "ctx \<noteq> 0" and "r = cx_ret_to (ctxs m ctx)"
    and "r \<noteq> ctx" and "r \<noteq> 0" and "resumable (ctxs m r)"
  shows "\<exists>m'. tramp_exit guard m = Running m' \<and> cpu_of m' = load_cpu (ctxs m r) \<and>
    cx_state (ctxs m' ctx) = MS_CTX_FINISHED \<and> cx_state (ctxs m' r) = MS_CTX_RUNNING"
proof -
  define m1 where "m1 = (upd_ctx ctx (cx_state_update (\<lambda>_. MS_CTX_FINISHED)) m)\<lparr>cpu_of := set_x 11 guard (cpu_of m)\<rparr>"
  have e: "tramp_exit guard m = ms_context_switch ctx r m1"
    using assms(1,3) by (simp add: tramp_exit_def Let_def m1_def)
  have c: "ctxs m1 r = ctxs m r" "cx_state (ctxs m1 ctx) = MS_CTX_FINISHED"
    using assms(4) by (simp_all add: m1_def)
  obtain m' where m': "ms_context_switch ctx r m1 = Running m'"
    using switch_runs [of m1 r ctx] assms c by metis
  note s = switch_running [OF m' assms(4) [symmetric]]
  show ?thesis using e m' s(1,4,5) c by (auto simp: ctx_states)
qed

section \<open>Properties\<close>

text \<open>
  (C7) A suspended context resumes exactly where it left off. If context \<open>a\<close>, running or
  captured, switches to another one with its stack pointer aligned, then, whatever sequence of
  context operations and computation follows, as long as none of them names \<open>a\<close>, a switch to
  \<open>a\<close> from any other context succeeds and puts back every callee-saved register and the stack
  pointer as they were; \<open>a\<close> is running, and the switcher is its return target.
\<close>
theorem ctx_switch_roundtrip:
  assumes "ms_context_switch a b m = Running m1" and "a \<noteq> b"
    and "cx_state (ctxs m a) = MS_CTX_RUNNING \<or> cx_state (ctxs m a) = MS_CTX_SUSPENDED"
    and "cpu_sp (cpu_of m) \<noteq> 0" and "cpu_sp (cpu_of m) AND 15 = 0"
    and "ctx_run t ps m1 = Running m2" and "a \<notin> (\<Union>p \<in> set ps. op_ctxs p)"
    and "x \<noteq> a" and "x \<noteq> 0"
  shows "\<exists>m3. ms_context_switch x a m2 = Running m3 \<and> cpu_of m3 = cpu_of m \<and> words m3 = words m2 \<and>
    cx_state (ctxs m3 a) = MS_CTX_RUNNING \<and> cx_ret_to (ctxs m3 a) = x \<and>
    (cx_state (ctxs m2 x) = MS_CTX_RUNNING \<longrightarrow> cx_state (ctxs m3 x) = MS_CTX_SUSPENDED)"
proof -
  note s = switch_running [OF assms(1,2)]
  have same: "ctxs m2 a = ctxs m1 a" by (rule run_frame [OF assms(6,7)])
  have "resumable (ctxs m2 a)"
    using assms(3-5) s(4,11) by (auto simp: resumable_def same ctx_states)
  then obtain m3 where m3: "ms_context_switch x a m2 = Running m3"
    using switch_runs s(9) assms(8,9) by metis
  note r = switch_running [OF m3 assms(8)]
  show ?thesis
    using m3 r(1,2,4,5,6) s(3) by (auto simp: same)
qed

text \<open>
  (C8) The life of a context, from creation to completion. A successful \<open>ms_context_init\<close> arms
  the record so that the first switch to it always succeeds and returns into the trampoline,
  with a 16-byte aligned stack pointer 16 bytes below the end of the given stack. From there, if
  the entry function and the registered hook return, the trampoline has called the entry
  function with the untouched userdata and then the hook exactly once, and switches to the most
  recent switcher's saved state; the record is FINISHED, and every later switch to it traps.
\<close>
theorem ctx_init_to_finish:
  assumes "ms_context_init t ctx low sz entry ud m = (0, r)" and "main \<noteq> 0" and "main \<noteq> ctx"
    and "aapcs_call call"
  shows "\<exists>m1 m2. r = Running m1 \<and> ms_context_switch main ctx m1 = Running m2 \<and>
    x_regs (cpu_of m2) ! 11 = t \<and> cpu_sp (cpu_of m2) AND 15 = 0 \<and>
    unat low \<le> unat (cpu_sp (cpu_of m2)) \<and> unat (cpu_sp (cpu_of m2)) + 16 = unat low + unat sz \<and>
    (\<forall>m3 m4 h hud tgt. call entry ud (tramp_enter m2) = Running m3 \<longrightarrow>
       h = cx_finish_cb (ctxs m3 ctx) \<longrightarrow> hud = cx_finish_ud (ctxs m3 ctx) \<longrightarrow>
       (if h = 0 then m4 = tramp_after m3 else call h hud (tramp_after m3) = Running m4) \<longrightarrow>
       tgt = cx_ret_to (ctxs m4 ctx) \<longrightarrow> tgt \<noteq> ctx \<longrightarrow> tgt \<noteq> 0 \<longrightarrow> resumable (ctxs m4 tgt) \<longrightarrow>
       (\<exists>m5. mjs_ctx_trampoline call guard m2 = ((entry, ud) # (if h = 0 then [] else [(h, hud)]), Running m5) \<and>
          cpu_of m5 = load_cpu (ctxs m4 tgt) \<and> cx_state (ctxs m5 ctx) = MS_CTX_FINISHED \<and>
          cx_state (ctxs m5 tgt) = MS_CTX_RUNNING \<and>
          (\<forall>x. x \<noteq> 0 \<longrightarrow> x \<noteq> ctx \<longrightarrow> ms_context_switch x ctx m5 = Brk 0x66)))"
proof -
  obtain m1 where r: "r = Running m1" and res: "resumable (ctxs m1 ctx)" and ctx: "ctx \<noteq> 0"
    and cpu: "load_cpu (ctxs m1 ctx) = \<lparr>x_regs = [entry, ud, 0, 0, 0, 0, 0, 0, 0, 0, 0, t],
      d_regs = replicate 8 0, cpu_sp = low + sz - 16\<rparr>"
    and self: "words m1 (low + sz - 16) = ctx"
    and geo: "unat (low + sz - 16) + 16 = unat low + unat sz" "unat low \<le> unat (low + sz - 16)"
    using init_ok [OF assms(1)] by blast
  obtain m2 where m2: "ms_context_switch main ctx m1 = Running m2"
    using switch_runs [OF res assms(2) ctx assms(3)] by blast
  note s = switch_running [OF m2 assms(3)]
  have c2: "x_regs (cpu_of m2) = [entry, ud, 0, 0, 0, 0, 0, 0, 0, 0, 0, t]" "cpu_sp (cpu_of m2) = low + sz - 16"
    using s(1) cpu by simp_all
  have al: "(low + sz - 16) AND 15 = 0"
    using res cpu by (simp add: resumable_def load_cpu_def)
  have fin: "\<exists>m5. mjs_ctx_trampoline call guard m2 = ((entry, ud) # (if h = 0 then [] else [(h, hud)]), Running m5) \<and>
      cpu_of m5 = load_cpu (ctxs m4 tgt) \<and> cx_state (ctxs m5 ctx) = MS_CTX_FINISHED \<and>
      cx_state (ctxs m5 tgt) = MS_CTX_RUNNING \<and>
      (\<forall>x. x \<noteq> 0 \<longrightarrow> x \<noteq> ctx \<longrightarrow> ms_context_switch x ctx m5 = Brk 0x66)"
    if e: "call entry ud (tramp_enter m2) = Running m3"
      and h: "h = cx_finish_cb (ctxs m3 ctx)" "hud = cx_finish_ud (ctxs m3 ctx)"
      and hook: "if h = 0 then m4 = tramp_after m3 else call h hud (tramp_after m3) = Running m4"
      and tgt: "tgt = cx_ret_to (ctxs m4 ctx)" "tgt \<noteq> ctx" "tgt \<noteq> 0" "resumable (ctxs m4 tgt)"
    for m3 m4 h hud tgt
  proof -
    have self2: "words m2 (cpu_sp (cpu_of m2)) = ctx" and len: "length (x_regs (cpu_of m2)) = 12"
      using s(2) self c2 by simp_all
    have e': "call (x_regs (cpu_of m2) ! 0) (x_regs (cpu_of m2) ! 1) (tramp_enter m2) = Running m3"
      using e c2 by simp
    note tr = trampoline_runs [OF assms(4) self2 len e' h hook]
    obtain m5 where m5: "tramp_exit guard m4 = Running m5" "cpu_of m5 = load_cpu (ctxs m4 tgt)"
      "cx_state (ctxs m5 ctx) = MS_CTX_FINISHED" "cx_state (ctxs m5 tgt) = MS_CTX_RUNNING"
      using tramp_exit_runs [OF tr(2) ctx tgt] by blast
    have "ms_context_switch x ctx m5 = Brk 0x66" if "x \<noteq> 0" "x \<noteq> ctx" for x
      using a64.refused(3) [OF that(1) ctx that(2)] m5(3) by (simp add: ms_context_switch_def)
    then show ?thesis using tr(1) m5 c2 by simp
  qed
  show ?thesis
    using r m2 c2 al geo fin by (intro exI [of _ m1] exI [of _ m2]) simp
qed

section \<open>Witnesses\<close>

text \<open>
  A machine with a captured main context at 0x100, a fresh one at 0x200, and an empty callee.
\<close>

definition demo_cpu :: cpu where
  "demo_cpu = \<lparr>x_regs = [1, 2, 3, 4, 5, 6, 7, 8, 9, 10, 11, 12], d_regs = [1, 2, 3, 4, 5, 6, 7, 8], cpu_sp = 0x8000\<rparr>"

definition demo_machine :: machine where
  "demo_machine = \<lparr>cpu_of = demo_cpu,
     ctxs = (\<lambda>_. zero_context)(0x100 := (save_cpu demo_cpu zero_context)\<lparr>cx_state := MS_CTX_SUSPENDED\<rparr>,
       0x200 := zero_context\<lparr>cx_state := MS_CTX_EMPTY, cx_sp := 0x9000\<rparr>),
     words = (\<lambda>_. 0)\<rparr>"

definition idle_callee :: callee where
  "idle_callee fn arg m = Running m"

lemma idle_callee_law: "aapcs_call idle_callee"
  by (simp add: aapcs_call_def idle_callee_def)

theorem ctx_switch_roundtrip_witness:
  "\<exists>m1 m2 m3. ms_context_switch 0x100 0x200 demo_machine = Running m1 \<and>
     ctx_run 0x7000 [Compute (demo_cpu\<lparr>cpu_sp := 0\<rparr>) (\<lambda>_. 5), Destroy 0x300] m1 = Running m2 \<and>
     ms_context_switch 0x200 0x100 m2 = Running m3 \<and> cpu_of m3 = demo_cpu"
proof -
  have "resumable (ctxs demo_machine 0x200)"
    by (simp add: demo_machine_def resumable_def ctx_states zero_context_def)
  then obtain m1 where m1: "ms_context_switch 0x100 0x200 demo_machine = Running m1"
    using switch_runs [of demo_machine "0x200" "0x100"] by auto
  obtain m2 where m2: "ctx_run 0x7000 [Compute (demo_cpu\<lparr>cpu_sp := 0\<rparr>) (\<lambda>_. 5), Destroy 0x300] m1 = Running m2"
    by (simp add: ctx_exec_def)
  have "\<exists>m3. ms_context_switch 0x200 0x100 m2 = Running m3 \<and> cpu_of m3 = cpu_of demo_machine"
    using ctx_switch_roundtrip [OF m1 _ _ _ _ m2, of "0x200"]
    by (auto simp: demo_machine_def demo_cpu_def op_ctxs_def)
  then show ?thesis using m1 m2 by (auto simp: demo_machine_def)
qed

theorem ctx_init_to_finish_witness:
  "\<exists>m1 m2 m5. ms_context_init 0x7000 0x300 0x10000 0x4000 0x5000 42 demo_machine = (0, Running m1) \<and>
     ms_context_switch 0x100 0x300 m1 = Running m2 \<and>
     mjs_ctx_trampoline idle_callee 0x7100 m2 = ([(0x5000, 42)], Running m5) \<and> cpu_of m5 = demo_cpu \<and>
     cx_state (ctxs m5 0x300) = MS_CTX_FINISHED"
proof -
  have i: "\<exists>r. ms_context_init 0x7000 0x300 0x10000 0x4000 0x5000 42 demo_machine = (0, r)"
    by (simp add: ms_context_init_def init_with_def)
  then obtain r where r: "ms_context_init 0x7000 0x300 0x10000 0x4000 0x5000 42 demo_machine = (0, r)" by blast
  obtain m1 where m1: "r = Running m1" using init_ok [OF r] by blast
  then have c1: "cpu_of m1 = demo_cpu" "cx_state (ctxs m1 0x100) = MS_CTX_SUSPENDED"
    "cx_finish_cb (ctxs m1 0x300) = 0"
    using r by (auto simp: ms_context_init_def init_with_def mjs__ctx_make_raw_def demo_machine_def split: if_splits)
  obtain m2 where m2: "ms_context_switch 0x100 0x300 m1 = Running m2"
    and all: "\<forall>m3 m4 h hud tgt. idle_callee 0x5000 42 (tramp_enter m2) = Running m3 \<longrightarrow>
       h = cx_finish_cb (ctxs m3 0x300) \<longrightarrow> hud = cx_finish_ud (ctxs m3 0x300) \<longrightarrow>
       (if h = 0 then m4 = tramp_after m3 else idle_callee h hud (tramp_after m3) = Running m4) \<longrightarrow>
       tgt = cx_ret_to (ctxs m4 0x300) \<longrightarrow> tgt \<noteq> 0x300 \<longrightarrow> tgt \<noteq> 0 \<longrightarrow> resumable (ctxs m4 tgt) \<longrightarrow>
       (\<exists>m5. mjs_ctx_trampoline idle_callee 0x7100 m2 = ((0x5000, 42) # (if h = 0 then [] else [(h, hud)]), Running m5) \<and>
          cpu_of m5 = load_cpu (ctxs m4 tgt) \<and> cx_state (ctxs m5 0x300) = MS_CTX_FINISHED \<and>
          cx_state (ctxs m5 tgt) = MS_CTX_RUNNING \<and>
          (\<forall>x. x \<noteq> 0 \<longrightarrow> x \<noteq> 0x300 \<longrightarrow> ms_context_switch x 0x300 m5 = Brk 0x66))"
    using ctx_init_to_finish [OF r _ _ idle_callee_law, of "0x100" "0x7100"] m1 by auto
  have cx: "ctxs (tramp_enter m2) = ctxs m2" "ctxs (tramp_after (tramp_enter m2)) = ctxs m2"
    by (simp_all add: tramp_enter_def tramp_after_def Let_def)
  note s = switch_running [OF m2, simplified]
  have "cx_finish_cb (ctxs m2 0x300) = 0"
    using m2 c1 by (auto simp: ms_context_switch_def switch_with_def Let_def ctx_restore_def split: if_splits)
  moreover have "resumable (ctxs m2 0x100)"
    using s(4,11) c1 by (simp add: resumable_def ctx_states demo_cpu_def)
  ultimately obtain m5 where "mjs_ctx_trampoline idle_callee 0x7100 m2 = ([(0x5000, 42)], Running m5)"
    "cpu_of m5 = load_cpu (ctxs m2 0x100)" "cx_state (ctxs m5 0x300) = MS_CTX_FINISHED"
    using all [rule_format, of "tramp_enter m2" 0 "cx_finish_ud (ctxs m2 0x300)" "tramp_after (tramp_enter m2)" "0x100"] s(6)
    by (auto simp: idle_callee_def cx)
  then show ?thesis using r m1 m2 s(3) c1 by auto
qed

end
