(* ===== verification/Mjs_ContextX86.thy ===== *)
theory Mjs_ContextX86
  imports Mjs_Context
begin

text \<open>
  The x86-64 backend of the contexts (native/posix/ms\_context\_x86\_64.S). The lifecycle half of
  the switch is that of Mjs\_Context; here are its register half, the creation routine and the
  exit trampoline. \<open>x_regs\<close> is rbx, rbp and r12 to r15, \<open>d_regs\<close> the low halves of xmm6 to
  xmm13, and return addresses are on the stack.
\<close>

section \<open>Definitions\<close>

text \<open>
  The save leaves the upper half of the register slots alone; the restore reads back xmm6 to
  xmm11 only, and its return pops the stack.
\<close>

definition save_x86 :: "cpu \<Rightarrow> ms_context \<Rightarrow> ms_context" where
  "save_x86 c r = r\<lparr>cx_regs := x_regs c @ drop 6 (cx_regs r), cx_fps := d_regs c, cx_sp := cpu_sp c\<rparr>"

definition restore_x86 :: "addr \<Rightarrow> machine \<Rightarrow> outcome" where
  "restore_x86 c m =
     (let r = ctxs m c
      in if cx_sp r AND 15 \<noteq> 0 then Brk 0x6b
         else Running (m\<lparr>cpu_of := \<lparr>x_regs = take 6 (cx_regs r),
                d_regs = take 6 (cx_fps r) @ drop 6 (d_regs (cpu_of m)), cpu_sp = cx_sp r + 8\<rparr>\<rparr>))"

definition ms_context_switch_x86 :: "addr \<Rightarrow> addr \<Rightarrow> machine \<Rightarrow> outcome" where
  "ms_context_switch_x86 = switch_with save_x86 restore_x86"

definition make_raw_x86 :: "u64 \<Rightarrow> addr \<Rightarrow> addr \<Rightarrow> addr \<Rightarrow> u64 \<Rightarrow> machine \<Rightarrow> outcome" where
  "make_raw_x86 trampoline ctx stack_top entry userdata m =
     (if stack_top AND 15 \<noteq> 0 then Brk 0x64
      else Running (upd_ctx ctx (\<lambda>r.
        \<lparr>cx_regs = [entry, 0, userdata, 0, 0, 0] @ drop 6 (cx_regs r), cx_fps = replicate 8 0,
         cx_sp = stack_top - 16, cx_state = MS_CTX_EMPTY, cx_ret_to = 0, cx_finish_cb = 0, cx_finish_ud = 0\<rparr>)
        (m\<lparr>words := (words m)(stack_top - 16 := trampoline, stack_top - 16 + 8 := ctx)\<rparr>)))"

definition ms_context_init_x86 ::
    "u64 \<Rightarrow> addr \<Rightarrow> addr \<Rightarrow> size_t \<Rightarrow> addr \<Rightarrow> u64 \<Rightarrow> machine \<Rightarrow> int \<times> outcome" where
  "ms_context_init_x86 trampoline = init_with (make_raw_x86 trampoline)"

definition push :: "u64 \<Rightarrow> machine \<Rightarrow> machine" where
  "push v m = (let sp = cpu_sp (cpu_of m) - 8
     in m\<lparr>cpu_of := set_sp sp (cpu_of m), words := (words m)(sp := v)\<rparr>)"

text \<open>A call pushes the return address \<open>ra\<close>, which the callee's return pops.\<close>

definition call_x86 :: "callee \<Rightarrow> u64 \<Rightarrow> addr \<Rightarrow> u64 \<Rightarrow> machine \<Rightarrow> outcome" where
  "call_x86 call ra fn arg m =
     (case call fn arg (push ra m) of
        Running m' \<Rightarrow> Running (m'\<lparr>cpu_of := set_sp (cpu_sp (cpu_of m') + 8) (cpu_of m')\<rparr>)
      | r \<Rightarrow> r)"

text \<open>
  The trampoline: push rbp and let rbp point there, call the entry function, read the self
  pointer above the frame into rbx, run the hook, mark the record, and call the switch.
\<close>

definition tramp_enter_x86 :: "machine \<Rightarrow> machine" where
  "tramp_enter_x86 m = (let m1 = push (x_regs (cpu_of m) ! 1) m
     in m1\<lparr>cpu_of := set_x 1 (cpu_sp (cpu_of m1)) (cpu_of m1)\<rparr>)"

definition tramp_after_x86 :: "machine \<Rightarrow> machine" where
  "tramp_after_x86 m = m\<lparr>cpu_of := set_x 0 (words m (x_regs (cpu_of m) ! 1 + 8)) (cpu_of m)\<rparr>"

definition tramp_exit_x86 :: "u64 \<Rightarrow> machine \<Rightarrow> outcome" where
  "tramp_exit_x86 ra m =
     (let self = x_regs (cpu_of m) ! 0;
          m1 = upd_ctx self (cx_state_update (\<lambda>_. MS_CTX_FINISHED)) m
      in ms_context_switch_x86 self (cx_ret_to (ctxs m1 self)) (push ra m1))"

definition trampoline_x86 :: "callee \<Rightarrow> u64 \<Rightarrow> machine \<Rightarrow> (addr \<times> u64) list \<times> outcome" where
  "trampoline_x86 call ra m =
     (let m1 = tramp_enter_x86 m; entry = x_regs (cpu_of m1) ! 0; userdata = x_regs (cpu_of m1) ! 2
      in case call_x86 call ra entry userdata m1 of
           Running m2 \<Rightarrow>
             let m3 = tramp_after_x86 m2; self = x_regs (cpu_of m3) ! 0;
                 cb = cx_finish_cb (ctxs m3 self); ud = cx_finish_ud (ctxs m3 self)
             in if cb = 0 then ([(entry, userdata)], tramp_exit_x86 ra m3)
                else (case call_x86 call ra cb ud m3 of
                        Running m4 \<Rightarrow> ([(entry, userdata), (cb, ud)], tramp_exit_x86 ra m4)
                      | r \<Rightarrow> ([(entry, userdata), (cb, ud)], r))
         | r \<Rightarrow> ([(entry, userdata)], r))"

text \<open>
  The System V calling convention, as far as the trampoline relies on it: a callee returns with
  the callee-saved registers and the stack pointer it was entered with and leaves the caller's
  frame, the two words above the return address, alone.
\<close>

definition sysv_call :: "callee \<Rightarrow> bool" where
  "sysv_call call \<longleftrightarrow> (\<forall>fn arg m m'. call fn arg m = Running m' \<longrightarrow>
     x_regs (cpu_of m') = x_regs (cpu_of m) \<and> cpu_sp (cpu_of m') = cpu_sp (cpu_of m) \<and>
     words m' (cpu_sp (cpu_of m) + 8) = words m (cpu_sp (cpu_of m) + 8) \<and>
     words m' (cpu_sp (cpu_of m) + 16) = words m (cpu_sp (cpu_of m) + 16))"

section \<open>Lemmas\<close>

interpretation x86: ctx_backend save_x86 restore_x86
  by unfold_locales (auto simp: restore_x86_def save_x86_def Let_def split: if_splits)

lemma switch_x86_running:
  assumes "ms_context_switch_x86 a b m = Running m'" and "a \<noteq> b"
  shows "words m' = words m" and "cpu_sp (cpu_of m') = cx_sp (ctxs m b) + 8"
    and "x_regs (cpu_of m') = take 6 (cx_regs (ctxs m b))" and "cx_sp (ctxs m' a) = cpu_sp (cpu_of m)"
    and "cx_ret_to (ctxs m' b) = a" and "cx_finish_cb (ctxs m' b) = cx_finish_cb (ctxs m b)"
proof -
  note sw = assms(1) [unfolded ms_context_switch_x86_def]
  show "words m' = words m" "cx_sp (ctxs m' a) = cpu_sp (cpu_of m)" "cx_ret_to (ctxs m' b) = a"
    by (rule x86.running [OF sw assms(2)])+
  show "cpu_sp (cpu_of m') = cx_sp (ctxs m b) + 8" "x_regs (cpu_of m') = take 6 (cx_regs (ctxs m b))"
    "cx_finish_cb (ctxs m' b) = cx_finish_cb (ctxs m b)"
    using sw assms(2) by (auto simp: switch_with_def restore_x86_def Let_def split: if_splits)
qed

lemma call_x86_law:
  assumes "sysv_call call" and "call_x86 call ra fn arg m = Running m'"
  shows "x_regs (cpu_of m') = x_regs (cpu_of m)" and "cpu_sp (cpu_of m') = cpu_sp (cpu_of m)"
    and "words m' (cpu_sp (cpu_of m)) = words m (cpu_sp (cpu_of m))"
    and "words m' (cpu_sp (cpu_of m) + 8) = words m (cpu_sp (cpu_of m) + 8)"
proof -
  obtain m1 where c: "call fn arg (push ra m) = Running m1"
    and m': "m' = m1\<lparr>cpu_of := set_sp (cpu_sp (cpu_of m1) + 8) (cpu_of m1)\<rparr>"
    using assms(2) by (auto simp: call_x86_def split: outcome.splits)
  note l = assms(1) [unfolded sysv_call_def, rule_format, OF c]
  define sp where "sp = cpu_sp (cpu_of m) - 8"
  have sp: "cpu_sp (cpu_of m) = sp + 8" "cpu_sp (cpu_of (push ra m)) = sp" "words (push ra m) = (words m)(sp := ra)"
    "x_regs (cpu_of (push ra m)) = x_regs (cpu_of m)" "sp + 8 + 8 = sp + 16"
    by (simp_all add: sp_def push_def set_sp_def Let_def)
  show "x_regs (cpu_of m') = x_regs (cpu_of m)" "cpu_sp (cpu_of m') = cpu_sp (cpu_of m)"
    "words m' (cpu_sp (cpu_of m)) = words m (cpu_sp (cpu_of m))"
    "words m' (cpu_sp (cpu_of m) + 8) = words m (cpu_sp (cpu_of m) + 8)"
    using l sp by (simp_all add: m' set_sp_def) (simp add: add.commute)
qed

text \<open>The trampoline on the frame of \<open>make_raw_x86\<close>, up to the final switch.\<close>

lemma trampoline_x86_runs:
  assumes law: "sysv_call call" and sp: "cpu_sp (cpu_of m) = stk - 16 + 8" and self: "words m (stk - 16 + 8) = ctx"
    and regs: "x_regs (cpu_of m) = [entry, 0, ud, 0, 0, 0]"
    and entry: "call_x86 call ra entry ud (tramp_enter_x86 m) = Running m3"
    and h: "h = cx_finish_cb (ctxs m3 ctx)" "hud = cx_finish_ud (ctxs m3 ctx)"
    and hook: "if h = 0 then m4 = tramp_after_x86 m3 else call_x86 call ra h hud (tramp_after_x86 m3) = Running m4"
  shows "trampoline_x86 call ra m = ((entry, ud) # (if h = 0 then [] else [(h, hud)]), tramp_exit_x86 ra m4)"
    and "x_regs (cpu_of m4) ! 0 = ctx" and "cpu_sp (cpu_of (tramp_enter_x86 m)) = stk - 16"
proof -
  have e: "x_regs (cpu_of (tramp_enter_x86 m)) = [entry, stk - 16, ud, 0, 0, 0]"
    and esp: "cpu_sp (cpu_of (tramp_enter_x86 m)) = stk - 16"
    and ew: "words (tramp_enter_x86 m) (stk - 16 + 8) = ctx"
    using sp self regs by (simp_all add: tramp_enter_x86_def push_def set_sp_def set_x_def Let_def)
  note l = call_x86_law [OF law entry]
  have "x_regs (cpu_of m3) = [entry, stk - 16, ud, 0, 0, 0]" using l(1) e by simp
  moreover have "words m3 (stk - 16 + 8) = ctx" using l(4) esp ew by simp
  ultimately have x0: "x_regs (cpu_of (tramp_after_x86 m3)) = [ctx, stk - 16, ud, 0, 0, 0]"
    by (simp add: tramp_after_x86_def set_x_def)
  have cx: "ctxs (tramp_after_x86 m3) = ctxs m3" by (simp add: tramp_after_x86_def)
  show "x_regs (cpu_of m4) ! 0 = ctx"
    using hook call_x86_law(1) [OF law, of ra h hud "tramp_after_x86 m3" m4] x0 by (cases "h = 0") auto
  show "trampoline_x86 call ra m = ((entry, ud) # (if h = 0 then [] else [(h, hud)]), tramp_exit_x86 ra m4)"
    using e entry hook x0 by (auto simp: trampoline_x86_def Let_def cx h)
  show "cpu_sp (cpu_of (tramp_enter_x86 m)) = stk - 16" by (rule esp)
qed

lemma tramp_exit_x86_traps:
  assumes "x_regs (cpu_of m) ! 0 = ctx" and "ctx \<noteq> 0" and "cx_ret_to (ctxs m ctx) = main"
    and "main \<noteq> ctx" and "main \<noteq> 0" and "cx_sp (ctxs m main) AND 15 \<noteq> 0"
  shows "\<exists>code. tramp_exit_x86 ra m = Brk code"
proof -
  define m1 where "m1 = push ra (upd_ctx ctx (cx_state_update (\<lambda>_. MS_CTX_FINISHED)) m)"
  have "ctxs m1 main = ctxs m main" using assms(4) by (simp add: m1_def push_def Let_def)
  then have "\<exists>code. ms_context_switch_x86 ctx main m1 = Brk code"
    using x86.misaligned [of m1 main ctx] assms by (auto simp: ms_context_switch_x86_def)
  then show ?thesis using assms(1,3) by (simp add: tramp_exit_x86_def Let_def m1_def)
qed

section \<open>Properties\<close>

text \<open>
  (C37) The x86-64 backend can start a context but never come back. A function is entered with the
  stack pointer 8 bytes off a 16-byte boundary, that value is what the switch saves, and the
  restore accepts only multiples of 16. So capturing traps at once; a context that \<open>main\<close> has
  created starts as it should, returning into the trampoline with the entry function called on
  an aligned stack; but when the entry function and the hook have returned, the switch back to
  \<open>main\<close> traps.
\<close>
theorem x86_context_never_returns:
  assumes "ms_context_init_x86 t ctx low sz entry ud m = (0, r)" and "main \<noteq> 0" and "main \<noteq> ctx"
    and "sysv_call call" and "cpu_sp (cpu_of m) AND 15 = 8"
  shows "ms_context_switch_x86 main main m = Brk 0x6b \<and>
    (\<exists>m1 m2. r = Running m1 \<and> ms_context_switch_x86 main ctx m1 = Running m2 \<and>
       words m1 (cx_sp (ctxs m1 ctx)) = t \<and> cpu_sp (cpu_of (tramp_enter_x86 m2)) AND 15 = 0 \<and>
       (\<forall>m3 m4 h hud. call_x86 call ra entry ud (tramp_enter_x86 m2) = Running m3 \<longrightarrow>
          h = cx_finish_cb (ctxs m3 ctx) \<longrightarrow> hud = cx_finish_ud (ctxs m3 ctx) \<longrightarrow>
          (if h = 0 then m4 = tramp_after_x86 m3 else call_x86 call ra h hud (tramp_after_x86 m3) = Running m4) \<longrightarrow>
          cx_ret_to (ctxs m4 ctx) = main \<longrightarrow> ctxs m4 main = ctxs m2 main \<longrightarrow>
          (\<exists>code. trampoline_x86 call ra m2 = ((entry, ud) # (if h = 0 then [] else [(h, hud)]), Brk code))))"
proof -
  note g = init_geometry [OF assms(1) [unfolded ms_context_init_x86_def]]
  define stk where "stk = low + sz"
  obtain m1 where r: "r = Running m1" and st: "cx_state (ctxs m1 ctx) = MS_CTX_EMPTY"
    and sp1: "cx_sp (ctxs m1 ctx) = stk - 16" and rg: "take 6 (cx_regs (ctxs m1 ctx)) = [entry, 0, ud, 0, 0, 0]"
    and w: "words m1 (stk - 16) = t" "words m1 (stk - 16 + 8) = ctx" and cpu: "cpu_of m1 = cpu_of m"
    using g(1,4) by (simp add: make_raw_x86_def stk_def)
  have al: "(stk - 16) AND 15 = 0" "stk - 16 \<noteq> 0" using g(5,6) by (simp_all add: stk_def)
  obtain m2 where m2: "ms_context_switch_x86 main ctx m1 = Running m2"
    using x86.runs [OF _ assms(2) g(2) assms(3), of m1] st sp1 al
    by (auto simp: ms_context_switch_x86_def resumable_def ctx_states)
  note s = switch_x86_running [OF m2 assms(3)]
  have f: "cpu_sp (cpu_of m2) = stk - 16 + 8" "words m2 (stk - 16 + 8) = ctx" "x_regs (cpu_of m2) = [entry, 0, ud, 0, 0, 0]"
    using s sp1 w rg by simp_all
  have enter: "cpu_sp (cpu_of (tramp_enter_x86 m2)) = stk - 16"
    using f by (simp add: tramp_enter_x86_def push_def set_sp_def set_x_def Let_def)
  have main: "cx_sp (ctxs m2 main) AND 15 \<noteq> 0" using s(4) cpu assms(5) by simp
  have fin: "\<exists>code. trampoline_x86 call ra m2 = ((entry, ud) # (if h = 0 then [] else [(h, hud)]), Brk code)"
    if e: "call_x86 call ra entry ud (tramp_enter_x86 m2) = Running m3"
      and h: "h = cx_finish_cb (ctxs m3 ctx)" "hud = cx_finish_ud (ctxs m3 ctx)"
      and hook: "if h = 0 then m4 = tramp_after_x86 m3 else call_x86 call ra h hud (tramp_after_x86 m3) = Running m4"
      and ret: "cx_ret_to (ctxs m4 ctx) = main" "ctxs m4 main = ctxs m2 main" for m3 m4 h hud
    using trampoline_x86_runs [OF assms(4) f e h hook]
      tramp_exit_x86_traps [OF _ g(2) ret(1) assms(3,2), of ra] main ret(2) by auto
  have "ms_context_switch_x86 main main m = Brk 0x6b"
    using assms(2,5) by (simp add: ms_context_switch_x86_def x86.capture_misaligned)
  then show ?thesis
    using r m2 w(1) sp1 enter al(1) fin by (intro conjI exI [of _ m1] exI [of _ m2]) simp_all
qed

section \<open>Witnesses\<close>

lemma idle_callee_sysv: "sysv_call idle_callee"
  by (simp add: sysv_call_def idle_callee_def)

text \<open>The machine of Mjs\_Context with six registers, inside a function: its stack pointer is 8 off a boundary.\<close>

definition demo_x86 :: machine where
  "demo_x86 = demo_machine\<lparr>cpu_of := demo_cpu\<lparr>x_regs := [1, 2, 3, 4, 5, 6], cpu_sp := 0x7ff8\<rparr>\<rparr>"

theorem x86_context_never_returns_witness:
  "\<exists>m1 m2 code. ms_context_init_x86 0x7000 0x300 0x10000 0x4000 0x5000 42 demo_x86 = (0, Running m1) \<and>
     ms_context_switch_x86 0x100 0x300 m1 = Running m2 \<and>
     trampoline_x86 idle_callee 0x7100 m2 = ([(0x5000, 42)], Brk code)"
proof -
  obtain r where r: "ms_context_init_x86 0x7000 0x300 0x10000 0x4000 0x5000 42 demo_x86 = (0, r)"
    by (simp add: ms_context_init_x86_def init_with_def)
  have sp: "cpu_sp (cpu_of demo_x86) AND 15 = 8" by (simp add: demo_x86_def)
  obtain m1 m2 where m1: "r = Running m1" and m2: "ms_context_switch_x86 0x100 0x300 m1 = Running m2"
    and all: "\<forall>m3 m4 h hud. call_x86 idle_callee 0x7100 0x5000 42 (tramp_enter_x86 m2) = Running m3 \<longrightarrow>
       h = cx_finish_cb (ctxs m3 0x300) \<longrightarrow> hud = cx_finish_ud (ctxs m3 0x300) \<longrightarrow>
       (if h = 0 then m4 = tramp_after_x86 m3 else call_x86 idle_callee 0x7100 h hud (tramp_after_x86 m3) = Running m4) \<longrightarrow>
       cx_ret_to (ctxs m4 0x300) = 0x100 \<longrightarrow> ctxs m4 0x100 = ctxs m2 0x100 \<longrightarrow>
       (\<exists>code. trampoline_x86 idle_callee 0x7100 m2 = ((0x5000, 42) # (if h = 0 then [] else [(h, hud)]), Brk code))"
    using x86_context_never_returns [OF r _ _ idle_callee_sysv sp, of "0x100" "0x7100"] by auto
  define m3 where "m3 = (push 0x7100 (tramp_enter_x86 m2))\<lparr>cpu_of :=
    set_sp (cpu_sp (cpu_of (push 0x7100 (tramp_enter_x86 m2))) + 8) (cpu_of (push 0x7100 (tramp_enter_x86 m2)))\<rparr>"
  have call: "call_x86 idle_callee 0x7100 0x5000 42 (tramp_enter_x86 m2) = Running m3"
    by (simp add: call_x86_def idle_callee_def m3_def)
  have cx: "ctxs m3 = ctxs m2" "ctxs (tramp_after_x86 m3) = ctxs m2"
    by (simp_all add: m3_def tramp_after_x86_def tramp_enter_x86_def push_def Let_def)
  have "cx_finish_cb (ctxs m1 0x300) = 0"
    using r m1 by (auto simp: ms_context_init_x86_def init_with_def make_raw_x86_def split: if_splits)
  then have "cx_finish_cb (ctxs m2 0x300) = 0"
    using switch_x86_running(6) [OF m2] by simp
  moreover have "cx_ret_to (ctxs m2 0x300) = 0x100"
    using switch_x86_running(5) [OF m2] by simp
  ultimately have "\<exists>code. trampoline_x86 idle_callee 0x7100 m2 = ([(0x5000, 42)], Brk code)"
    using all [rule_format, of m3 0 "cx_finish_ud (ctxs m2 0x300)" "tramp_after_x86 m3"] call by (simp add: cx)
  then show ?thesis using r m1 m2 by auto
qed

end
