(* ===== verification/Mjs_CtxArm.thy ===== *)
theory Mjs_CtxArm
  imports Mjs_ContextX86
begin

text \<open>
  Switching between contexts on several threads: the loop of \<open>ms_context_switch\<close> that validates
  the target, demotes the context it leaves and arms the target, instruction by instruction and
  interleaved; in native/posix/ms\_context\_aarch64.S the target is armed by an exclusive store, in
  native/posix/ms\_context\_x86\_64.S by a locked compare-exchange. The registers and the stack pointer
  are those of Mjs\_Context and Mjs\_ContextX86; here is the state slot of every record, the position
  of every thread, its exclusive reservation and the state it has read.
\<close>

section \<open>Definitions\<close>

text \<open>
  \<open>Arm a b\<close> is the head of the loop in the switch from \<open>a\<close> to \<open>b\<close> (label 4, .Lrecheck); the next
  ones are the load of the state of \<open>a\<close>, its store, the exclusive store or the compare-exchange, and
  the code after it.
\<close>

datatype apc = Run addr | Arm addr addr | Demote addr addr | Susp addr addr | Excl addr addr
  | Won addr addr | Trapped int

record arm =
  thr :: nat
  slot :: "addr \<Rightarrow> u64"
  pcs :: "nat \<Rightarrow> apc"
  resv :: "nat \<Rightarrow> addr option"
  rax :: "nat \<Rightarrow> u64"

datatype backend = AArch64 | X86

text \<open>
  What can happen to a thread: a call of the switch, the end of its entry function (the
  trampoline's switch), one instruction, a lost reservation, or a trap on the stack pointer of the
  record it has armed.
\<close>

datatype aact = Enter addr | Finish addr | Next | Lose | BadSp int

definition goto :: "nat \<Rightarrow> apc \<Rightarrow> arm \<Rightarrow> arm" where
  "goto i p s = s\<lparr>pcs := (pcs s)(i := p)\<rparr>"

text \<open>A store to a state slot ends the reservations that other threads have on it.\<close>

definition put_slot :: "nat \<Rightarrow> addr \<Rightarrow> u64 \<Rightarrow> arm \<Rightarrow> arm" where
  "put_slot i c v s = s\<lparr>slot := (slot s)(c := v),
     resv := (\<lambda>j. if j \<noteq> i \<and> resv s j = Some c then None else resv s j)\<rparr>"

definition ldaxr :: "nat \<Rightarrow> addr \<Rightarrow> arm \<Rightarrow> arm" where
  "ldaxr i c s = s\<lparr>resv := (resv s)(i := Some c)\<rparr>"

definition load_rax :: "nat \<Rightarrow> addr \<Rightarrow> arm \<Rightarrow> arm" where
  "load_rax i c s = s\<lparr>rax := (rax s)(i := slot s c)\<rparr>"

definition clrex :: "nat \<Rightarrow> arm \<Rightarrow> arm" where
  "clrex i s = s\<lparr>resv := (resv s)(i := None)\<rparr>"

fun leaving :: "addr \<Rightarrow> apc \<Rightarrow> bool" where
  "leaving c (Arm a b) = (a = c)"
| "leaving c (Demote a b) = (a = c)"
| "leaving c (Susp a b) = (a = c)"
| "leaving c (Excl a b) = (a = c)"
| "leaving c p = False"

text \<open>
  \<open>ser\<close> is the caller's half of the contract, that operations on one context are serialised: no
  thread takes up a context while another thread is still inside the switch that leaves it. On
  AArch64 a context is taken up when it is validated, since the reservation lasts until it is armed;
  on x86-64 nothing protects it before the compare-exchange.
\<close>

definition blocked :: "bool \<Rightarrow> nat \<Rightarrow> addr \<Rightarrow> arm \<Rightarrow> bool" where
  "blocked ser i b s \<longleftrightarrow> ser \<and> (\<exists>j \<in> {..<thr s}. j \<noteq> i \<and> leaving b (pcs s j))"

fun arm_next :: "bool \<Rightarrow> nat \<Rightarrow> apc \<Rightarrow> arm \<Rightarrow> arm option" where
  "arm_next ser i (Arm a b) s =
     (if slot s b = MS_CTX_DEAD then Some (goto i (Trapped 0x68) (ldaxr i b s))
      else if slot s b = MS_CTX_RUNNING then Some (goto i (Trapped 0x69) (ldaxr i b s))
      else if slot s b = MS_CTX_FINISHED then Some (goto i (Trapped 0x66) (ldaxr i b s))
      else if blocked ser i b s then None
      else Some (goto i (Demote a b) (ldaxr i b s)))"
| "arm_next ser i (Demote a b) s =
     Some (goto i (if slot s a = MS_CTX_RUNNING then Susp a b else Excl a b) s)"
| "arm_next ser i (Susp a b) s = Some (goto i (Excl a b) (put_slot i a MS_CTX_SUSPENDED s))"
| "arm_next ser i (Excl a b) s =
     (if resv s i = Some b then Some (goto i (Won a b) (clrex i (put_slot i b MS_CTX_RUNNING s)))
      else Some (goto i (Arm a b) (clrex i s)))"
| "arm_next ser i (Won a b) s = Some (goto i (Run b) s)"
| "arm_next ser i p s = None"

text \<open>
  The x86-64 loop. The compare-exchange arms the target if its state is still the one that was
  read; otherwise it reads the state and the loop starts again.
\<close>

fun cas_next :: "bool \<Rightarrow> nat \<Rightarrow> apc \<Rightarrow> arm \<Rightarrow> arm option" where
  "cas_next ser i (Arm a b) s =
     (if slot s b = MS_CTX_DEAD then Some (goto i (Trapped 0x68) (load_rax i b s))
      else if slot s b = MS_CTX_RUNNING then Some (goto i (Trapped 0x69) (load_rax i b s))
      else if slot s b = MS_CTX_FINISHED then Some (goto i (Trapped 0x66) (load_rax i b s))
      else Some (goto i (Demote a b) (load_rax i b s)))"
| "cas_next ser i (Demote a b) s =
     Some (goto i (if slot s a = MS_CTX_RUNNING then Susp a b else Excl a b) s)"
| "cas_next ser i (Susp a b) s = Some (goto i (Excl a b) (put_slot i a MS_CTX_SUSPENDED s))"
| "cas_next ser i (Excl a b) s =
     (if slot s b = rax s i
      then if blocked ser i b s then None else Some (goto i (Won a b) (put_slot i b MS_CTX_RUNNING s))
      else Some (goto i (Arm a b) (load_rax i b s)))"
| "cas_next ser i (Won a b) s = Some (goto i (Run b) s)"
| "cas_next ser i p s = None"

definition next_of :: "backend \<Rightarrow> bool \<Rightarrow> nat \<Rightarrow> apc \<Rightarrow> arm \<Rightarrow> arm option" where
  "next_of bk = (case bk of AArch64 \<Rightarrow> arm_next | X86 \<Rightarrow> cas_next)"

definition arm_exec :: "backend \<Rightarrow> bool \<Rightarrow> nat \<Rightarrow> aact \<Rightarrow> arm \<Rightarrow> arm option" where
  "arm_exec bk ser i act s =
     (if thr s \<le> i then None
      else case act of
        Enter b \<Rightarrow> (case pcs s i of Run a \<Rightarrow> if a = b then None else Some (goto i (Arm a b) s) | _ \<Rightarrow> None)
      | Finish b \<Rightarrow> (case pcs s i of
          Run a \<Rightarrow> if a = b then None else Some (goto i (Arm a b) (put_slot i a MS_CTX_FINISHED s)) | _ \<Rightarrow> None)
      | Next \<Rightarrow> next_of bk ser i (pcs s i) s
      | Lose \<Rightarrow> Some (clrex i s)
      | BadSp code \<Rightarrow> (case pcs s i of Won a b \<Rightarrow> Some (goto i (Trapped code) s) | _ \<Rightarrow> None))"

fun arm_run :: "backend \<Rightarrow> bool \<Rightarrow> (nat \<times> aact) list \<Rightarrow> arm \<Rightarrow> arm option" where
  "arm_run bk ser [] s = Some s"
| "arm_run bk ser ((i, act) # ps) s =
     (case arm_exec bk ser i act s of None \<Rightarrow> None | Some s' \<Rightarrow> arm_run bk ser ps s')"

inductive arm_reach :: "backend \<Rightarrow> bool \<Rightarrow> arm \<Rightarrow> arm \<Rightarrow> bool" for bk ser s0 where
  start: "arm_reach bk ser s0 s0"
| step: "arm_reach bk ser s0 s \<Longrightarrow> arm_exec bk ser i act s = Some s' \<Longrightarrow> arm_reach bk ser s0 s'"

text \<open>The context whose code a thread executes, and the one it has validated.\<close>

fun holds :: "apc \<Rightarrow> addr option" where
  "holds (Run a) = Some a"
| "holds (Arm a b) = Some a"
| "holds (Demote a b) = Some a"
| "holds (Susp a b) = Some a"
| "holds (Excl a b) = Some a"
| "holds (Won a b) = Some b"
| "holds (Trapped n) = None"

fun validated :: "apc \<Rightarrow> addr option" where
  "validated (Demote a b) = Some b"
| "validated (Susp a b) = Some b"
| "validated (Excl a b) = Some b"
| "validated p = None"

fun entered :: "apc \<Rightarrow> addr option" where
  "entered (Run a) = Some a"
| "entered (Won a b) = Some b"
| "entered p = None"

definition arm_start :: "arm \<Rightarrow> bool" where
  "arm_start s \<longleftrightarrow> (\<forall>i<thr s. \<exists>c. pcs s i = Run c \<and> slot s c = MS_CTX_RUNNING) \<and>
     inj_on (pcs s) {..<thr s}"

section \<open>Lemmas\<close>

text \<open>
  Owners: no context has two threads, and a thread that has entered a context finds it RUNNING. The
  invariant of the AArch64 loop adds that as long as a thread that validated a context still has its
  reservation, nobody has that context.
\<close>

definition owners_ok :: "arm \<Rightarrow> bool" where
  "owners_ok s \<longleftrightarrow>
     (\<forall>i<thr s. \<forall>j<thr s. \<forall>c. i \<noteq> j \<longrightarrow> holds (pcs s i) = Some c \<longrightarrow> holds (pcs s j) \<noteq> Some c) \<and>
     (\<forall>i<thr s. \<forall>c. entered (pcs s i) = Some c \<longrightarrow> slot s c = MS_CTX_RUNNING)"

definition arm_inv :: "backend \<Rightarrow> arm \<Rightarrow> bool" where
  "arm_inv bk s \<longleftrightarrow> owners_ok s \<and>
     (bk = AArch64 \<longrightarrow> (\<forall>i<thr s. \<forall>j<thr s. \<forall>c. i \<noteq> j \<longrightarrow> validated (pcs s i) = Some c \<longrightarrow>
        resv s i = Some c \<longrightarrow> holds (pcs s j) \<noteq> Some c))"

lemma arm_simps [simp]:
  "thr (goto i p s) = thr s" "slot (goto i p s) = slot s" "resv (goto i p s) = resv s"
  "pcs (goto i p s) = (pcs s)(i := p)"
  "thr (put_slot i c v s) = thr s" "pcs (put_slot i c v s) = pcs s"
  "slot (put_slot i c v s) = (slot s)(c := v)"
  "resv (put_slot i c v s) j = (if j \<noteq> i \<and> resv s j = Some c then None else resv s j)"
  "thr (ldaxr i c s) = thr s" "pcs (ldaxr i c s) = pcs s" "slot (ldaxr i c s) = slot s"
  "resv (ldaxr i c s) = (resv s)(i := Some c)"
  "thr (clrex i s) = thr s" "pcs (clrex i s) = pcs s" "slot (clrex i s) = slot s"
  "resv (clrex i s) = (resv s)(i := None)"
  "thr (load_rax i c s) = thr s" "pcs (load_rax i c s) = pcs s" "slot (load_rax i c s) = slot s"
  "resv (load_rax i c s) = resv s" "rax (load_rax i c s) = (rax s)(i := slot s c)"
  "rax (goto i p s) = rax s" "rax (put_slot i c v s) = rax s" "rax (ldaxr i c s) = rax s" "rax (clrex i s) = rax s"
  "next_of AArch64 = arm_next" "next_of X86 = cas_next"
  by (simp_all add: goto_def put_slot_def ldaxr_def clrex_def load_rax_def next_of_def)

lemma arm_invD:
  assumes "arm_inv bk s"
  shows "i < thr s \<Longrightarrow> j < thr s \<Longrightarrow> i \<noteq> j \<Longrightarrow> holds (pcs s i) = Some c \<Longrightarrow> holds (pcs s j) \<noteq> Some c"
    and "i < thr s \<Longrightarrow> entered (pcs s i) = Some c \<Longrightarrow> slot s c = MS_CTX_RUNNING"
    and "bk = AArch64 \<Longrightarrow> i < thr s \<Longrightarrow> j < thr s \<Longrightarrow> i \<noteq> j \<Longrightarrow> validated (pcs s i) = Some c \<Longrightarrow>
      resv s i = Some c \<Longrightarrow> holds (pcs s j) \<noteq> Some c"
  using assms unfolding arm_inv_def owners_ok_def by blast+

lemma entered_holds: "entered p = Some c \<Longrightarrow> holds p = Some c"
  by (cases p) auto

lemma holds_cases: "holds p = Some c \<Longrightarrow> entered p = Some c \<or> leaving c p"
  by (cases p) auto

text \<open>A context that a thread may take up is nobody else's.\<close>

lemma take_up_free:
  assumes "arm_inv bk s" and "\<not> blocked True i b s" and "slot s b \<noteq> MS_CTX_RUNNING"
    and "j < thr s" and "j \<noteq> i"
  shows "holds (pcs s j) \<noteq> Some b"
proof
  assume "holds (pcs s j) = Some b"
  then consider "entered (pcs s j) = Some b" | "leaving b (pcs s j)" using holds_cases by blast
  then show False
  proof cases
    case 1
    then show ?thesis using arm_invD(2) [OF assms(1,4)] assms(3) by blast
  next
    case 2
    then show ?thesis using assms(2,4,5) by (auto simp: blocked_def)
  qed
qed

text \<open>Moving a thread on: to a position in the same context, and into the context it has armed.\<close>

lemma owners_move:
  assumes inv: "arm_inv bk s" and i: "i < thr s"
    and same: "thr s' = thr s" "pcs s' = (pcs s)(i := p)"
    and h: "holds p = holds (pcs s i) \<or> holds p = None"
    and e: "\<And>c. entered p = Some c \<Longrightarrow> slot s' c = MS_CTX_RUNNING"
    and sl: "\<And>c. slot s' c = slot s c \<or> holds (pcs s i) = Some c"
  shows "owners_ok s'"
  unfolding owners_ok_def same
proof (intro conjI allI impI)
  fix k j c assume k: "k < thr s" and j: "j < thr s" and kj: "k \<noteq> j" and hk: "holds (((pcs s)(i := p)) k) = Some c"
  have "holds (pcs s k) = Some c" using hk h by (cases "k = i") auto
  then have "holds (pcs s j) \<noteq> Some c" by (rule arm_invD(1) [OF inv k j kj])
  then show "holds (((pcs s)(i := p)) j) \<noteq> Some c" using h by (cases "j = i") auto
next
  fix k c assume k: "k < thr s" and ent: "entered (((pcs s)(i := p)) k) = Some c"
  show "slot s' c = MS_CTX_RUNNING"
  proof (cases "k = i")
    case False
    then have "holds (pcs s i) \<noteq> Some c"
      using arm_invD(1) [OF inv k i] entered_holds ent by auto
    then show ?thesis using sl [of c] arm_invD(2) [OF inv k] ent False by auto
  qed (use ent e in simp)
qed

lemma inv_move:
  assumes inv: "arm_inv bk s" and i: "i < thr s"
    and same: "thr s' = thr s" "pcs s' = (pcs s)(i := p)"
    and h: "holds p = holds (pcs s i) \<or> holds p = None"
    and e: "\<And>c. entered p = Some c \<Longrightarrow> slot s' c = MS_CTX_RUNNING"
    and v: "\<And>c j. bk = AArch64 \<Longrightarrow> validated p = Some c \<Longrightarrow> resv s' i = Some c \<Longrightarrow> j < thr s \<Longrightarrow> j \<noteq> i \<Longrightarrow>
      holds (pcs s j) \<noteq> Some c"
    and sl: "\<And>c. slot s' c = slot s c \<or> holds (pcs s i) = Some c"
    and rs: "\<And>j c. j \<noteq> i \<Longrightarrow> resv s' j = Some c \<Longrightarrow> resv s j = Some c"
  shows "arm_inv bk s'"
  unfolding arm_inv_def same
proof (intro conjI allI impI)
  show "owners_ok s'" using inv i same h e sl by (rule owners_move)
next
  fix k j c assume bk: "bk = AArch64" and k: "k < thr s" and j: "j < thr s" and kj: "k \<noteq> j"
    and va: "validated (((pcs s)(i := p)) k) = Some c" and r: "resv s' k = Some c"
  show "holds (((pcs s)(i := p)) j) \<noteq> Some c"
  proof (cases "k = i")
    case True
    then show ?thesis using v bk j kj va r by auto
  next
    case False
    then have "holds (pcs s j) \<noteq> Some c" "holds (pcs s i) \<noteq> Some c"
      using arm_invD(3) [OF inv bk k j kj] arm_invD(3) [OF inv bk k i] va rs r by auto
    then show ?thesis using h by auto
  qed
qed

lemma inv_win:
  assumes inv: "arm_inv bk s" and i: "i < thr s"
    and free: "\<And>j. j < thr s \<Longrightarrow> j \<noteq> i \<Longrightarrow> holds (pcs s j) \<noteq> Some b"
    and same: "thr s' = thr s" "pcs s' = (pcs s)(i := Won a b)" "slot s' = (slot s)(b := MS_CTX_RUNNING)"
    and rs: "\<And>j c. j \<noteq> i \<Longrightarrow> resv s' j = Some c \<Longrightarrow> resv s j = Some c \<and> c \<noteq> b"
  shows "arm_inv bk s'"
  unfolding arm_inv_def owners_ok_def same
proof (intro conjI allI impI, goal_cases)
  case (1 k j c)
  then show ?case using arm_invD(1) [OF inv, of k j c] free by (cases "k = i"; cases "j = i") auto
next
  case (2 k c)
  then show ?case using arm_invD(2) [OF inv, of k c] by (cases "k = i") auto
next
  case (3 k j c)
  then show ?case using arm_invD(3) [OF inv, of k j c] rs [of k c] by (cases "k = i"; cases "j = i") auto
qed

lemma arm_next_inv:
  assumes inv: "arm_inv AArch64 s" and i: "i < thr s" and ex: "arm_next True i (pcs s i) s = Some s'"
  shows "arm_inv AArch64 s'"
proof (cases "pcs s i")
  case (Arm a b)
  show ?thesis
  proof (cases "slot s b \<in> {MS_CTX_DEAD, MS_CTX_RUNNING, MS_CTX_FINISHED}")
    case True
    then obtain code where "s' = goto i (Trapped code) (ldaxr i b s)"
      using ex Arm by (auto simp: ctx_states)
    then show ?thesis by (intro inv_move [OF inv i, where p = "Trapped code"]) auto
  next
    case False
    then have s': "s' = goto i (Demote a b) (ldaxr i b s)" and nb: "\<not> blocked True i b s"
      using ex Arm by (auto split: if_splits)
    show ?thesis
      using take_up_free [OF inv nb] False Arm
      by (intro inv_move [OF inv i, where p = "Demote a b"]) (auto simp: s')
  qed
next
  case (Demote a b)
  then have s': "s' = goto i (if slot s a = MS_CTX_RUNNING then Susp a b else Excl a b) s"
    using ex by simp
  show ?thesis
    using arm_invD(3) [OF inv refl i] Demote
    by (intro inv_move [OF inv i, where p = "if slot s a = MS_CTX_RUNNING then Susp a b else Excl a b"])
      (auto simp: s' split: if_splits)
next
  case (Susp a b)
  then show ?thesis
    using ex arm_invD(3) [OF inv refl i] by (intro inv_move [OF inv i, where p = "Excl a b"]) (auto split: if_splits)
next
  case (Excl a b)
  show ?thesis
  proof (cases "resv s i = Some b")
    case True
    then have "s' = goto i (Won a b) (clrex i (put_slot i b MS_CTX_RUNNING s))" using ex Excl by simp
    then show ?thesis
      using arm_invD(3) [OF inv refl i] Excl True by (intro inv_win [OF inv i, where a = a and b = b]) (auto split: if_splits)
  next
    case False
    then show ?thesis using ex Excl by (auto intro!: inv_move [OF inv i, where p = "Arm a b"])
  qed
next
  case (Won a b)
  then show ?thesis
    using ex arm_invD(2) [OF inv i] by (intro inv_move [OF inv i, where p = "Run b"]) auto
qed (use ex in auto)

text \<open>
  On x86-64 the state a thread has read is one that can be armed, so a compare-exchange that
  succeeds finds a context nobody has entered.
\<close>

definition rax_inv :: "arm \<Rightarrow> bool" where
  "rax_inv s \<longleftrightarrow> (\<forall>i<thr s. validated (pcs s i) \<noteq> None \<longrightarrow> rax s i \<noteq> MS_CTX_RUNNING)"

lemma cas_next_inv:
  assumes inv: "arm_inv X86 s" and rx: "rax_inv s" and i: "i < thr s" and ex: "cas_next True i (pcs s i) s = Some s'"
  shows "arm_inv X86 s'"
proof (cases "pcs s i")
  case (Arm a b)
  then obtain p where s': "s' = goto i p (load_rax i b s)" and p: "p = Demote a b \<or> (\<exists>code. p = Trapped code)"
    using ex by (auto split: if_splits)
  show ?thesis using p Arm by (intro inv_move [OF inv i, where p = p]) (auto simp: s')
next
  case (Demote a b)
  then have "s' = goto i (if slot s a = MS_CTX_RUNNING then Susp a b else Excl a b) s" using ex by simp
  then show ?thesis
    using Demote by (intro inv_move [OF inv i, where p = "if slot s a = MS_CTX_RUNNING then Susp a b else Excl a b"])
      (auto split: if_splits)
next
  case (Susp a b)
  then show ?thesis
    using ex by (intro inv_move [OF inv i, where p = "Excl a b"]) (auto split: if_splits)
next
  case (Excl a b)
  show ?thesis
  proof (cases "slot s b = rax s i")
    case True
    then have s': "s' = goto i (Won a b) (put_slot i b MS_CTX_RUNNING s)" and nb: "\<not> blocked True i b s"
      using ex Excl by (auto split: if_splits)
    have "slot s b \<noteq> MS_CTX_RUNNING" using True rx i Excl by (auto simp: rax_inv_def)
    then show ?thesis
      using take_up_free [OF inv nb] by (intro inv_win [OF inv i, where a = a and b = b]) (auto simp: s' split: if_splits)
  next
    case False
    then show ?thesis using ex Excl by (auto intro!: inv_move [OF inv i, where p = "Arm a b"])
  qed
next
  case (Won a b)
  then show ?thesis
    using ex arm_invD(2) [OF inv i] by (intro inv_move [OF inv i, where p = "Run b"]) auto
qed (use ex in auto)

lemma cas_next_rax: "rax_inv s \<Longrightarrow> cas_next ser i (pcs s i) s = Some s' \<Longrightarrow> rax_inv s'"
  by (cases "pcs s i") (auto simp: rax_inv_def split: if_splits)

text \<open>The other actions, on both processors.\<close>

lemma arm_exec_cases:
  assumes "arm_exec bk ser i act s = Some s'"
  obtains "i < thr s" "act = Next" "next_of bk ser i (pcs s i) s = Some s'"
  | p where "i < thr s" "thr s' = thr s" "pcs s' = (pcs s)(i := p)" "rax s' = rax s"
      "holds p = holds (pcs s i) \<or> holds p = None" "p = pcs s i \<or> entered p = None \<and> validated p = None"
      "\<And>c. slot s' c = slot s c \<or> holds (pcs s i) = Some c \<and> entered (pcs s i) = Some c \<and> p \<noteq> pcs s i"
      "\<And>j c. resv s' j = Some c \<Longrightarrow> resv s j = Some c"
proof (cases act)
  case (Enter b)
  then show ?thesis
    using assms by (intro that(2) [of "Arm (the (holds (pcs s i))) b"]) (auto simp: arm_exec_def split: if_splits apc.splits)
next
  case (Finish b)
  then show ?thesis
    using assms by (intro that(2) [of "Arm (the (holds (pcs s i))) b"]) (auto simp: arm_exec_def split: if_splits apc.splits)
next
  case Next
  then show ?thesis using assms by (intro that(1)) (auto simp: arm_exec_def split: if_splits)
next
  case Lose
  then show ?thesis
    using assms by (intro that(2) [of "pcs s i"]) (auto simp: arm_exec_def split: if_splits)
next
  case (BadSp code)
  then show ?thesis
    using assms by (intro that(2) [of "Trapped code"]) (auto simp: arm_exec_def split: if_splits apc.splits)
qed

lemma arm_exec_inv:
  assumes inv: "arm_inv bk s" and rx: "bk = X86 \<Longrightarrow> rax_inv s" and ex: "arm_exec bk True i act s = Some s'"
  shows "arm_inv bk s'"
  using ex
proof (cases rule: arm_exec_cases)
  case 1
  then show ?thesis
    using inv rx arm_next_inv [of s i s'] cas_next_inv [of s i s'] by (cases bk) simp_all
next
  case m: (2 p)
  have e: "slot s' c = MS_CTX_RUNNING" if "entered p = Some c" for c
    using that m(6) m(7) [of c] arm_invD(2) [OF inv m(1), of c] by auto
  have v: "holds (pcs s j) \<noteq> Some c"
    if "bk = AArch64" "validated p = Some c" "resv s' i = Some c" "j < thr s" "j \<noteq> i" for c j
    using that m(6) m(8) [of i c] arm_invD(3) [OF inv that(1) m(1) that(4), of c] by auto
  show ?thesis
    using m(7,8) by (intro inv_move [OF inv m(1,2,3,5) e v]) auto
qed

lemma arm_exec_rax:
  assumes "rax_inv s" and "arm_exec X86 ser i act s = Some s'"
  shows "rax_inv s'"
  using assms(2)
proof (cases rule: arm_exec_cases)
  case 1
  then show ?thesis using assms(1) by (auto intro: cas_next_rax)
next
  case (2 p)
  then show ?thesis using assms(1) by (auto simp: rax_inv_def)
qed

lemma arm_start_inv: "arm_start s \<Longrightarrow> arm_inv bk s \<and> rax_inv s"
  unfolding arm_inv_def owners_ok_def arm_start_def inj_on_def rax_inv_def
  by (intro conjI allI impI) (metis holds.simps(1) lessThan_iff option.inject, metis entered.simps(1) option.inject,
    metis validated.simps(4) option.distinct(1), metis validated.simps(4))

lemma arm_reach_inv: "arm_reach bk True s0 s \<Longrightarrow> arm_start s0 \<Longrightarrow> arm_inv bk s \<and> (bk = X86 \<longrightarrow> rax_inv s)"
  by (induction rule: arm_reach.induct) (auto simp: arm_start_inv intro: arm_exec_inv arm_exec_rax)

lemma arm_run_reach: "arm_reach bk ser s0 s \<Longrightarrow> arm_run bk ser ps s = Some s' \<Longrightarrow> arm_reach bk ser s0 s'"
proof (induction ps arbitrary: s)
  case (Cons q ps)
  then show ?case by (cases q) (auto split: option.splits dest: arm_reach.step)
qed simp



subsection \<open>A thread that is left alone\<close>

text \<open>
  Undisturbed, the loop ends after at most five instructions, and it has done to the state slots what
  the switches of Mjs\_Context and Mjs\_ContextX86 do to the records.
\<close>

lemma arm_solo:
  assumes "i < thr s" and "pcs s i = Arm a b" and "a \<noteq> b" and "\<not> blocked ser i b s"
    and "slot s b \<notin> {MS_CTX_DEAD, MS_CTX_RUNNING, MS_CTX_FINISHED}"
  shows "\<exists>n \<le> 5. \<exists>s'. arm_run bk ser (replicate n (i, Next)) s = Some s' \<and> pcs s' i = Run b \<and>
    slot s' = (slot s)(a := if slot s a = MS_CTX_RUNNING then MS_CTX_SUSPENDED else slot s a, b := MS_CTX_RUNNING)"
proof -
  have nb: "\<not> blocked ser i b t" if "thr t = thr s" "\<And>j. j \<noteq> i \<Longrightarrow> pcs t j = pcs s j" for t
    using assms(4) that by (auto simp: blocked_def)
  show ?thesis
  proof (cases "slot s a = MS_CTX_RUNNING")
    case True
    have "\<exists>s'. arm_run bk ser (replicate 5 (i, Next)) s = Some s' \<and> pcs s' i = Run b \<and>
      slot s' = (slot s)(a := MS_CTX_SUSPENDED, b := MS_CTX_RUNNING)"
      using assms True by (cases bk) (simp_all add: numeral_eq_Suc arm_exec_def nb)
    then show ?thesis using True by (intro exI [of _ 5]) simp
  next
    case False
    have "\<exists>s'. arm_run bk ser (replicate 4 (i, Next)) s = Some s' \<and> pcs s' i = Run b \<and> slot s' = (slot s)(b := MS_CTX_RUNNING)"
      using assms False by (cases bk) (simp_all add: numeral_eq_Suc arm_exec_def nb)
    then show ?thesis using False by (intro exI [of _ 4]) simp
  qed
qed

context ctx_backend
begin

lemma solo_refines_switch:
  assumes "switch_with save restore a b m = Running m'" and "a \<noteq> b" and "slot s = (\<lambda>c. cx_state (ctxs m c))"
    and "i < thr s" and "pcs s i = Arm a b" and "\<not> blocked ser i b s"
  shows "\<exists>n \<le> 5. \<exists>s'. arm_run bk ser (replicate n (i, Next)) s = Some s' \<and> pcs s' i = Run b \<and>
    slot s' = (\<lambda>c. cx_state (ctxs m' c))"
proof -
  note r = running [OF assms(1,2)]
  have "slot s b \<notin> {MS_CTX_DEAD, MS_CTX_RUNNING, MS_CTX_FINISHED}" using r(8) assms(3) by (simp add: resumable_def)
  from arm_solo [OF assms(4,5,2,6) this] obtain n s' where n: "n \<le> 5"
      "arm_run bk ser (replicate n (i, Next)) s = Some s'" "pcs s' i = Run b"
    and s': "slot s' = (slot s)(a := if slot s a = MS_CTX_RUNNING then MS_CTX_SUSPENDED else slot s a, b := MS_CTX_RUNNING)" by blast
  have "slot s' c = cx_state (ctxs m' c)" for c
    using r(2,4) r(7) [of c] assms(3) by (auto simp: s')
  then show ?thesis using n by blast
qed

end

lemma arm_solo_refines_switch:
  assumes "ms_context_switch a b m = Running m'" and "a \<noteq> b" and "slot s = (\<lambda>c. cx_state (ctxs m c))"
    and "i < thr s" and "pcs s i = Arm a b" and "\<not> blocked ser i b s"
  shows "\<exists>n \<le> 5. \<exists>s'. arm_run AArch64 ser (replicate n (i, Next)) s = Some s' \<and> pcs s' i = Run b \<and>
    slot s' = (\<lambda>c. cx_state (ctxs m' c))"
  using assms by (auto simp: ms_context_switch_def intro: a64.solo_refines_switch)

lemma cas_solo_refines_switch:
  assumes "ms_context_switch_x86 a b m = Running m'" and "a \<noteq> b" and "slot s = (\<lambda>c. cx_state (ctxs m c))"
    and "i < thr s" and "pcs s i = Arm a b" and "\<not> blocked ser i b s"
  shows "\<exists>n \<le> 5. \<exists>s'. arm_run X86 ser (replicate n (i, Next)) s = Some s' \<and> pcs s' i = Run b \<and>
    slot s' = (\<lambda>c. cx_state (ctxs m' c))"
  using assms by (auto simp: ms_context_switch_x86_def intro: x86.solo_refines_switch)

section \<open>Properties\<close>

text \<open>
  (C9) Arming is exclusive, on both processors. From a state where every thread runs its own RUNNING
  context, whatever the threads do, in whatever order their instructions come and whichever
  reservations get lost: as long as no thread takes up a context that another thread is still
  leaving, no context ever has two threads, a context that a thread has entered is RUNNING, and a
  thread about to validate a context that another thread runs traps with 0x69 at its next
  instruction. On x86-64 this is so although a context may be taken up and left again between the
  validation and the compare-exchange, which then cannot tell.
\<close>
theorem ctx_arm_exclusive:
  assumes "arm_start s0" and "arm_reach bk True s0 s" and "i < thr s" and "j < thr s" and "i \<noteq> j"
  shows "(holds (pcs s i) = Some c \<longrightarrow> holds (pcs s j) \<noteq> Some c) \<and>
    (entered (pcs s i) = Some c \<longrightarrow> slot s c = MS_CTX_RUNNING) \<and>
    (pcs s i = Arm a b \<longrightarrow> pcs s j = Run b \<longrightarrow>
       (\<exists>s'. arm_exec bk True i Next s = Some s' \<and> pcs s' i = Trapped 0x69))"
proof -
  have inv: "arm_inv bk s" using arm_reach_inv [OF assms(2,1)] by blast
  have "\<exists>s'. arm_exec bk True i Next s = Some s' \<and> pcs s' i = Trapped 0x69"
    if "pcs s i = Arm a b" "pcs s j = Run b"
    using arm_invD(2) [OF inv assms(4), of b] that assms(3) by (cases bk) (auto simp: arm_exec_def ctx_states)
  then show ?thesis using arm_invD(1) [OF inv assms(3-5)] arm_invD(2) [OF inv assms(3)] by blast
qed

text \<open>Three threads on the contexts 0x100, 0x200 and 0x300, and a context 0x400 that has not run yet.\<close>

definition arm_demo :: arm where
  "arm_demo = \<lparr>thr = 3, slot = (\<lambda>_. MS_CTX_RUNNING)(0x400 := MS_CTX_EMPTY),
     pcs = (\<lambda>i. Run (of_nat (0x100 * (i + 1)))), resv = (\<lambda>_. None), rax = (\<lambda>_. 0)\<rparr>"

lemma arm_demo_start: "arm_start arm_demo"
  by (auto simp: arm_start_def arm_demo_def ctx_states inj_on_def less_Suc_eq numeral_3_eq_3)

lemmas arm_eval = arm_demo_def arm_exec_def ctx_states blocked_def lessThan_nat_numeral lessThan_Suc lessThan_0


section \<open>Witnesses\<close>

text \<open>
  Two threads go for the same context: the one that comes second fails to arm it, validates again and
  traps.
\<close>

theorem ctx_arm_exclusive_witness:
  "\<forall>bk. \<exists>s. arm_run bk True [(0, Enter 0x400), (1, Enter 0x400), (0, Next), (1, Next), (0, Next), (1, Next), (0, Next), (1, Next),
        (0, Next), (0, Next), (1, Next)] arm_demo = Some s \<and>
     (\<exists>s'. arm_exec bk True 1 Next s = Some s' \<and> pcs s' 1 = Trapped 0x69)"
proof
  fix bk
  let ?sched = "[(0, Enter 0x400), (1, Enter 0x400), (0, Next), (1, Next), (0, Next), (1, Next), (0, Next), (1, Next),
        (0, Next), (0, Next), (1, Next)]"
  have "\<exists>s. arm_run bk True ?sched arm_demo = Some s \<and> thr s = 3 \<and> pcs s 1 = Arm 0x200 0x400 \<and> pcs s 0 = Run 0x400"
    by (cases bk) (simp_all add: arm_eval)
  then obtain s where run: "arm_run bk True ?sched arm_demo = Some s"
    and s: "thr s = 3" "pcs s 1 = Arm 0x200 0x400" "pcs s 0 = Run 0x400" by blast
  note r = arm_run_reach [OF arm_reach.start run]
  have "\<exists>s'. arm_exec bk True 1 Next s = Some s' \<and> pcs s' 1 = Trapped 0x69"
    using ctx_arm_exclusive [OF arm_demo_start r, of 1 0 0 "0x200" "0x400"] s by simp
  then show "\<exists>s. arm_run bk True ?sched arm_demo = Some s \<and> (\<exists>s'. arm_exec bk True 1 Next s = Some s' \<and> pcs s' 1 = Trapped 0x69)"
    using run by blast
qed


end
