(* ===== verification/Mjs_Socket.thy ===== *)
theory Mjs_Socket
  imports Mjs_Prelude
begin

text \<open>
  Sockets (native/posix/mjs\_socket.c): the neutral address record and its conversion to and from
  the bytes of the Linux \<open>sockaddr_storage\<close>, IPv4 text, and the entry points over the system
  calls, which are arguments. Sockets are owned descriptors: the lemmas account for every one.
\<close>

section \<open>Addresses\<close>

type_synonym u8 = "8 word"

abbreviation (input) MJS_SOCK_STREAM :: int where "MJS_SOCK_STREAM \<equiv> 1"
abbreviation (input) MJS_SOCK_DGRAM :: int where "MJS_SOCK_DGRAM \<equiv> 2"
abbreviation (input) MJS_SOCK_INET :: int where "MJS_SOCK_INET \<equiv> 2"
abbreviation (input) MJS_SOCK_UNIX :: int where "MJS_SOCK_UNIX \<equiv> 1"
abbreviation (input) MJS_SOCK_INET6 :: int where "MJS_SOCK_INET6 \<equiv> 10"

record mjs_sockaddr =
  sa_family :: int
  sa_port :: u16
  sa_pad0 :: u16
  sa_flowinfo :: u32
  sa_scope_id :: u32
  sa_octets :: "u8 list"
  sa_path :: "u8 list"

definition zero_sockaddr :: mjs_sockaddr where
  "zero_sockaddr = \<lparr>sa_family = 0, sa_port = 0, sa_pad0 = 0, sa_flowinfo = 0, sa_scope_id = 0,
     sa_octets = replicate 16 0, sa_path = replicate 104 0\<rparr>"

definition sa_wf :: "mjs_sockaddr \<Rightarrow> bool" where
  "sa_wf a \<longleftrightarrow> length (sa_octets a) = 16 \<and> length (sa_path a) = 104"

definition mjs_af_of :: "int \<Rightarrow> int" where
  "mjs_af_of family =
     (if family = MJS_SOCK_INET then 2 else if family = MJS_SOCK_INET6 then 10
      else if family = MJS_SOCK_UNIX then 1 else - 1)"

text \<open>
  Structures in memory: 16- and 32-bit fields in little-endian order, the port in network order,
  written into a buffer at an offset.
\<close>

definition le16 :: "u16 \<Rightarrow> u8 list" where
  "le16 w = [ucast w, ucast (drop_bit 8 w)]"

definition be16 :: "u16 \<Rightarrow> u8 list" where
  "be16 w = [ucast (drop_bit 8 w), ucast w]"

definition le32 :: "u32 \<Rightarrow> u8 list" where
  "le32 w = [ucast w, ucast (drop_bit 8 w), ucast (drop_bit 16 w), ucast (drop_bit 24 w)]"

definition un16 :: "u8 \<Rightarrow> u8 \<Rightarrow> u16" where
  "un16 lo hi = ucast lo OR push_bit 8 (ucast hi)"

definition un32 :: "u8 \<Rightarrow> u8 \<Rightarrow> u8 \<Rightarrow> u8 \<Rightarrow> u32" where
  "un32 a b c d = ucast a OR push_bit 8 (ucast b) OR push_bit 16 (ucast c) OR push_bit 24 (ucast d)"

definition poke :: "nat \<Rightarrow> u8 list \<Rightarrow> u8 list \<Rightarrow> u8 list" where
  "poke off bs s = take off s @ bs @ drop (off + length bs) s"

definition peek :: "nat \<Rightarrow> nat \<Rightarrow> u8 list \<Rightarrow> u8 list" where
  "peek off n s = take n (drop off s)"

definition strnlen :: "u8 list \<Rightarrow> nat" where
  "strnlen bs = length (takeWhile (\<lambda>b. b \<noteq> 0) bs)"

text \<open>
  Conversion to the bytes the kernel gets, with their length; \<^term>\<open>None\<close> is a read past the end
  of the path.
\<close>

definition mjs_sa_to_os :: "mjs_sockaddr \<Rightarrow> (int \<times> u8 list \<times> nat) option" where
  "mjs_sa_to_os a =
     (let out = replicate 128 0
      in if sa_family a = MJS_SOCK_INET then
           Some (0, poke 2 (be16 (sa_port a)) (poke 4 (take 4 (sa_octets a)) (poke 0 (le16 2) out)), 16)
         else if sa_family a = MJS_SOCK_INET6 then
           Some (0, poke 24 (le32 (sa_scope_id a)) (poke 4 (le32 (sa_flowinfo a))
                 (poke 2 (be16 (sa_port a)) (poke 8 (take 16 (sa_octets a)) (poke 0 (le16 10) out)))), 28)
         else if sa_family a = MJS_SOCK_UNIX then
           let out1 = poke 0 (le16 1) out; n = strnlen (sa_path a)
           in if n = 0 \<or> n \<ge> 108 then Some (- ENAMETOOLONG, out1, 0)
              else if n + 1 > length (sa_path a) then None
              else Some (0, poke 2 (take (n + 1) (sa_path a)) out1, 2 + n + 1)
         else Some (- EINVAL, out, 0))"

definition mjs_sa_to_neutral :: "u8 list \<Rightarrow> nat \<Rightarrow> mjs_sockaddr" where
  "mjs_sa_to_neutral ss len =
     (let fam = un16 (ss ! 0) (ss ! 1)
      in if fam = 2 \<and> len \<ge> 16 then
           zero_sockaddr\<lparr>sa_family := MJS_SOCK_INET, sa_port := un16 (ss ! 3) (ss ! 2),
             sa_octets := peek 4 4 ss @ replicate 12 0\<rparr>
         else if fam = 10 \<and> len \<ge> 28 then
           zero_sockaddr\<lparr>sa_family := MJS_SOCK_INET6, sa_port := un16 (ss ! 3) (ss ! 2),
             sa_flowinfo := un32 (ss ! 4) (ss ! 5) (ss ! 6) (ss ! 7),
             sa_scope_id := un32 (ss ! 24) (ss ! 25) (ss ! 26) (ss ! 27), sa_octets := peek 8 16 ss\<rparr>
         else if fam = 1 \<and> len \<ge> 2 then
           let cap = min (len - 2) 103; p = poke 0 (peek 2 cap ss) (replicate 104 0)
           in zero_sockaddr\<lparr>sa_family := MJS_SOCK_UNIX, sa_path := p[cap := 0, 103 := 0]\<rparr>
         else zero_sockaddr\<lparr>sa_family := uint fam\<rparr>)"

text \<open>The fields of an address that its family uses, everything else zero.\<close>

definition sa_canon :: "mjs_sockaddr \<Rightarrow> mjs_sockaddr" where
  "sa_canon a =
     (if sa_family a = MJS_SOCK_INET
      then zero_sockaddr\<lparr>sa_family := MJS_SOCK_INET, sa_port := sa_port a,
             sa_octets := take 4 (sa_octets a) @ replicate 12 0\<rparr>
      else if sa_family a = MJS_SOCK_INET6
      then zero_sockaddr\<lparr>sa_family := MJS_SOCK_INET6, sa_port := sa_port a, sa_flowinfo := sa_flowinfo a,
             sa_scope_id := sa_scope_id a, sa_octets := sa_octets a\<rparr>
      else zero_sockaddr\<lparr>sa_family := sa_family a,
             sa_path := take (strnlen (sa_path a)) (sa_path a) @ replicate (104 - strnlen (sa_path a)) 0\<rparr>)"

section \<open>Entry points\<close>

text \<open>
  The system calls on a world \<open>'w\<close>. \<open>sk_setfd\<close> is \<open>fcntl(F_SETFD, FD_CLOEXEC)\<close>; \<open>sk_accept\<close> answers
  with the descriptor and, if a peer buffer was passed, the peer's bytes and their length;
  \<open>sk_recv\<close> yields the bytes received, \<open>sk_send\<close> how many it took.
\<close>

record 'w sock_kernel =
  sk_socket :: "int \<Rightarrow> int \<Rightarrow> 'w \<Rightarrow> int host \<times> 'w"
  sk_setfd :: "int \<Rightarrow> 'w \<Rightarrow> unit host \<times> 'w"
  sk_getfl :: "int \<Rightarrow> 'w \<Rightarrow> int host \<times> 'w"
  sk_setfl :: "int \<Rightarrow> int \<Rightarrow> 'w \<Rightarrow> unit host \<times> 'w"
  sk_bind :: "int \<Rightarrow> u8 list \<Rightarrow> nat \<Rightarrow> 'w \<Rightarrow> unit host \<times> 'w"
  sk_listen :: "int \<Rightarrow> int \<Rightarrow> 'w \<Rightarrow> unit host \<times> 'w"
  sk_connect :: "int \<Rightarrow> u8 list \<Rightarrow> nat \<Rightarrow> 'w \<Rightarrow> unit host \<times> 'w"
  sk_accept :: "int \<Rightarrow> bool \<Rightarrow> 'w \<Rightarrow> (int \<times> u8 list \<times> nat) host \<times> 'w"
  sk_recv :: "int \<Rightarrow> size_t \<Rightarrow> 'w \<Rightarrow> u8 list host \<times> 'w"
  sk_send :: "int \<Rightarrow> u8 list \<Rightarrow> 'w \<Rightarrow> size_t host \<times> 'w"
  sk_shutdown :: "int \<Rightarrow> int \<Rightarrow> 'w \<Rightarrow> unit host \<times> 'w"
  sk_close :: "int \<Rightarrow> 'w \<Rightarrow> unit host \<times> 'w"

abbreviation (input) O_NONBLOCK :: int where "O_NONBLOCK \<equiv> 0x800"

definition unit_rc :: "unit host \<times> 'w \<Rightarrow> int \<times> 'w" where
  "unit_rc r = (case r of (Inl e, w) \<Rightarrow> (- e, w) | (Inr _, w) \<Rightarrow> (0, w))"

definition mjs_socket_socket ::
    "'w sock_kernel \<Rightarrow> int \<Rightarrow> int \<Rightarrow> int slot \<Rightarrow> 'w \<Rightarrow> int \<times> int slot \<times> 'w" where
  "mjs_socket_socket K family type out_fd w =
     (if out_fd = None then (- EFAULT, out_fd, w)
      else
        let af = mjs_af_of family
        in if af < 0 then (- EINVAL, out_fd, w)
           else if type \<noteq> MJS_SOCK_STREAM \<and> type \<noteq> MJS_SOCK_DGRAM then (- EINVAL, out_fd, w)
           else (case sk_socket K af type w of
                   (Inl e, w1) \<Rightarrow> (- e, out_fd, w1)
                 | (Inr fd, w1) \<Rightarrow>
                     (case sk_setfd K fd w1 of
                        (Inl e, w2) \<Rightarrow> (- e, out_fd, snd (sk_close K fd w2))
                      | (Inr _, w2) \<Rightarrow> (0, Some fd, w2))))"

definition mjs_socket_set_nonblocking :: "'w sock_kernel \<Rightarrow> int \<Rightarrow> int \<Rightarrow> 'w \<Rightarrow> int \<times> 'w" where
  "mjs_socket_set_nonblocking K fd enabled w =
     (if fd < 0 then (- EBADF, w)
      else (case sk_getfl K fd w of
              (Inl e, w1) \<Rightarrow> (- e, w1)
            | (Inr flags, w1) \<Rightarrow>
                unit_rc (sk_setfl K fd (if enabled \<noteq> 0 then flags OR O_NONBLOCK else flags AND NOT O_NONBLOCK) w1)))"

text \<open>Binding and connecting differ in the system call only; \<^term>\<open>None\<close> is the read past the path.\<close>

definition sa_call ::
    "(int \<Rightarrow> u8 list \<Rightarrow> nat \<Rightarrow> 'w \<Rightarrow> unit host \<times> 'w) \<Rightarrow> int \<Rightarrow> mjs_sockaddr option \<Rightarrow> 'w \<Rightarrow> (int \<times> 'w) option" where
  "sa_call call fd addr w =
     (case addr of
        None \<Rightarrow> Some (- EFAULT, w)
      | Some a \<Rightarrow>
          if fd < 0 then Some (- EBADF, w)
          else (case mjs_sa_to_os a of
                  None \<Rightarrow> None
                | Some (conv, ss, sl) \<Rightarrow>
                    if conv \<noteq> 0 then Some (conv, w) else Some (unit_rc (call fd ss sl w))))"

definition mjs_socket_bind :: "'w sock_kernel \<Rightarrow> int \<Rightarrow> mjs_sockaddr option \<Rightarrow> 'w \<Rightarrow> (int \<times> 'w) option" where
  "mjs_socket_bind K fd addr w = sa_call (sk_bind K) fd addr w"

definition mjs_socket_connect :: "'w sock_kernel \<Rightarrow> int \<Rightarrow> mjs_sockaddr option \<Rightarrow> 'w \<Rightarrow> (int \<times> 'w) option" where
  "mjs_socket_connect K fd addr w = sa_call (sk_connect K) fd addr w"

definition mjs_socket_listen :: "'w sock_kernel \<Rightarrow> int \<Rightarrow> int \<Rightarrow> 'w \<Rightarrow> int \<times> 'w" where
  "mjs_socket_listen K fd backlog w =
     (if fd < 0 then (- EBADF, w) else if backlog < 0 then (- EINVAL, w) else unit_rc (sk_listen K fd backlog w))"

text \<open>The child gets the listener's \<open>O_NONBLOCK\<close>; the result of setting it is ignored.\<close>

definition inherit_nonblock :: "'w sock_kernel \<Rightarrow> int \<Rightarrow> int \<Rightarrow> 'w \<Rightarrow> 'w" where
  "inherit_nonblock K c fd w =
     (case sk_getfl K c w of (child, w1) \<Rightarrow>
        (case sk_getfl K fd w1 of (parent, w2) \<Rightarrow>
           (case (child, parent) of
              (Inr child_flags, Inr parent_flags) \<Rightarrow>
                let wanted = (if parent_flags AND O_NONBLOCK \<noteq> 0 then child_flags OR O_NONBLOCK
                              else child_flags AND NOT O_NONBLOCK)
                in if wanted \<noteq> child_flags then snd (sk_setfl K c wanted w2) else w2
            | _ \<Rightarrow> w2)))"

definition mjs_socket_accept ::
    "'w sock_kernel \<Rightarrow> int \<Rightarrow> int slot \<Rightarrow> mjs_sockaddr slot \<Rightarrow> 'w \<Rightarrow> int \<times> int slot \<times> mjs_sockaddr slot \<times> 'w" where
  "mjs_socket_accept K fd out_client out_peer w =
     (if out_client = None then (- EFAULT, out_client, out_peer, w)
      else if fd < 0 then (- EBADF, out_client, out_peer, w)
      else (case sk_accept K fd (out_peer \<noteq> None) w of
              (Inl e, w1) \<Rightarrow> (- e, out_client, out_peer, w1)
            | (Inr (c, ss, sl), w1) \<Rightarrow>
                (case sk_setfd K c w1 of
                   (Inl e, w2) \<Rightarrow> (- e, out_client, out_peer, snd (sk_close K c w2))
                 | (Inr _, w2) \<Rightarrow>
                     (0, Some c, (if out_peer \<noteq> None then Some (mjs_sa_to_neutral ss sl) else None),
                      inherit_nonblock K c fd w2))))"

text \<open>The buffer of a receive is a slot that holds its contents.\<close>

definition mjs_socket_recv ::
    "'w sock_kernel \<Rightarrow> int \<Rightarrow> u8 list slot \<Rightarrow> size_t \<Rightarrow> size_t slot \<Rightarrow> 'w \<Rightarrow> int \<times> u8 list slot \<times> size_t slot \<times> 'w" where
  "mjs_socket_recv K fd buf len out_n w =
     (if len = 0 then (- EINVAL, buf, out_n, w)
      else (case (buf, out_n) of
              (Some b, Some _) \<Rightarrow>
                if fd < 0 then (- EBADF, buf, out_n, w)
                else (case sk_recv K fd len w of
                        (Inl e, w1) \<Rightarrow> (- e, buf, out_n, w1)
                      | (Inr d, w1) \<Rightarrow> (0, Some (d @ drop (length d) b), Some (of_nat (length d)), w1))
            | _ \<Rightarrow> (- EFAULT, buf, out_n, w)))"

definition mjs_socket_send ::
    "'w sock_kernel \<Rightarrow> int \<Rightarrow> u8 list option \<Rightarrow> size_t \<Rightarrow> size_t slot \<Rightarrow> 'w \<Rightarrow> int \<times> size_t slot \<times> 'w" where
  "mjs_socket_send K fd buf len out_n w =
     (if len = 0 then (- EINVAL, out_n, w)
      else (case (buf, out_n) of
              (Some b, Some _) \<Rightarrow>
                if fd < 0 then (- EBADF, out_n, w)
                else (case sk_send K fd (take (unat len) b) w of
                        (Inl e, w1) \<Rightarrow> (- e, out_n, w1)
                      | (Inr n, w1) \<Rightarrow> (0, Some n, w1))
            | _ \<Rightarrow> (- EFAULT, out_n, w)))"

definition mjs_socket_shutdown :: "'w sock_kernel \<Rightarrow> int \<Rightarrow> int \<Rightarrow> 'w \<Rightarrow> int \<times> 'w" where
  "mjs_socket_shutdown K fd how w =
     (if fd < 0 then (- EBADF, w)
      else if how \<noteq> 0 \<and> how \<noteq> 1 \<and> how \<noteq> 2 then (- EINVAL, w)
      else unit_rc (sk_shutdown K fd how w))"

definition mjs_socket_close :: "'w sock_kernel \<Rightarrow> int \<Rightarrow> 'w \<Rightarrow> int \<times> 'w" where
  "mjs_socket_close K fd w = (if fd < 0 then (- EBADF, w) else unit_rc (sk_close K fd w))"

section \<open>IPv4 text\<close>

text \<open>
  \<open>inet_pton\<close> for IPv4, on the octets read so far, whether the current one has a digit, and the
  rest of the text; \<open>inet_ntop\<close> writes the octets in decimal.
\<close>

fun inet_pton4 :: "nat list \<Rightarrow> bool \<Rightarrow> string \<Rightarrow> nat list option" where
  "inet_pton4 os saw [] = (if length os = 4 \<and> saw then Some os else None)"
| "inet_pton4 os saw (c # cs) =
     (let n = of_char c :: nat
      in if 48 \<le> n \<and> n \<le> 57 then
           (if \<not> saw then if length os = 4 then None else inet_pton4 (os @ [n - 48]) True cs
            else let cur = last os; new = cur * 10 + (n - 48)
                 in if cur = 0 \<or> new > 255 then None else inet_pton4 (butlast os @ [new]) True cs)
         else if c = CHR ''.'' \<and> saw then if length os = 4 then None else inet_pton4 os False cs
         else None)"

fun dec :: "nat \<Rightarrow> string" where
  "dec n = (if n < 10 then [char_of (48 + n)] else dec (n div 10) @ [char_of (48 + n mod 10)])"

declare dec.simps [simp del]

definition inet_ntop4 :: "u8 list \<Rightarrow> string" where
  "inet_ntop4 os = dec (unat (os ! 0)) @ ''.'' @ dec (unat (os ! 1)) @ ''.'' @ dec (unat (os ! 2))
     @ ''.'' @ dec (unat (os ! 3))"

definition mjs_sockaddr_ipv4 :: "string option \<Rightarrow> int \<Rightarrow> mjs_sockaddr slot \<Rightarrow> int \<times> mjs_sockaddr slot" where
  "mjs_sockaddr_ipv4 dotted port out =
     (case (dotted, out) of
        (Some s, Some _) \<Rightarrow>
          if port < 0 \<or> port > 65535 then (- EINVAL, out)
          else (case inet_pton4 [] False s of
                  None \<Rightarrow> (- EINVAL, out)
                | Some a \<Rightarrow>
                    (0, Some (zero_sockaddr\<lparr>sa_family := MJS_SOCK_INET, sa_port := of_int port,
                       sa_octets := map of_nat a @ replicate 12 0\<rparr>)))
      | _ \<Rightarrow> (- EFAULT, out))"

definition mjs_sockaddr_format4 ::
    "mjs_sockaddr option \<Rightarrow> string slot \<Rightarrow> size_t \<Rightarrow> size_t slot \<Rightarrow> int \<times> string slot \<times> size_t slot" where
  "mjs_sockaddr_format4 addr out_buf cap out_len =
     (if addr = None \<or> out_buf = None \<or> out_len = None then (- EFAULT, out_buf, out_len)
      else if sa_family (the addr) \<noteq> MJS_SOCK_INET then (- EINVAL, out_buf, out_len)
      else
        let tmp = inet_ntop4 (sa_octets (the addr)); n = length tmp
        in if cap < of_nat n + 1 then (- EINVAL, out_buf, out_len)
           else (0, Some tmp, Some (of_nat n)))"

section \<open>Lemmas\<close>

lemma un16_le16: "un16 (ucast w) (ucast (drop_bit 8 w)) = w"
  unfolding un16_def
  by (rule bit_word_eqI) (auto simp: bit_simps)

lemma un32_le32:
  "un32 (ucast w) (ucast (drop_bit 8 w)) (ucast (drop_bit 16 w)) (ucast (drop_bit 24 w)) = w"
proof (rule bit_word_eqI)
  fix n assume "n < LENGTH(32)"
  then show "bit (un32 (ucast w) (ucast (drop_bit 8 w)) (ucast (drop_bit 16 w)) (ucast (drop_bit 24 w))) n = bit w n"
    unfolding un32_def by (cases "n < 24"; cases "n < 16"; cases "n < 8") (auto simp: bit_simps)
qed

lemma poke_length: "off + length bs \<le> length s \<Longrightarrow> length (poke off bs s) = length s"
  by (simp add: poke_def)

lemma poke_nth:
  "off + length bs \<le> length s \<Longrightarrow> i < length s \<Longrightarrow>
   poke off bs s ! i = (if off \<le> i \<and> i < off + length bs then bs ! (i - off) else s ! i)"
  by (auto simp: poke_def nth_append min_def)

lemma strnlen_props:
  "strnlen bs \<le> length bs" "i < strnlen bs \<Longrightarrow> bs ! i \<noteq> 0"
  "strnlen bs < length bs \<Longrightarrow> bs ! strnlen bs = 0"
proof -
  show "strnlen bs \<le> length bs" by (simp add: strnlen_def length_takeWhile_le)
  show "bs ! i \<noteq> 0" if "i < strnlen bs"
    using that nth_mem [of i "takeWhile (\<lambda>b. b \<noteq> 0) bs"] set_takeWhileD
    unfolding strnlen_def by (fastforce simp: takeWhile_nth)
  show "bs ! strnlen bs = 0" if "strnlen bs < length bs"
    using that nth_length_takeWhile [of "\<lambda>b. b \<noteq> 0" bs] unfolding strnlen_def by simp
qed

text \<open>What the kernel's copy holds at each offset, family by family.\<close>

lemma inet_bytes:
  assumes "length xs = 4"
  shows "poke 2 (be16 p) (poke 4 xs (poke 0 (le16 2) (replicate 128 0)))
    = le16 2 @ be16 p @ xs @ replicate 120 0"
  using assms by (auto simp: poke_def le16_def be16_def replicate_append_same)

lemma inet6_bytes:
  assumes "length xs = 16"
  shows "poke 24 (le32 s) (poke 4 (le32 f) (poke 2 (be16 p) (poke 8 xs (poke 0 (le16 10) (replicate 128 0)))))
    = le16 10 @ be16 p @ le32 f @ xs @ le32 s @ replicate 100 0"
  using assms by (auto simp: poke_def le16_def be16_def le32_def)

lemma unix_bytes: "length xs \<le> 126 \<Longrightarrow> poke 2 xs (poke 0 (le16 1) (replicate 128 0)) = le16 1 @ xs @ replicate (126 - length xs) 0"
  by (auto simp: poke_def le16_def)

lemma header_bytes:
  "un16 ((le16 f @ r) ! 0) ((le16 f @ r) ! 1) = f"
  "un16 ((le16 f @ be16 p @ r) ! 3) ((le16 f @ be16 p @ r) ! 2) = p"
  by (simp_all add: le16_def be16_def un16_le16)

lemma sa_roundtrip_inet:
  assumes "length xs = 4"
  shows "mjs_sa_to_neutral (le16 2 @ be16 p @ xs @ replicate 120 0) 16
    = zero_sockaddr\<lparr>sa_family := MJS_SOCK_INET, sa_port := p, sa_octets := xs @ replicate 12 0\<rparr>"
proof -
  have "peek 4 4 (le16 2 @ be16 p @ xs @ replicate 120 0) = xs"
    using assms by (simp add: peek_def le16_def be16_def)
  then show ?thesis
    unfolding mjs_sa_to_neutral_def header_bytes Let_def by simp
qed

lemma sa_roundtrip_inet6:
  assumes "length xs = 16"
  shows "mjs_sa_to_neutral (le16 10 @ be16 p @ le32 f @ xs @ le32 s @ replicate 100 0) 28
    = zero_sockaddr\<lparr>sa_family := MJS_SOCK_INET6, sa_port := p, sa_flowinfo := f, sa_scope_id := s, sa_octets := xs\<rparr>"
proof -
  let ?ss = "le16 10 @ be16 p @ le32 f @ xs @ le32 s @ replicate 100 0"
  have n: "?ss ! (24 + k) = (le32 s @ replicate 100 0) ! k" for k
    using assms by (simp add: nth_append le16_def be16_def le32_def)
  have scope: "un32 (?ss ! 24) (?ss ! 25) (?ss ! 26) (?ss ! 27) = s"
    using n [of 0] n [of 1] n [of 2] n [of 3] by (simp add: le32_def un32_le32)
  have flow: "un32 (?ss ! 4) (?ss ! 5) (?ss ! 6) (?ss ! 7) = f"
    by (simp add: le16_def be16_def le32_def un32_le32)
  have octets: "peek 8 16 ?ss = xs"
    using assms by (simp add: peek_def le16_def be16_def le32_def)
  show ?thesis
    unfolding mjs_sa_to_neutral_def header_bytes Let_def scope flow octets by simp
qed

lemma sa_roundtrip_unix:
  assumes "length xs < 104"
  shows "mjs_sa_to_neutral (le16 1 @ (xs @ [0]) @ replicate (126 - length (xs @ [0])) 0) (2 + length xs + 1)
    = zero_sockaddr\<lparr>sa_family := MJS_SOCK_UNIX, sa_path := xs @ replicate (104 - length xs) 0\<rparr>"
proof -
  let ?ss = "le16 1 @ (xs @ [0]) @ replicate (126 - length (xs @ [0])) 0"
  define cap where "cap = min (2 + length xs + 1 - 2) (103 :: nat)"
  have le: "cap - length (xs @ [0]) = 0" by (simp add: cap_def)
  have "peek 2 cap ?ss = take cap ((xs @ [0]) @ replicate (126 - length (xs @ [0])) 0)"
    by (simp add: peek_def le16_def)
  also have "\<dots> = take cap (xs @ [0])" by (simp only: take_append [of cap "xs @ [0]"] le take_0 append_Nil2)
  finally have pk: "peek 2 cap ?ss = take cap (xs @ [0])" .
  have path: "(poke 0 (take cap (xs @ [0])) (replicate 104 0))[cap := 0, 103 := 0] = xs @ replicate (104 - length xs) 0"
    using assms
    by (intro nth_equalityI) (auto simp: poke_def cap_def nth_append nth_list_update min_def nth_Cons' less_Suc_eq)
  show ?thesis
    unfolding mjs_sa_to_neutral_def header_bytes Let_def cap_def [symmetric] pk path by simp
qed

lemma sa_to_os_roundtrip:
  assumes wf: "sa_wf a" and c: "mjs_sa_to_os a = Some (0, ss, n)"
  shows "mjs_sa_to_neutral ss n = sa_canon a"
proof -
  consider (inet) "sa_family a = 2" | (inet6) "sa_family a = 10" | (unix) "sa_family a = 1"
    using c by (auto simp: mjs_sa_to_os_def Let_def split: if_splits)
  then show ?thesis
  proof cases
    case inet
    then have "ss = le16 2 @ be16 (sa_port a) @ take 4 (sa_octets a) @ replicate 120 0" "n = 16"
      using c inet_bytes [of "take 4 (sa_octets a)" "sa_port a"] wf by (auto simp: mjs_sa_to_os_def sa_wf_def)
    then show ?thesis
      using sa_roundtrip_inet [of "take 4 (sa_octets a)" "sa_port a"] wf inet by (simp add: sa_canon_def sa_wf_def)
  next
    case inet6
    then have "ss = le16 10 @ be16 (sa_port a) @ le32 (sa_flowinfo a) @ sa_octets a @ le32 (sa_scope_id a) @ replicate 100 0" "n = 28"
      using c inet6_bytes [of "sa_octets a" "sa_scope_id a" "sa_flowinfo a" "sa_port a"] wf
      by (auto simp: mjs_sa_to_os_def sa_wf_def)
    then show ?thesis
      using sa_roundtrip_inet6 [of "sa_octets a"] wf inet6 by (simp add: sa_canon_def sa_wf_def)
  next
    case unix
    define k where "k = strnlen (sa_path a)"
    have k: "k + 1 \<le> 104" "n = 2 + k + 1" "ss = poke 2 (take (k + 1) (sa_path a)) (poke 0 (le16 1) (replicate 128 0))"
      using c unix wf by (auto simp: mjs_sa_to_os_def sa_wf_def Let_def k_def split: if_splits)
    have "sa_path a ! k = 0" using strnlen_props(3) [of "sa_path a"] wf k(1) by (simp add: k_def sa_wf_def)
    then have t: "take (k + 1) (sa_path a) = take k (sa_path a) @ [0]"
      using wf k(1) by (simp add: sa_wf_def take_Suc_conv_app_nth)
    have len: "length (take k (sa_path a)) = k" using wf k(1) by (simp add: sa_wf_def)
    have "ss = le16 1 @ (take k (sa_path a) @ [0]) @ replicate (126 - length (take k (sa_path a) @ [0])) 0"
      unfolding k(3) t by (rule unix_bytes) (use len k(1) in simp)
    then show ?thesis
      using sa_roundtrip_unix [of "take k (sa_path a)"] len k(1,2) unix by (simp add: sa_canon_def k_def)
  qed
qed

subsection \<open>Descriptors\<close>

text \<open>
  What the entry points rely on of the system calls, over the open descriptors \<open>opn\<close>, those with
  close-on-exec \<open>clo\<close> and those in non-blocking mode \<open>nb\<close> of a world: new descriptors are fresh,
  \<open>fcntl\<close> reads and writes the flags of open ones, and \<open>close\<close> always releases.
\<close>

definition sock_law ::
    "'w sock_kernel \<Rightarrow> ('w \<Rightarrow> int set) \<Rightarrow> ('w \<Rightarrow> int set) \<Rightarrow> ('w \<Rightarrow> int set) \<Rightarrow> bool" where
  "sock_law K opn clo nb \<longleftrightarrow>
     (\<forall>af ty w w' r. sk_socket K af ty w = (r, w') \<longrightarrow>
        (case r of Inl e \<Rightarrow> 0 < e \<and> opn w' = opn w
         | Inr fd \<Rightarrow> 0 \<le> fd \<and> fd \<notin> opn w \<and> opn w' = insert fd (opn w))) \<and>
     (\<forall>fd b w w' r. sk_accept K fd b w = (r, w') \<longrightarrow>
        (case r of Inl e \<Rightarrow> 0 < e \<and> opn w' = opn w
         | Inr (c, _) \<Rightarrow> 0 \<le> c \<and> c \<notin> opn w \<and> opn w' = insert c (opn w) \<and> nb w' - {c} = nb w - {c})) \<and>
     (\<forall>fd w w' r. sk_setfd K fd w = (r, w') \<longrightarrow> opn w' = opn w \<and> nb w' = nb w \<and>
        (case r of Inl e \<Rightarrow> 0 < e | Inr _ \<Rightarrow> fd \<in> clo w')) \<and>
     (\<forall>fd w. fd \<in> opn w \<longrightarrow> (\<exists>fl. sk_getfl K fd w = (Inr fl, w) \<and> (fl AND O_NONBLOCK \<noteq> 0 \<longleftrightarrow> fd \<in> nb w))) \<and>
     (\<forall>fd fl w. fd \<in> opn w \<longrightarrow> (\<exists>w'. sk_setfl K fd fl w = (Inr (), w') \<and> opn w' = opn w \<and> clo w' = clo w \<and>
        nb w' = (if fl AND O_NONBLOCK \<noteq> 0 then insert fd (nb w) else nb w - {fd}))) \<and>
     (\<forall>fd w w' r. sk_close K fd w = (r, w') \<longrightarrow> opn w' = opn w - {fd} \<and> (case r of Inl e \<Rightarrow> 0 < e | Inr _ \<Rightarrow> True))"

lemma sock_lawD:
  assumes "sock_law K opn clo nb"
  shows "sk_socket K af ty w = (s, w') \<Longrightarrow> (case s of Inl e \<Rightarrow> 0 < e \<and> opn w' = opn w
      | Inr fd \<Rightarrow> 0 \<le> fd \<and> fd \<notin> opn w \<and> opn w' = insert fd (opn w))"
    and "sk_accept K fd b w = (r, w') \<Longrightarrow> (case r of Inl e \<Rightarrow> 0 < e \<and> opn w' = opn w
      | Inr (c, _) \<Rightarrow> 0 \<le> c \<and> c \<notin> opn w \<and> opn w' = insert c (opn w) \<and> nb w' - {c} = nb w - {c})"
    and "sk_setfd K fd w = (t, w') \<Longrightarrow> opn w' = opn w \<and> nb w' = nb w \<and> (case t of Inl e \<Rightarrow> 0 < e | Inr _ \<Rightarrow> fd \<in> clo w')"
    and "fd \<in> opn w \<Longrightarrow> \<exists>fl. sk_getfl K fd w = (Inr fl, w) \<and> (fl AND O_NONBLOCK \<noteq> 0 \<longleftrightarrow> fd \<in> nb w)"
    and "fd \<in> opn w \<Longrightarrow> \<exists>w'. sk_setfl K fd fl w = (Inr (), w') \<and> opn w' = opn w \<and> clo w' = clo w \<and>
      nb w' = (if fl AND O_NONBLOCK \<noteq> 0 then insert fd (nb w) else nb w - {fd})"
    and "opn (snd (sk_close K fd w)) = opn w - {fd}"
proof -
  note l = assms [unfolded sock_law_def]
  note l2 = conjunct2 [OF l] and l3 = conjunct2 [OF conjunct2 [OF l]]
  note l4 = conjunct2 [OF l3]
  note l5 = conjunct2 [OF l4]
  show "sk_socket K af ty w = (s, w') \<Longrightarrow> (case s of Inl e \<Rightarrow> 0 < e \<and> opn w' = opn w
      | Inr fd \<Rightarrow> 0 \<le> fd \<and> fd \<notin> opn w \<and> opn w' = insert fd (opn w))"
    by (rule conjunct1 [OF l, rule_format])
  show "sk_accept K fd b w = (r, w') \<Longrightarrow> (case r of Inl e \<Rightarrow> 0 < e \<and> opn w' = opn w
      | Inr (c, _) \<Rightarrow> 0 \<le> c \<and> c \<notin> opn w \<and> opn w' = insert c (opn w) \<and> nb w' - {c} = nb w - {c})"
    by (rule conjunct1 [OF l2, rule_format])
  show "sk_setfd K fd w = (t, w') \<Longrightarrow> opn w' = opn w \<and> nb w' = nb w \<and> (case t of Inl e \<Rightarrow> 0 < e | Inr _ \<Rightarrow> fd \<in> clo w')"
    by (rule conjunct1 [OF l3, rule_format])
  show "fd \<in> opn w \<Longrightarrow> \<exists>fl. sk_getfl K fd w = (Inr fl, w) \<and> (fl AND O_NONBLOCK \<noteq> 0 \<longleftrightarrow> fd \<in> nb w)"
    by (rule conjunct1 [OF l4, rule_format])
  show "fd \<in> opn w \<Longrightarrow> \<exists>w'. sk_setfl K fd fl w = (Inr (), w') \<and> opn w' = opn w \<and> clo w' = clo w \<and>
      nb w' = (if fl AND O_NONBLOCK \<noteq> 0 then insert fd (nb w) else nb w - {fd})"
    by (rule conjunct1 [OF l5, rule_format])
  show "opn (snd (sk_close K fd w)) = opn w - {fd}"
    using conjunct2 [OF l5, rule_format, of fd w "fst (sk_close K fd w)" "snd (sk_close K fd w)"] by simp
qed

lemma nonblock_bits:
  "(fl OR O_NONBLOCK) AND O_NONBLOCK \<noteq> (0 :: int)" "(fl AND NOT O_NONBLOCK) AND O_NONBLOCK = (0 :: int)"
proof -
  have "(fl OR O_NONBLOCK) AND O_NONBLOCK = O_NONBLOCK"
    by (rule bit_eqI) (auto simp: bit_simps)
  then show "(fl OR O_NONBLOCK) AND O_NONBLOCK \<noteq> (0 :: int)" by simp
  show "(fl AND NOT O_NONBLOCK) AND O_NONBLOCK = (0 :: int)"
    by (rule bit_eqI) (auto simp: bit_simps)
qed

lemma inherit_nonblock_law:
  assumes law: "sock_law K opn clo nb" and o: "c \<in> opn w" "fd \<in> opn w"
  shows "opn (inherit_nonblock K c fd w) = opn w" and "clo (inherit_nonblock K c fd w) = clo w"
    and "c \<in> nb (inherit_nonblock K c fd w) \<longleftrightarrow> fd \<in> nb w"
proof -
  note g = sock_lawD(4) [OF law]
  obtain cf pf where cf: "sk_getfl K c w = (Inr cf, w)" "cf AND O_NONBLOCK \<noteq> 0 \<longleftrightarrow> c \<in> nb w"
    and pf: "sk_getfl K fd w = (Inr pf, w)" "pf AND O_NONBLOCK \<noteq> 0 \<longleftrightarrow> fd \<in> nb w"
    using g [OF o(1)] g [OF o(2)] by blast
  define wanted where "wanted = (if pf AND O_NONBLOCK \<noteq> 0 then cf OR O_NONBLOCK else cf AND NOT O_NONBLOCK)"
  have want: "wanted AND O_NONBLOCK \<noteq> 0 \<longleftrightarrow> fd \<in> nb w"
    using pf(2) nonblock_bits [of cf] by (auto simp: wanted_def)
  obtain w' where w': "sk_setfl K c wanted w = (Inr (), w')" "opn w' = opn w" "clo w' = clo w"
    "nb w' = (if wanted AND O_NONBLOCK \<noteq> 0 then insert c (nb w) else nb w - {c})"
    using sock_lawD(5) [OF law o(1), of wanted] by blast
  have e: "inherit_nonblock K c fd w = (if wanted \<noteq> cf then w' else w)"
    unfolding inherit_nonblock_def cf(1) pf(1) prod.case sum.case Let_def wanted_def [symmetric] w'(1) by simp
  show "opn (inherit_nonblock K c fd w) = opn w" "clo (inherit_nonblock K c fd w) = clo w"
    unfolding e using w'(2,3) by simp_all
  show "c \<in> nb (inherit_nonblock K c fd w) \<longleftrightarrow> fd \<in> nb w"
    unfolding e using w'(4) want cf(2) by (cases "wanted = cf") auto
qed

subsection \<open>Dotted quads\<close>

lemma dec_digit: "d < 10 \<Longrightarrow> dec d = [char_of (48 + d)]"
  by (simp add: dec.simps)

lemma dec_step: "q \<noteq> 0 \<Longrightarrow> d < 10 \<Longrightarrow> dec (q * 10 + d) = dec q @ [char_of (48 + d)]"
  by (simp add: dec.simps [of "q * 10 + d"])

lemma pton_octet:
  assumes "n < 256" and "length os < 4"
  shows "inet_pton4 os False (dec n @ rest) = inet_pton4 (os @ [n]) True rest"
proof -
  consider "n < 10" | "10 \<le> n" "n < 100" | "100 \<le> n" by linarith
  then show ?thesis
  proof cases
    case 1
    then show ?thesis using assms(2) by (simp add: dec.simps)
  next
    case 2
    obtain q d where n: "n = q * 10 + d" and qd: "q < 10" "d < 10" "q \<noteq> 0"
      using 2 that [of "n div 10" "n mod 10"] by auto
    have "dec n = [char_of (48 + q), char_of (48 + d)]"
      using qd unfolding n by (simp add: dec_step dec_digit)
    then show ?thesis using assms qd n by (simp add: Let_def)
  next
    case 3
    obtain x y z where n: "n = (x * 10 + y) * 10 + z" and d: "x < 10" "y < 10" "z < 10" "x \<noteq> 0"
      using 3 assms(1) that [of "n div 10 div 10" "n div 10 mod 10" "n mod 10"] by auto
    have "dec n = [char_of (48 + x), char_of (48 + y), char_of (48 + z)]"
      using d unfolding n by (simp add: dec_step [of "x * 10 + y"] dec_step dec_digit del: distrib_right_numeral)
    then show ?thesis using assms d n by (simp add: Let_def)
  qed
qed

fun dotted :: "nat list \<Rightarrow> string" where
  "dotted [] = []"
| "dotted [n] = dec n"
| "dotted (n # m # os) = dec n @ ''.'' @ dotted (m # os)"

lemma dotted_snoc: "os \<noteq> [] \<Longrightarrow> dotted (os @ [n]) = dotted os @ ''.'' @ dec n"
  by (induction os rule: dotted.induct) auto

lemma dotted_last:
  assumes "os \<noteq> []" and "last os \<noteq> 0" and "d < 10"
  shows "dotted (butlast os @ [last os * 10 + d]) = dotted os @ [char_of (48 + d)]"
proof -
  note e = dec_step [OF assms(2,3)]
  obtain xs x where os: "os = xs @ [x]" using assms(1) by (metis append_butlast_last_id)
  show ?thesis
    using e unfolding os by (cases "xs = []") (simp_all add: dotted_snoc)
qed

text \<open>Reading a text and writing what was read gives the text back: there is one spelling.\<close>

lemma pton_dotted:
  assumes "inet_pton4 os saw s = Some r" and "saw \<longleftrightarrow> os \<noteq> [] \<and> saw" and "\<forall>x \<in> set os. x < 256"
  shows "dotted r = dotted os @ (if saw \<or> os = [] then [] else ''.'') @ s \<and> length r = 4 \<and> (\<forall>x \<in> set r. x < 256)"
  using assms
proof (induction os saw s rule: inet_pton4.induct)
  case (1 os saw)
  then show ?case by (auto split: if_splits)
next
  case (2 os saw c cs)
  let ?n = "of_char c :: nat"
  have c: "char_of ?n = c" by simp
  consider (first) "48 \<le> ?n" "?n \<le> 57" "\<not> saw" | (more) "48 \<le> ?n" "?n \<le> 57" "saw" | (dot) "c = CHR ''.''" "saw"
    | (bad) "\<not> (48 \<le> ?n \<and> ?n \<le> 57)" "\<not> (c = CHR ''.'' \<and> saw)"
    by blast
  then show ?case
  proof cases
    case first
    then have p: "inet_pton4 (os @ [?n - 48]) True cs = Some r" "length os \<noteq> 4"
      using "2.prems"(1) by (auto split: if_splits)
    have d: "dec (?n - 48) = [c]" using first by (simp add: dec.simps)
    have "dotted r = dotted (os @ [?n - 48]) @ cs \<and> length r = 4 \<and> (\<forall>x \<in> set r. x < 256)"
      using "2.IH"(1) [OF refl] first p "2.prems"(3) by auto
    then show ?thesis
      using first d by (cases "os = []") (simp_all add: dotted_snoc)
  next
    case more
    define new where "new = last os * 10 + (?n - 48)"
    have p: "inet_pton4 (butlast os @ [new]) True cs = Some r" "last os \<noteq> 0" "new \<le> 255"
      using "2.prems"(1) more by (auto simp: Let_def new_def split: if_splits)
    have os: "os \<noteq> []" using "2.prems"(2) more by simp
    have "dotted (butlast os @ [new]) = dotted os @ [c]"
      using dotted_last [OF os p(2), of "?n - 48"] more by (simp add: new_def)
    moreover have "\<forall>x \<in> set (butlast os @ [new]). x < 256" using "2.prems"(3) p(3) by (auto dest: in_set_butlastD)
    ultimately show ?thesis
      using "2.IH"(2) [OF refl _ _ refl refl] more p by (auto simp: new_def)
  next
    case dot
    then have p: "inet_pton4 os False cs = Some r" "\<not> (48 \<le> ?n \<and> ?n \<le> 57)"
      using "2.prems"(1) by (auto split: if_splits)
    have "dotted r = dotted os @ ''.'' @ cs \<and> length r = 4 \<and> (\<forall>x \<in> set r. x < 256)"
      using "2.IH"(3) [OF refl] p dot "2.prems" by (auto split: if_splits)
    then show ?thesis using dot by simp
  next
    case bad
    then show ?thesis using "2.prems"(1) by (simp add: Let_def split: if_splits)
  qed
qed

section \<open>Properties\<close>

text \<open>
  (C34) Addresses survive the trip through the operating system's representation. Every neutral
  address of a known family converts to the kernel's bytes, and converting those back gives the
  address again, up to the fields its family does not use; an IPv6 or IPv4 address always
  converts, a UNIX path if it has between 1 and 103 characters; an empty path is refused with
  \<open>-ENAMETOOLONG\<close>, other families with \<open>-EINVAL\<close>. Only a path that fills all 104 bytes without a terminator makes the conversion
  read past the record.
\<close>
theorem sockaddr_roundtrip:
  assumes "sa_wf a"
  shows "case mjs_sa_to_os a of
      None \<Rightarrow> sa_family a = MJS_SOCK_UNIX \<and> strnlen (sa_path a) = 104
    | Some (rc, ss, n) \<Rightarrow> (rc = 0 \<longrightarrow> mjs_sa_to_neutral ss n = sa_canon a) \<and>
        rc = (if mjs_af_of (sa_family a) = - 1 then - EINVAL
              else if sa_family a = MJS_SOCK_UNIX \<and> strnlen (sa_path a) = 0 then - ENAMETOOLONG else 0)"
proof (cases "mjs_sa_to_os a")
  case None
  then show ?thesis
    using strnlen_props(1) [of "sa_path a"] assms
    by (auto simp: mjs_sa_to_os_def sa_wf_def Let_def split: if_splits)
next
  case (Some x)
  obtain rc ss n where x: "x = (rc, ss, n)" by (metis prod.exhaust)
  have "rc = (if mjs_af_of (sa_family a) = - 1 then - EINVAL
      else if sa_family a = MJS_SOCK_UNIX \<and> strnlen (sa_path a) = 0 then - ENAMETOOLONG else 0)"
    using Some x strnlen_props(1) [of "sa_path a"] assms
    by (auto simp: mjs_sa_to_os_def mjs_af_of_def sa_wf_def Let_def split: if_splits)
  moreover have "mjs_sa_to_neutral ss n = sa_canon a" if "rc = 0"
    using sa_to_os_roundtrip [OF assms] Some x that by simp
  ultimately show ?thesis unfolding Some x option.case prod.case by blast
qed

text \<open>
  (C35) Descriptors are accounted for. Creating a socket and accepting a connection either hand
  over exactly one fresh descriptor, with close-on-exec set, or fail with a negative code, leave
  the out slots alone and no descriptor open, also when the flag could not be set. An accepted
  socket is non-blocking exactly when its listener is, and closing always releases the
  descriptor, whatever it returns.
\<close>
theorem socket_ownership:
  assumes "sock_law K opn clo nb"
  shows "(\<forall>family type v rc out w'. mjs_socket_socket K family type (Some v) w = (rc, out, w') \<longrightarrow>
       (if rc = 0 then \<exists>fd. out = Some fd \<and> fd \<notin> opn w \<and> opn w' = insert fd (opn w) \<and> fd \<in> clo w'
        else rc < 0 \<and> out = Some v \<and> opn w' = opn w)) \<and>
    (\<forall>fd v peer rc out peer' w'. fd \<in> opn w \<longrightarrow> mjs_socket_accept K fd (Some v) peer w = (rc, out, peer', w') \<longrightarrow>
       (if rc = 0 then \<exists>c. out = Some c \<and> c \<notin> opn w \<and> opn w' = insert c (opn w) \<and> c \<in> clo w' \<and>
            (c \<in> nb w' \<longleftrightarrow> fd \<in> nb w)
        else rc < 0 \<and> out = Some v \<and> peer' = peer \<and> opn w' = opn w)) \<and>
    (\<forall>fd rc w'. 0 \<le> fd \<longrightarrow> mjs_socket_close K fd w = (rc, w') \<longrightarrow> opn w' = opn w - {fd})"
proof (intro conjI allI impI)
  fix family type v rc out w'
  assume r: "mjs_socket_socket K family type (Some v) w = (rc, out, w')"
  obtain s w1 where s: "sk_socket K (mjs_af_of family) type w = (s, w1)" by fastforce
  note l = sock_lawD(1) [OF assms s]
  show "if rc = 0 then \<exists>fd. out = Some fd \<and> fd \<notin> opn w \<and> opn w' = insert fd (opn w) \<and> fd \<in> clo w'
      else rc < 0 \<and> out = Some v \<and> opn w' = opn w"
  proof (cases s)
    case (Inl e)
    then show ?thesis using r s l by (auto simp: mjs_socket_socket_def Let_def split: if_splits)
  next
    case (Inr fd)
    obtain t w2 where t: "sk_setfd K fd w1 = (t, w2)" by fastforce
    note lt = sock_lawD(3) [OF assms t]
    show ?thesis
      using sock_lawD(6) [OF assms, of fd w2] r s l Inr t lt by (cases t) (auto simp: mjs_socket_socket_def Let_def split: if_splits)
  qed
next
  fix fd v peer rc out peer' w'
  assume fd: "fd \<in> opn w" and r: "mjs_socket_accept K fd (Some v) peer w = (rc, out, peer', w')"
  obtain s w1 where s: "sk_accept K fd (peer \<noteq> None) w = (s, w1)" by fastforce
  note l = sock_lawD(2) [OF assms s]
  show "if rc = 0 then \<exists>c. out = Some c \<and> c \<notin> opn w \<and> opn w' = insert c (opn w) \<and> c \<in> clo w' \<and>
        (c \<in> nb w' \<longleftrightarrow> fd \<in> nb w)
      else rc < 0 \<and> out = Some v \<and> peer' = peer \<and> opn w' = opn w"
  proof (cases s)
    case (Inl e)
    then show ?thesis using r s l by (auto simp: mjs_socket_accept_def split: if_splits)
  next
    case (Inr x)
    obtain c ss sl where x: "x = (c, ss, sl)" by (metis prod.exhaust)
    obtain t w2 where t: "sk_setfd K c w1 = (t, w2)" by fastforce
    note lt = sock_lawD(3) [OF assms t]
    note cl = sock_lawD(6) [OF assms, of c w2]
    have "c \<noteq> fd" "c \<in> opn w2" "fd \<in> opn w2" "fd \<in> nb w2 \<longleftrightarrow> fd \<in> nb w" using l lt fd Inr x by auto
    note ih = inherit_nonblock_law [OF assms this(2,3)] this
    show ?thesis
      using r s l Inr x t lt cl ih
      by (cases t) (auto simp: mjs_socket_accept_def split: if_splits)
  qed
next
  fix fd rc w' assume "0 \<le> fd" "mjs_socket_close K fd w = (rc, w')"
  then have "w' = snd (sk_close K fd w)"
    by (auto simp: mjs_socket_close_def unit_rc_def split: prod.splits sum.splits)
  then show "opn w' = opn w - {fd}"
    using sock_lawD(6) [OF assms, of fd w] by simp
qed

text \<open>
  (C36) IPv4 text and addresses correspond one to one. Every IPv4 address formats to a text of at
  most 15 characters, and parsing that text with the address's port gives back the address up to
  its unused fields; conversely a text that parses is exactly the text its octets format to, and
  a port outside 0 to 65535 or any other text is refused with the out slot untouched.
\<close>
theorem ipv4_text_roundtrip:
  assumes "sa_wf a" and "sa_family a = MJS_SOCK_INET" and "16 \<le> unat cap"
  shows "(\<exists>str. mjs_sockaddr_format4 (Some a) (Some buf) cap (Some l) = (0, Some str, Some (of_nat (length str))) \<and>
       length str \<le> 15 \<and> mjs_sockaddr_ipv4 (Some str) (uint (sa_port a)) (Some v) = (0, Some (sa_canon a))) \<and>
    (\<forall>s port out rc. mjs_sockaddr_ipv4 (Some s) port (Some v) = (rc, out) \<longrightarrow>
       (if rc = 0 then \<exists>b. out = Some b \<and> inet_ntop4 (sa_octets b) = s \<and> uint (sa_port b) = port
        else rc < 0 \<and> out = Some v))"
proof (intro conjI allI impI)
  let ?o = "sa_octets a"
  obtain o0 o1 o2 o3 os where o: "?o = o0 # o1 # o2 # o3 # os"
    using assms(1) by (auto simp: sa_wf_def length_Suc_conv eval_nat_numeral)
  define str where "str = inet_ntop4 ?o"
  have b: "unat x < 256" for x :: u8 using unsigned_less [of x] by simp
  have len: "length (dec n) \<le> 3" if "n < 256" for n
  proof -
    have "n div 10 div 10 < 10" using that by simp
    then show ?thesis by (simp add: dec.simps [of n] dec.simps [of "n div 10"] dec.simps [of "n div 10 div 10"])
  qed
  have l15: "length str \<le> 15"
    using len [OF b [of o0]] len [OF b [of o1]] len [OF b [of o2]] len [OF b [of o3]]
    by (simp add: str_def inet_ntop4_def o)
  have "inet_pton4 [] False str = Some [unat o0, unat o1, unat o2, unat o3]"
    unfolding str_def inet_ntop4_def o using b by (simp add: pton_octet pton_octet [where rest = "[]", simplified])
  moreover have "uint (sa_port a) \<le> 65535" using uint_bounded [of "sa_port a"] by simp
  ultimately have parse: "mjs_sockaddr_ipv4 (Some str) (uint (sa_port a)) (Some v) = (0, Some (sa_canon a))"
    using assms(2) by (simp add: mjs_sockaddr_ipv4_def sa_canon_def o)
  have "unat (of_nat (length str) + 1 :: u64) = length str + 1"
    using l15 unat_of_nat64 [of "length str + 1"] by (simp add: add.commute)
  then have "\<not> cap < of_nat (length str) + 1"
    using assms(3) l15 by (simp add: word_less_unat)
  then have "mjs_sockaddr_format4 (Some a) (Some buf) cap (Some l) = (0, Some str, Some (of_nat (length str)))"
    using assms(2) by (simp add: mjs_sockaddr_format4_def str_def Let_def)
  then show "\<exists>str. mjs_sockaddr_format4 (Some a) (Some buf) cap (Some l) = (0, Some str, Some (of_nat (length str))) \<and>
       length str \<le> 15 \<and> mjs_sockaddr_ipv4 (Some str) (uint (sa_port a)) (Some v) = (0, Some (sa_canon a))"
    using l15 parse by blast
next
  fix s port out rc assume r: "mjs_sockaddr_ipv4 (Some s) port (Some v) = (rc, out)"
  show "if rc = 0 then \<exists>b. out = Some b \<and> inet_ntop4 (sa_octets b) = s \<and> uint (sa_port b) = port
      else rc < 0 \<and> out = Some v"
  proof (cases "port < 0 \<or> port > 65535 \<or> inet_pton4 [] False s = None")
    case True
    then show ?thesis using r by (auto simp: mjs_sockaddr_ipv4_def split: if_splits)
  next
    case False
    then obtain q where q: "inet_pton4 [] False s = Some q" and p: "0 \<le> port" "port \<le> 65535" by auto
    from pton_dotted [OF q] have d: "dotted q = s" "length q = 4" "\<forall>x \<in> set q. x < 256" by simp_all
    then obtain q0 q1 q2 q3 where qs: "q = [q0, q1, q2, q3]" by (auto simp: length_Suc_conv eval_nat_numeral)
    have u: "unat (of_nat x :: u8) = x" if "x < 256" for x using that by (simp add: unat_of_nat)
    have "inet_ntop4 (map of_nat q @ replicate 12 0) = s"
      using d unfolding qs by (simp add: inet_ntop4_def u)
    moreover have "uint (of_int port :: u16) = port"
      using p by (simp add: uint_word_of_int_eq take_bit_int_eq_self)
    ultimately show ?thesis
      using r q p by (auto simp: mjs_sockaddr_ipv4_def)
  qed
qed

section \<open>Witnesses\<close>

definition demo_addr :: mjs_sockaddr where
  "demo_addr = zero_sockaddr\<lparr>sa_family := MJS_SOCK_INET, sa_port := 8080,
     sa_octets := [192, 168, 0, 17] @ replicate 12 0\<rparr>"

lemma demo_addr_wf: "sa_wf demo_addr" "sa_family demo_addr = MJS_SOCK_INET"
  by (simp_all add: sa_wf_def demo_addr_def zero_sockaddr_def)

theorem sockaddr_roundtrip_witness:
  "\<exists>ss n. mjs_sa_to_os demo_addr = Some (0, ss, n) \<and> mjs_sa_to_neutral ss n = sa_canon demo_addr"
  using sockaddr_roundtrip [OF demo_addr_wf(1)] demo_addr_wf(2)
  by (auto simp: mjs_af_of_def split: option.splits)

theorem ipv4_text_roundtrip_witness:
  "\<exists>str. mjs_sockaddr_format4 (Some demo_addr) (Some []) 16 (Some 0) = (0, Some str, Some (of_nat (length str))) \<and>
     mjs_sockaddr_ipv4 (Some str) 8080 (Some zero_sockaddr) = (0, Some (sa_canon demo_addr))"
proof -
  have "uint (sa_port demo_addr) = 8080" by (simp add: demo_addr_def)
  then show ?thesis
    using ipv4_text_roundtrip [OF demo_addr_wf, of 16 "[]" 0 zero_sockaddr] by auto
qed

text \<open>A kernel over the lists of open, close-on-exec and non-blocking descriptors.\<close>

record fd_world =
  fw_open :: "int list"
  fw_clo :: "int list"
  fw_nb :: "int list"

definition fw_fresh :: "fd_world \<Rightarrow> int" where
  "fw_fresh w = Max (insert 2 (set (fw_open w))) + 1"

definition demo_sockets :: "fd_world sock_kernel" where
  "demo_sockets = \<lparr>sk_socket = (\<lambda>_ _ w. (Inr (fw_fresh w), w\<lparr>fw_open := fw_fresh w # fw_open w\<rparr>)),
     sk_setfd = (\<lambda>fd w. (Inr (), w\<lparr>fw_clo := fd # fw_clo w\<rparr>)),
     sk_getfl = (\<lambda>fd w. (Inr (if fd \<in> set (fw_nb w) then O_NONBLOCK else 0), w)),
     sk_setfl = (\<lambda>fd fl w. (Inr (), w\<lparr>fw_nb := (if fl AND O_NONBLOCK \<noteq> 0 then fd # fw_nb w else removeAll fd (fw_nb w))\<rparr>)),
     sk_bind = (\<lambda>_ _ _ w. (Inr (), w)), sk_listen = (\<lambda>_ _ w. (Inr (), w)), sk_connect = (\<lambda>_ _ _ w. (Inr (), w)),
     sk_accept = (\<lambda>_ _ w. (Inr (fw_fresh w, [], 0), w\<lparr>fw_open := fw_fresh w # fw_open w\<rparr>)),
     sk_recv = (\<lambda>_ _ w. (Inr [], w)), sk_send = (\<lambda>_ _ w. (Inr 0, w)), sk_shutdown = (\<lambda>_ _ w. (Inr (), w)),
     sk_close = (\<lambda>fd w. (Inr (), w\<lparr>fw_open := removeAll fd (fw_open w)\<rparr>))\<rparr>"

lemma fw_fresh_new: "fw_fresh w \<notin> set (fw_open w)" "0 \<le> fw_fresh w"
proof -
  have "x \<le> Max (insert 2 (set (fw_open w)))" if "x \<in> insert 2 (set (fw_open w))" for x
    using that by (intro Max_ge) simp_all
  note le = this
  show "fw_fresh w \<notin> set (fw_open w)"
  proof
    assume "fw_fresh w \<in> set (fw_open w)"
    then show False using le [of "fw_fresh w"] unfolding fw_fresh_def by simp
  qed
  show "0 \<le> fw_fresh w" using le [OF insertI1] unfolding fw_fresh_def by linarith
qed

lemma demo_sockets_law: "sock_law demo_sockets (\<lambda>w. set (fw_open w)) (\<lambda>w. set (fw_clo w)) (\<lambda>w. set (fw_nb w))"
  unfolding sock_law_def demo_sockets_def using fw_fresh_new by auto

theorem socket_ownership_witness:
  "\<exists>w'. mjs_socket_accept demo_sockets 3 (Some 0) None \<lparr>fw_open = [3], fw_clo = [], fw_nb = [3]\<rparr> = (0, Some 4, None, w') \<and>
     4 \<in> set (fw_clo w') \<and> 4 \<in> set (fw_nb w') \<and> set (fw_open w') = {3, 4}"
proof -
  let ?w = "\<lparr>fw_open = [3], fw_clo = [], fw_nb = [3]\<rparr> :: fd_world"
  have f: "fw_fresh ?w = 4" by (simp add: fw_fresh_def)
  obtain rc out p w' where a: "mjs_socket_accept demo_sockets 3 (Some 0) None ?w = (rc, out, p, w')"
    by (metis prod.exhaust)
  then have rc: "rc = 0 \<and> out = Some 4 \<and> p = None"
    using f by (auto simp: mjs_socket_accept_def demo_sockets_def)
  then show ?thesis
    using conjunct1 [OF conjunct2 [OF socket_ownership [OF demo_sockets_law, of ?w]], rule_format, OF _ a] a by auto
qed

end
