(* ===== verification/Mjs_SpikeStack.thy ===== *)
theory Mjs_SpikeStack
  imports Mjs_Stack
begin

text \<open>
  The stack allocator of the context-switch spike (spike/context\_switch/native\_stack.c). The
  registry is the slot array of Mjs\_Stack, with the page-size cache and \<open>errno\<close> next to it. The
  lemmas say what each operation does on a host that has room; Mjs\_Selftest rests on them.
\<close>

section \<open>The allocator\<close>

record 'w spike =
  spk_stack :: "'w stack_state"
  g_page_size :: size_t
  spk_errno :: int

definition spk_put :: "'w \<Rightarrow> 'w spike \<Rightarrow> 'w spike" where
  "spk_put w s = s\<lparr>spk_stack := (spk_stack s)\<lparr>stack_mem := w\<rparr>\<rparr>"

definition page_size :: "int \<Rightarrow> 'w spike \<Rightarrow> size_t \<times> 'w spike" where
  "page_size sc s =
     (let ps = (if g_page_size s = 0 then (if sc > 0 then of_int sc else 4096) else g_page_size s)
      in (ps, s\<lparr>g_page_size := ps\<rparr>))"

definition spk_round_up :: "size_t \<Rightarrow> size_t \<Rightarrow> size_t" where
  "spk_round_up n align = (n + align - 1) div align * align"

definition ms_page_size :: "int \<Rightarrow> 'w spike \<Rightarrow> int \<times> 'w spike" where
  "ms_page_size sc s = (let (ps, s') = page_size sc s in (c_int_of (uint ps), s'))"

definition ms_stack_alloc ::
    "'w vm_kernel \<Rightarrow> int \<Rightarrow> bool \<Rightarrow> size_t \<Rightarrow> addr slot \<Rightarrow> addr slot \<Rightarrow> 'w spike
      \<Rightarrow> int \<times> addr slot \<times> addr slot \<times> 'w spike" where
  "ms_stack_alloc K sc mem_ok bytes out_base out_top s =
     (if out_base = None \<or> out_top = None then (- 1, out_base, out_top, s\<lparr>spk_errno := EINVAL\<rparr>)
      else
        let (ps, s1) = page_size sc s
        in if bytes > - 1 - 2 * ps then (- 1, out_base, out_top, s1\<lparr>spk_errno := EINVAL\<rparr>)
           else
             let usable = spk_round_up (if bytes = 0 then ps else bytes) ps; tot = usable + ps
             in case k_mmap K 0 tot PROT_RW False (stack_mem (spk_stack s1)) of
                  (Inl e, w1) \<Rightarrow> (- 1, out_base, out_top, (spk_put w1 s1)\<lparr>spk_errno := e\<rparr>)
                | (Inr base, w1) \<Rightarrow>
                   (case k_mprotect K base ps PROT_NONE w1 of
                      (Inl saved, w2) \<Rightarrow>
                        (- 1, out_base, out_top, (spk_put (snd (k_munmap K base tot w2)) s1)\<lparr>spk_errno := saved\<rparr>)
                    | (Inr _, w2) \<Rightarrow>
                       (case stack_record mem_ok base tot (spk_stack (spk_put w2 s1)) of
                          None \<Rightarrow>
                            (- 1, out_base, out_top, (spk_put (snd (k_munmap K base tot w2)) s1)\<lparr>spk_errno := ENOMEM\<rparr>)
                        | Some r \<Rightarrow> (0, Some base, Some (base + ps + usable), s1\<lparr>spk_stack := r\<rparr>))))"

text \<open>\<open>g_resv\<close> is NULL as long as its capacity is 0.\<close>

definition ms_stack_free :: "'w vm_kernel \<Rightarrow> addr \<Rightarrow> 'w spike \<Rightarrow> 'w spike" where
  "ms_stack_free K base s =
     (if base = 0 \<or> g_resv_cap (spk_stack s) = 0 then s
      else case scan (\<lambda>r. fst r = base) (g_resv (spk_stack s)) of
        None \<Rightarrow> s
      | Some i \<Rightarrow>
         (let (r, w) = k_munmap K base (snd (g_resv (spk_stack s) ! i)) (stack_mem (spk_stack s))
          in s\<lparr>spk_stack := (spk_stack s)\<lparr>g_resv := (g_resv (spk_stack s))[i := (0, 0)], stack_mem := w\<rparr>,
               spk_errno := (case r of Inl e \<Rightarrow> e | Inr _ \<Rightarrow> spk_errno s)\<rparr>))"

definition ms_stack_total_size :: "'w spike \<Rightarrow> size_t" where
  "ms_stack_total_size s =
     foldl (\<lambda>tot r. if fst r \<noteq> 0 then tot + snd r else tot) 0 (g_resv (spk_stack s))"

section \<open>The host\<close>

text \<open>
  What the spike runs on: the kernel, the byte view of the address space that loads see, the
  effect of storing a byte, whether \<open>sigaction\<close> accepts a signal, the page size, whether
  \<open>realloc\<close> succeeds, and what \<open>errno\<close> is after a \<open>printf\<close> that found it at a value.
\<close>

record 'w bench =
  b_kernel :: "'w vm_kernel"
  b_view :: "'w \<Rightarrow> mem_view"
  b_poke :: "addr \<Rightarrow> 8 word \<Rightarrow> 'w \<Rightarrow> 'w"
  b_sig :: "int \<Rightarrow> bool"
  b_sc :: int
  b_mem :: bool
  b_printf :: "int \<Rightarrow> int"

abbreviation (input) SIGBUS :: int where "SIGBUS \<equiv> 10"
abbreviation (input) SIGSEGV :: int where "SIGSEGV \<equiv> 11"

definition writable :: "(int \<times> 8 word) option \<Rightarrow> bool" where
  "writable m \<longleftrightarrow> (case m of None \<Rightarrow> False | Some (p, _) \<Rightarrow> p = PROT_RW)"

text \<open>
  What the host promises: a store changes the byte it is made to and nothing else; as long as
  \<open>R m\<close> holds there is room for \<open>m\<close> more bytes, so that non-empty mappings of that size succeed
  with the protection the allocator asks for, as do the changes to PROT\_NONE and the removals of
  mapped, non-empty ranges; half the address space is always too much. Printing
  leaves \<open>errno\<close> alone. The page size is a power of two from 4096 to 1 GiB.
\<close>

definition poke_law :: "'w bench \<Rightarrow> bool" where
  "poke_law E \<longleftrightarrow> (\<forall>a v w x. writable (b_view E w a) \<longrightarrow>
     b_view E (b_poke E a v w) x = (if x = a then Some (PROT_RW, v) else b_view E w x))"

definition mapped :: "'w bench \<Rightarrow> nat \<Rightarrow> addr \<Rightarrow> size_t \<Rightarrow> 'w \<Rightarrow> bool" where
  "mapped E P a n w \<longleftrightarrow> n \<noteq> 0 \<and> P dvd unat a \<and> P dvd unat n \<and> (\<forall>x. in_range a n x \<longrightarrow> b_view E w x \<noteq> None)"

definition room_law :: "'w bench \<Rightarrow> nat \<Rightarrow> (nat \<Rightarrow> 'w \<Rightarrow> bool) \<Rightarrow> bool" where
  "room_law E P R \<longleftrightarrow>
     (\<forall>m n w. n \<noteq> 0 \<longrightarrow> P dvd unat n \<longrightarrow> R (unat n + m) w \<longrightarrow> (\<exists>b w'. k_mmap (b_kernel E) 0 n PROT_RW False w = (Inr b, w') \<and> R m w')) \<and>
     (\<forall>m a n w. R m w \<longrightarrow> mapped E P a n w \<longrightarrow> (\<exists>w'. k_mprotect (b_kernel E) a n PROT_NONE w = (Inr (), w') \<and> R m w')) \<and>
     (\<forall>m a n w. R m w \<longrightarrow> mapped E P a n w \<longrightarrow> (\<exists>w'. k_munmap (b_kernel E) a n w = (Inr (), w') \<and> R m w')) \<and>
     (\<forall>m n w. R m w \<longrightarrow> 9223372036854775808 \<le> unat n \<longrightarrow> (\<exists>e w'. k_mmap (b_kernel E) 0 n PROT_RW False w = (Inl e, w') \<and> R m w')) \<and>
     (\<forall>m a v w. R m w \<longrightarrow> R m (b_poke E a v w)) \<and>
     (\<forall>m m' w. R m w \<longrightarrow> m' \<le> m \<longrightarrow> R m' w)"

definition bench_law :: "'w bench \<Rightarrow> nat \<Rightarrow> (nat \<Rightarrow> 'w \<Rightarrow> bool) \<Rightarrow> bool" where
  "bench_law E k R \<longleftrightarrow> b_sc E = 2 ^ k \<and> 12 \<le> k \<and> k \<le> 30 \<and> posix_vm (b_kernel E) (b_view E) (2 ^ k) \<and>
     poke_law E \<and> room_law E (2 ^ k) R \<and> b_sig E SIGSEGV \<and> b_sig E SIGBUS \<and> b_mem E \<and> b_printf E = (\<lambda>e. e)"

lemma room_lawD:
  assumes "room_law E P R"
  shows "n \<noteq> 0 \<Longrightarrow> P dvd unat n \<Longrightarrow> R (unat n + m) w \<Longrightarrow> \<exists>b w'. k_mmap (b_kernel E) 0 n PROT_RW False w = (Inr b, w') \<and> R m w'"
    and "R m w \<Longrightarrow> mapped E P a n w \<Longrightarrow> \<exists>w'. k_mprotect (b_kernel E) a n PROT_NONE w = (Inr (), w') \<and> R m w'"
    and "R m w \<Longrightarrow> mapped E P a n w \<Longrightarrow> \<exists>w'. k_munmap (b_kernel E) a n w = (Inr (), w') \<and> R m w'"
    and "R m w \<Longrightarrow> 9223372036854775808 \<le> unat n \<Longrightarrow> \<exists>e w'. k_mmap (b_kernel E) 0 n PROT_RW False w = (Inl e, w') \<and> R m w'"
    and "R m w \<Longrightarrow> R m (b_poke E a v w)"
    and "R m w \<Longrightarrow> m' \<le> m \<Longrightarrow> R m' w"
proof -
  note c1 = assms [unfolded room_law_def] note c2 = conjunct2 [OF c1] note c3 = conjunct2 [OF c2]
  note c4 = conjunct2 [OF c3] note c5 = conjunct2 [OF c4] note c6 = conjunct2 [OF c5]
  show "n \<noteq> 0 \<Longrightarrow> P dvd unat n \<Longrightarrow> R (unat n + m) w \<Longrightarrow> \<exists>b w'. k_mmap (b_kernel E) 0 n PROT_RW False w = (Inr b, w') \<and> R m w'"
    by (rule conjunct1 [OF c1, rule_format])
  show "R m w \<Longrightarrow> mapped E P a n w \<Longrightarrow> \<exists>w'. k_mprotect (b_kernel E) a n PROT_NONE w = (Inr (), w') \<and> R m w'"
    by (rule conjunct1 [OF c2, rule_format])
  show "R m w \<Longrightarrow> mapped E P a n w \<Longrightarrow> \<exists>w'. k_munmap (b_kernel E) a n w = (Inr (), w') \<and> R m w'"
    by (rule conjunct1 [OF c3, rule_format])
  show "R m w \<Longrightarrow> 9223372036854775808 \<le> unat n \<Longrightarrow> \<exists>e w'. k_mmap (b_kernel E) 0 n PROT_RW False w = (Inl e, w') \<and> R m w'"
    by (rule conjunct1 [OF c4, rule_format])
  show "R m w \<Longrightarrow> R m (b_poke E a v w)" by (rule conjunct1 [OF c5, rule_format])
  show "R m w \<Longrightarrow> m' \<le> m \<Longrightarrow> R m' w" by (rule c6 [rule_format])
qed

lemma bench_lawD:
  assumes "bench_law E k R"
  shows "b_sc E = 2 ^ k" and "12 \<le> k" and "k \<le> 30" and "posix_vm (b_kernel E) (b_view E) (2 ^ k)"
    and "poke_law E" and "room_law E (2 ^ k) R" and "b_sig E SIGSEGV" and "b_sig E SIGBUS" and "b_mem E"
    and "b_printf E e = e"
  using assms unfolding bench_law_def by simp_all

section \<open>Lemmas\<close>

subsection \<open>Page sizes\<close>

lemma unat_page:
  assumes "k \<le> 30"
  shows "unat (2 ^ k :: u64) = 2 ^ k" and "(2 ^ k :: nat) \<le> 1073741824"
proof -
  show le: "(2 ^ k :: nat) \<le> 1073741824"
    using power_increasing [OF assms, of "2 :: nat"] by simp
  then show "unat (2 ^ k :: u64) = 2 ^ k"
    using unat_of_nat64 [of "2 ^ k"] by simp
qed

lemma page_ge: "12 \<le> k \<Longrightarrow> 4096 \<le> (2 ^ k :: nat)"
  using power_increasing [of 12 k "2 :: nat"] by simp

lemma page_dvd: "12 \<le> k \<Longrightarrow> 16 dvd (2 ^ k :: nat)"
  using le_imp_power_dvd [of 4 k "2 :: nat"] by simp

lemma spk_round_up_eq: "spk_round_up = round_up"
  by (intro ext) (simp add: spk_round_up_def round_up_def)

lemma int_page_pow2: "(2 ^ k :: int) AND (2 ^ k - 1) = 0"
  by (simp flip: mask_eq_exp_minus_1 take_bit_eq_mask)

subsection \<open>States of the allocator\<close>

definition live_of :: "'w spike \<Rightarrow> mjs_reservation set" where
  "live_of s = {r \<in> set (g_resv (spk_stack s)). stack_live r}"

definition spk_ok :: "'w bench \<Rightarrow> nat \<Rightarrow> (nat \<Rightarrow> 'w \<Rightarrow> bool) \<Rightarrow> nat \<Rightarrow> mjs_reservation set \<Rightarrow> 'w spike \<Rightarrow> bool" where
  "spk_ok E k R m L s \<longleftrightarrow> g_page_size s \<in> {0, 2 ^ k} \<and> stack_inv (b_view E) (2 ^ k) (spk_stack s) \<and>
     live_of s = L \<and> (\<forall>r \<in> L. 2 ^ k dvd unat (fst r)) \<and> R m (stack_mem (spk_stack s))"

lemma spk_ok_page:
  assumes law: "bench_law E k R" and ok: "spk_ok E k R m L s"
  shows "page_size (b_sc E) s = (2 ^ k, s\<lparr>g_page_size := 2 ^ k\<rparr>)" and "spk_ok E k R m L (s\<lparr>g_page_size := 2 ^ k\<rparr>)"
    and "ms_page_size (b_sc E) s = (2 ^ k, s\<lparr>g_page_size := 2 ^ k\<rparr>)"
proof -
  note l = bench_lawD [OF law]
  show p: "page_size (b_sc E) s = (2 ^ k, s\<lparr>g_page_size := 2 ^ k\<rparr>)"
    using ok l(1) by (auto simp: page_size_def spk_ok_def Let_def)
  show "spk_ok E k R m L (s\<lparr>g_page_size := 2 ^ k\<rparr>)"
    using ok by (simp add: spk_ok_def live_of_def)
  have "uint (2 ^ k :: u64) = 2 ^ k" using unat_page(1) [OF l(3)] by (metis of_nat_numeral of_nat_power uint_nat)
  moreover have "(2 ^ k :: int) \<le> 1073741824" using power_increasing [OF l(3), of "2 :: int"] by simp
  ultimately show "ms_page_size (b_sc E) s = (2 ^ k, s\<lparr>g_page_size := 2 ^ k\<rparr>)"
    using p by (simp add: ms_page_size_def c_int_of_id order.trans [OF _ zero_le_power])
qed

lemma spk_ok_put:
  assumes ok: "spk_ok E k R m L s" and w: "R m w"
    and v: "\<And>x. b_view E (stack_mem (spk_stack s)) x \<noteq> None \<Longrightarrow> b_view E w x \<noteq> None"
  shows "spk_ok E k R m L (spk_put w s)"
proof -
  have "stack_inv (b_view E) (2 ^ k) (spk_stack s)" using ok by (simp add: spk_ok_def)
  then have "stack_inv (b_view E) (2 ^ k) (spk_stack (spk_put w s))"
    by (rule stack_inv_unmapped_change) (simp_all add: spk_put_def v)
  then show ?thesis using ok w by (simp add: spk_ok_def spk_put_def live_of_def)
qed

subsection \<open>Allocation and release\<close>


definition span :: "nat \<Rightarrow> size_t \<Rightarrow> nat" where
  "span k bytes = nat_round_up (if bytes = 0 then 2 ^ k else unat bytes) (2 ^ k)"

lemma span_bounds:
  "span k bytes \<le> unat bytes + 2 ^ k" "2 ^ k \<le> span k bytes" "2 ^ k dvd span k bytes"
proof -
  define n where "n = (if bytes = 0 then 2 ^ k else unat bytes)"
  have n: "0 < n" by (simp add: n_def unat_gt_0)
  show d: "2 ^ k dvd span k bytes" by (simp add: span_def)
  have "0 < span k bytes" using nat_round_up_pos [OF _ n, of "2 ^ k"] by (simp add: span_def n_def)
  then show "2 ^ k \<le> span k bytes" by (simp add: dvd_imp_le d)
  show "span k bytes \<le> unat bytes + 2 ^ k"
    using nat_round_up_less [of "2 ^ k" n] nat_round_up_id [of "2 ^ k" "2 ^ k"]
    by (auto simp: span_def n_def)
qed

lemma unat_span:
  assumes "k \<le> 30" and "unat bytes \<le> 1073741824"
  shows "unat (round_up (if bytes = 0 then 2 ^ k else bytes) (2 ^ k)) = span k bytes"
    and "unat (round_up (if bytes = 0 then 2 ^ k else bytes) (2 ^ k) + 2 ^ k) = span k bytes + 2 ^ k"
proof -
  note p = unat_page [OF assms(1)]
  have p0: "(2 ^ k :: u64) \<noteq> 0" using p(1) by (auto simp: word_eq_unat)
  show u: "unat (round_up (if bytes = 0 then 2 ^ k else bytes) (2 ^ k)) = span k bytes"
    using p assms(2) unat_round_up [OF p0, of "if bytes = 0 then 2 ^ k else bytes"] by (auto simp: span_def)
  show "unat (round_up (if bytes = 0 then 2 ^ k else bytes) (2 ^ k) + 2 ^ k) = span k bytes + 2 ^ k"
    using u p assms(2) span_bounds(1) [of k bytes] by (subst unat_add64) auto
qed

text \<open>
  A fresh stack: its guard page cannot be written, everything from there to the top can.
\<close>

definition stack_at :: "'w bench \<Rightarrow> nat \<Rightarrow> addr \<Rightarrow> nat \<Rightarrow> 'w \<Rightarrow> bool" where
  "stack_at E k base n w \<longleftrightarrow> base \<noteq> 0 \<and> 2 ^ k dvd unat base \<and> unat base + 2 ^ k + n < 18446744073709551616 \<and>
     (\<forall>x. in_range base (2 ^ k) x \<longrightarrow> \<not> writable (b_view E w x)) \<and>
     (\<forall>x. unat base + 2 ^ k \<le> unat x \<longrightarrow> unat x < unat base + 2 ^ k + n \<longrightarrow> writable (b_view E w x))"

text \<open>The two kernel calls of an allocation.\<close>

lemma spk_map:
  assumes law: "bench_law E k R" and td: "2 ^ k dvd unat tot" and le: "2 ^ k \<le> unat tot" and room: "R (unat tot + m) w"
  obtains base w1 w2 where "k_mmap (b_kernel E) 0 tot PROT_RW False w = (Inr base, w1)"
    "k_mprotect (b_kernel E) base (2 ^ k) PROT_NONE w1 = (Inr (), w2)" "R m w2"
    "base \<noteq> 0" "2 ^ k dvd unat base" "unat base + unat tot < 18446744073709551616"
    "\<And>x. in_range base tot x \<Longrightarrow> b_view E w x = None"
    "\<And>x. b_view E w2 x = (if in_range base (2 ^ k) x then Some (PROT_NONE, 0)
      else if in_range base tot x then Some (PROT_RW, 0) else b_view E w x)"
proof -
  note l = bench_lawD [OF law] note p = unat_page [OF l(3)]
  have nz: "tot \<noteq> 0" using le by auto
  obtain base w1 where m1: "k_mmap (b_kernel E) 0 tot PROT_RW False w = (Inr base, w1)" and R1: "R m w1"
    using room_lawD(1) [OF l(6) nz td room] by blast
  note a = mmap_anon_lawD [OF l(4) td m1]
  have sub: "in_range base (2 ^ k) x \<Longrightarrow> in_range base tot x" for x
    using p le by (simp add: in_range_def)
  have "mapped E (2 ^ k) base (2 ^ k) w1"
    using a(2,5) sub p(1) by (auto simp: mapped_def word_eq_unat)
  then obtain w2 where m2: "k_mprotect (b_kernel E) base (2 ^ k) PROT_NONE w1 = (Inr (), w2)" and R2: "R m w2"
    using room_lawD(2) [OF l(6) R1] by blast
  have "b_view E w2 x = (if in_range base (2 ^ k) x then Some (PROT_NONE, 0)
      else if in_range base tot x then Some (PROT_RW, 0) else b_view E w x)" for x
    using mprotect_lawD [OF l(4) _ m2, of x] a(5) [of x] sub [of x] p(1) by (auto simp: set_prot_def)
  then show ?thesis using that [OF m1 m2 R2 a(1-4)] by blast
qed

lemma spk_alloc_ok:
  assumes law: "bench_law E k R" and ok: "spk_ok E k R (unat bytes + 2 * 2 ^ k + m) L s"
    and small: "unat bytes \<le> 1073741824"
  obtains base tot s' where
    "ms_stack_alloc (b_kernel E) (b_sc E) (b_mem E) bytes (Some b0) (Some p0) s =
       (0, Some base, Some (base + 2 ^ k + round_up (if bytes = 0 then 2 ^ k else bytes) (2 ^ k)), s')"
    "spk_ok E k R m (insert (base, tot) L) s'" "unat tot = span k bytes + 2 ^ k"
    "stack_at E k base (span k bytes) (stack_mem (spk_stack s'))" "\<forall>r \<in> L. fst r \<noteq> base" "spk_errno s' = spk_errno s"
proof -
  note l = bench_lawD [OF law] note pg = spk_ok_page [OF law ok] note p = unat_page [OF l(3)]
  define s1 where "s1 = s\<lparr>g_page_size := 2 ^ k\<rparr>"
  define us where "us = round_up (if bytes = 0 then 2 ^ k else bytes) (2 ^ k)"
  define tot where "tot = us + 2 ^ k"
  define w where "w = stack_mem (spk_stack s1)"
  note u = unat_span [OF l(3) small, folded us_def, folded tot_def] and sb = span_bounds [of k bytes]
  have inv: "stack_inv (b_view E) (2 ^ k) (spk_stack s1)" and L: "live_of s1 = L"
    and al: "\<forall>r \<in> L. 2 ^ k dvd unat (fst r)" and Rm: "R (unat bytes + 2 * 2 ^ k + m) w"
    using pg(2) by (simp_all add: spk_ok_def s1_def w_def)
  have td: "2 ^ k dvd unat tot" using u(2) sb(3) by simp
  have "R (unat tot + m) w" using room_lawD(6) [OF l(6) Rm] u(2) sb(1) by simp
  moreover have "2 ^ k \<le> unat tot" using u(2) by simp
  ultimately obtain base w1 w2 where m1: "k_mmap (b_kernel E) 0 tot PROT_RW False w = (Inr base, w1)"
    and m2: "k_mprotect (b_kernel E) base (2 ^ k) PROT_NONE w1 = (Inr (), w2)" and R2: "R m w2"
    and a: "base \<noteq> 0" "2 ^ k dvd unat base" "unat base + unat tot < 18446744073709551616"
      "\<And>x. in_range base tot x \<Longrightarrow> b_view E w x = None"
    and v2: "\<And>x. b_view E w2 x = (if in_range base (2 ^ k) x then Some (PROT_NONE, 0)
      else if in_range base tot x then Some (PROT_RW, 0) else b_view E w x)"
    using spk_map [OF law td, of m w] by blast
  have "\<exists>r. stack_record True base tot q = Some r" for q :: "'a stack_state"
    by (auto simp: stack_record_def split: option.splits)
  then obtain r where r: "stack_record (b_mem E) base tot (spk_stack (spk_put w2 s1)) = Some r"
    using l(9) by auto
  note rec = stack_record_SomeD [OF r]
  define s' where "s' = s1\<lparr>spk_stack := r\<rparr>"
  have g: "g_resv r = slot_place stack_live (base, tot) (g_resv (spk_stack s1))" "stack_mem r = w2"
    using rec by (simp_all add: spk_put_def)
  have cap: "length (g_resv r) \<le> g_resv_cap r"
    using rec(3) inv by (simp add: spk_put_def stack_inv_def)
  have inv': "stack_inv (b_view E) (2 ^ k) r"
    by (rule stack_inv_place [OF inv _ _ td a(1) _ _ g(1) cap])
      (use a(4) v2 u(2) p(1) in \<open>auto simp: w_def g(2) in_range_def\<close>)
  have live: "live_of s' = insert (base, tot) L"
    using L a(1) by (auto simp: live_of_def s'_def g(1) stk.in_place_iff)
  have ok': "spk_ok E k R m (insert (base, tot) L) s'"
    using inv' live al a(2) R2 by (simp add: spk_ok_def s'_def s1_def g(2))
  have at: "stack_at E k base (span k bytes) (stack_mem (spk_stack s'))"
    using a(1-3) u(2) p(1) by (auto simp: stack_at_def s'_def g(2) v2 writable_def in_range_def)
  have fresh: "\<forall>r \<in> L. fst r \<noteq> base"
    using live_apart [OF inv, where base = base and tot = tot] a(4) u(2) L by (auto simp: live_of_def w_def)
  have nb: "\<not> bytes > - 1 - 2 * 2 ^ k"
  proof -
    have "unat (2 * 2 ^ k :: u64) = 2 * 2 ^ k" using p by (subst unat_mult64) auto
    then show ?thesis using small p(2) by (simp add: word_less_unat unat_sub_max)
  qed
  have "ms_stack_alloc (b_kernel E) (b_sc E) (b_mem E) bytes (Some b0) (Some p0) s =
      (0, Some base, Some (base + 2 ^ k + us), s')"
    using pg(1) nb m1 m2 r
    by (simp add: ms_stack_alloc_def spk_round_up_eq Let_def us_def [symmetric] tot_def [symmetric] s1_def [symmetric]
      w_def [symmetric] s'_def)
  then show ?thesis
    using that ok' u(2) at fresh by (simp add: us_def s'_def s1_def)
qed

lemma spk_free_ok:
  assumes law: "bench_law E k R" and ok: "spk_ok E k R m L s" and r: "(b, n) \<in> L"
  shows "spk_ok E k R m (L - {(b, n)}) (ms_stack_free (b_kernel E) b s)"
proof -
  note l = bench_lawD [OF law]
  have inv: "stack_inv (b_view E) (2 ^ k) (spk_stack s)" and L: "live_of s = L"
    and al: "2 ^ k dvd unat b" and Rm: "R m (stack_mem (spk_stack s))" using ok r by (auto simp: spk_ok_def)
  have mem: "(b, n) \<in> set (g_resv (spk_stack s))" "b \<noteq> 0" using r L by (auto simp: live_of_def)
  have wf: "slots_wf stack_live fst (g_resv (spk_stack s))" using inv by (simp add: stack_inv_def)
  have eq: "(\<lambda>r. stack_live r \<and> fst r = b) = (\<lambda>r. fst r = b)" using mem(2) by (auto simp: stack_live_def)
  have "slot_lookup stack_live fst b (g_resv (spk_stack s)) = Some (b, n)"
    using mem by (simp add: stk.lookup_Some_iff [OF wf])
  then obtain i where i: "scan (\<lambda>r. fst r = b) (g_resv (spk_stack s)) = Some i" and ri: "g_resv (spk_stack s) ! i = (b, n)"
    by (auto simp: slot_lookup_def eq split: option.splits)
  have nd: "2 ^ k dvd unat n" "0 < unat n" and mp: "\<forall>x. in_range b n x \<longrightarrow> b_view E (stack_mem (spk_stack s)) x \<noteq> None"
    using inv mem unfolding stack_inv_def by fastforce+
  then have "mapped E (2 ^ k) b n (stack_mem (spk_stack s))" using al by (auto simp: mapped_def)
  then obtain w' where u: "k_munmap (b_kernel E) b n (stack_mem (spk_stack s)) = (Inr (), w')" and R': "R m w'"
    using room_lawD(3) [OF l(6) Rm] by blast
  define s' where "s' = s\<lparr>spk_stack := (spk_stack s)\<lparr>g_resv := (g_resv (spk_stack s))[i := (0, 0)], stack_mem := w'\<rparr>\<rparr>"
  have "length (g_resv (spk_stack s)) \<le> g_resv_cap (spk_stack s)" using inv by (simp add: stack_inv_def)
  then have "g_resv_cap (spk_stack s) \<noteq> 0" using length_pos_if_in_set [OF mem(1)] by linarith
  then have f: "ms_stack_free (b_kernel E) b s = s'"
    using mem(2) i ri u by (simp add: ms_stack_free_def s'_def)
  have "stack_inv (b_view E) (2 ^ k) (spk_stack s')"
    by (rule stack_inv_retire [OF inv i mem(2)]) (use munmap_lawD [OF l(4) nd(1) u] ri in \<open>simp_all add: s'_def\<close>)
  moreover have "live_of s' = L - {(b, n)}"
  proof -
    have "r \<in> set (g_resv (spk_stack s)) \<and> fst r \<noteq> b \<longleftrightarrow> r \<in> set (g_resv (spk_stack s)) \<and> r \<noteq> (b, n)" if "stack_live r" for r
      using wf mem that unfolding slots_wf_def by (metis fst_conv in_set_conv_nth stack_live_pair)
    then show ?thesis
      using stk.in_retire_iff [OF wf i [folded eq]] L by (auto simp: live_of_def s'_def)
  qed
  ultimately show ?thesis
    using ok R' by (simp add: spk_ok_def f s'_def)
qed

lemma distinct_singleton:
  assumes "distinct ys" and "set ys = {x}"
  shows "ys = [x]"
proof (cases ys)
  case (Cons y zs)
  then have "y = x" "x \<notin> set zs" "set zs \<subseteq> {x}" using assms by auto
  then show ?thesis using Cons by (cases zs) auto
qed (use assms in simp)

lemma spk_total_eq: "ms_stack_total_size s = sum_list (map snd (filter stack_live (g_resv (spk_stack s))))"
proof -
  have "foldl (\<lambda>tot r. if fst r \<noteq> 0 then tot + snd r else tot) a ys = a + sum_list (map snd (filter stack_live ys))"
    for a and ys :: "mjs_reservation list"
    by (induction ys arbitrary: a) (auto simp: stack_live_def)
  then show ?thesis by (simp add: ms_stack_total_size_def)
qed

lemma spk_total:
  assumes "spk_ok E k R m {(b, n)} s"
  shows "ms_stack_total_size s = n"
proof -
  define xs where "xs = g_resv (spk_stack s)"
  have wf: "slots_wf stack_live fst xs" and L: "{r \<in> set xs. stack_live r} = {(b, n)}"
    using assms by (auto simp: spk_ok_def stack_inv_def live_of_def xs_def)
  have "distinct (filter stack_live xs)"
    using wf unfolding slots_wf_def
  proof (induction xs)
    case (Cons y ys)
    have "distinct (filter stack_live ys)" using Cons by (fastforce dest: spec [of _ "Suc _"])
    moreover have "stack_live y \<Longrightarrow> y \<notin> set ys"
      using Cons.prems by (fastforce simp: in_set_conv_nth)
    ultimately show ?case by simp
  qed simp
  moreover have "set (filter stack_live xs) = {(b, n)}" using L by simp
  ultimately have "filter stack_live xs = [(b, n)]"
    by (rule distinct_singleton)
  then show ?thesis by (simp add: spk_total_eq xs_def [symmetric])
qed

section \<open>A bench on the flat address space\<close>

definition flat_poke :: "addr \<Rightarrow> 8 word \<Rightarrow> flat_space \<Rightarrow> flat_space" where
  "flat_poke a v s = (fst s, (snd s)(a := map_option (\<lambda>(p, _). (p, v)) (snd s a)))"

definition flat_bench :: "flat_space bench" where
  "flat_bench = \<lparr>b_kernel = flat_kernel (2 ^ 40), b_view = flat_view, b_poke = flat_poke,
     b_sig = (\<lambda>_. True), b_sc = 4096, b_mem = True, b_printf = (\<lambda>e. e)\<rparr>"

definition flat_room :: "nat \<Rightarrow> flat_space \<Rightarrow> bool" where
  "flat_room m s \<longleftrightarrow> 16 \<le> fst s \<and> fst s * 4096 + m \<le> 2 ^ 40"

lemma flat_mapped_end:
  assumes "\<And>x. in_range a n x \<Longrightarrow> flat_view s x \<noteq> None" and "n \<noteq> 0" and "fst s * 4096 \<le> 2 ^ 40"
  shows "unat a + unat n \<le> 2 ^ 40"
proof (rule ccontr)
  assume "\<not> ?thesis"
  moreover have n: "0 < unat n" using assms(2) by (simp add: unat_gt_0)
  ultimately have big: "2 ^ 40 \<le> unat a + (unat n - 1)" by linarith
  define y where "y = min (unat a + (unat n - 1)) 18446744073709551615"
  have uy: "unat (of_nat y :: u64) = y" by (rule unat_of_nat64) (simp add: y_def)
  have "in_range a n (of_nat y)"
    unfolding in_range_def uy using n unat_le64 [of a] by (auto simp: y_def)
  from assms(1) [OF this] have "y < fst s * 4096" by (auto simp: flat_view_def uy split: if_splits)
  then show False using big assms(3) by (auto simp: y_def)
qed

lemma flat_bench_room: "room_law flat_bench 4096 flat_room"
  unfolding room_law_def
proof (intro conjI allI impI)
  fix m and n :: size_t and w :: flat_space
  assume nz: "n \<noteq> 0" and d: "4096 dvd unat n" and r: "flat_room (unat n + m) w"
  from d obtain q where q: "unat n = 4096 * q" by (rule dvdE)
  have "max 16 (fst w) = fst w" using r by (simp add: flat_room_def)
  then show "\<exists>b w'. k_mmap (b_kernel flat_bench) 0 n PROT_RW False w = (Inr b, w') \<and> flat_room m w'"
    using r q nz by (simp add: flat_bench_def flat_kernel_def flat_room_def Let_def)
next
  fix m a and n :: size_t and w :: flat_space
  assume r: "flat_room m w" and mp: "mapped flat_bench 4096 a n w"
  then have "unat a + unat n \<le> 2 ^ 40"
    by (intro flat_mapped_end [where s = w]) (auto simp: mapped_def flat_bench_def flat_room_def)
  moreover have "n \<noteq> 0" using mp by (simp add: mapped_def)
  ultimately show "\<exists>w'. k_mprotect (b_kernel flat_bench) a n PROT_NONE w = (Inr (), w') \<and> flat_room m w'"
    "\<exists>w'. k_munmap (b_kernel flat_bench) a n w = (Inr (), w') \<and> flat_room m w'"
    using r by (simp_all add: flat_bench_def flat_kernel_def flat_room_def)
next
  fix m and n :: size_t and w :: flat_space
  assume r: "flat_room m w" and n: "9223372036854775808 \<le> unat n"
  then show "\<exists>e w'. k_mmap (b_kernel flat_bench) 0 n PROT_RW False w = (Inl e, w') \<and> flat_room m w'"
    by (cases w) (auto simp: flat_bench_def flat_kernel_def flat_room_def Let_def)
next
  fix m a v and w :: flat_space
  assume "flat_room m w"
  then show "flat_room m (b_poke flat_bench a v w)" by (simp add: flat_room_def flat_bench_def flat_poke_def)
qed (simp add: flat_room_def)

lemma flat_bench_law: "bench_law flat_bench 12 flat_room"
proof -
  have "poke_law flat_bench"
    by (auto simp: poke_law_def flat_bench_def flat_poke_def flat_view_def writable_def split: option.splits if_splits)
  then show ?thesis
    using flat_bench_room flat_kernel_posix [of "2 ^ 40"] by (simp add: bench_law_def) (simp add: flat_bench_def)
qed

end
