(* ===== verification/Mjs_Selftest.thy ===== *)
theory Mjs_Selftest
  imports Mjs_SpikeStack
begin

text \<open>
  The selftest of the spike's stack allocator (spike/context\_switch/selftest.c), a program over
  Mjs\_SpikeStack: it counts its checks, installs signal handlers, and probes memory by touching it.
  What it prints is left out; what printing does to \<open>errno\<close> is kept.
\<close>

section \<open>Definitions\<close>

text \<open>The handlers by signal are numbers; 1 is \<open>fault_handler\<close>.\<close>

abbreviation (input) fault_handler :: nat where "fault_handler \<equiv> 1"

record 'w selftest =
  t_spike :: "'w spike"
  t_sigs :: "int \<Rightarrow> nat"
  g_faulted :: int
  g_checks_failed :: int
  g_checks_total :: int

text \<open>A call of \<open>printf\<close>, of which only what it does to \<open>errno\<close> is kept.\<close>

definition t_printf :: "'w bench \<Rightarrow> 'w selftest \<Rightarrow> 'w selftest" where
  "t_printf E t = t\<lparr>t_spike := (t_spike t)\<lparr>spk_errno := b_printf E (spk_errno (t_spike t))\<rparr>\<rparr>"

definition CHECK :: "'w bench \<Rightarrow> bool \<Rightarrow> 'w selftest \<Rightarrow> 'w selftest" where
  "CHECK E c t =
     (let t1 = t\<lparr>g_checks_total := g_checks_total t + 1\<rparr>; t2 = t_printf E t1
      in if c then t2 else t2\<lparr>g_checks_failed := g_checks_failed t2 + 1\<rparr>)"

definition install_fault_handlers :: "'w bench \<Rightarrow> 'w selftest \<Rightarrow> int \<times> nat \<times> nat \<times> 'w selftest" where
  "install_fault_handlers E t =
     (if \<not> b_sig E SIGSEGV then (- 1, 0, 0, t)
      else
        let old_segv = t_sigs t SIGSEGV; t1 = t\<lparr>t_sigs := (t_sigs t)(SIGSEGV := fault_handler)\<rparr>
        in if \<not> b_sig E SIGBUS then (- 1, old_segv, 0, t1\<lparr>t_sigs := (t_sigs t1)(SIGSEGV := old_segv)\<rparr>)
           else (0, old_segv, t_sigs t1 SIGBUS, t1\<lparr>t_sigs := (t_sigs t1)(SIGBUS := fault_handler)\<rparr>))"

definition restore_fault_handlers :: "nat \<Rightarrow> nat \<Rightarrow> 'w selftest \<Rightarrow> 'w selftest" where
  "restore_fault_handlers old_segv old_bus t = t\<lparr>t_sigs := (t_sigs t)(SIGSEGV := old_segv, SIGBUS := old_bus)\<rparr>"

text \<open>
  A store that faults runs \<open>fault_handler\<close>, which records the fault and jumps back; otherwise the
  byte is read back.
\<close>

definition probe_touch :: "'w bench \<Rightarrow> addr \<Rightarrow> 'w selftest \<Rightarrow> int \<times> 'w selftest" where
  "probe_touch E a t =
     (let t1 = t\<lparr>g_faulted := 0\<rparr>; w = stack_mem (spk_stack (t_spike t1));
          t2 = (if \<not> writable (b_view E w a) then t1\<lparr>g_faulted := 1\<rparr>
                else
                  let w' = b_poke E a 42 w; t' = t1\<lparr>t_spike := spk_put w' (t_spike t1)\<rparr>
                  in if snd (the (b_view E w' a)) \<noteq> 42 then t'\<lparr>g_faulted := 1\<rparr> else t')
      in (if g_faulted t2 = 1 then 1 else 0, t2))"

definition check_fault :: "'w bench \<Rightarrow> int \<Rightarrow> addr \<Rightarrow> 'w selftest \<Rightarrow> 'w selftest" where
  "check_fault E expect_fault a t =
     (let t1 = t\<lparr>g_checks_total := g_checks_total t + 1\<rparr>; (rc, old_segv, old_bus, t2) = install_fault_handlers E t1
      in if rc \<noteq> 0 then let t3 = t_printf E t2 in t3\<lparr>g_checks_failed := g_checks_failed t3 + 1\<rparr>
         else
           let (faulted, t3) = probe_touch E a t2; t4 = t_printf E (restore_fault_handlers old_segv old_bus t3)
           in if faulted = expect_fault then t4 else t4\<lparr>g_checks_failed := g_checks_failed t4 + 1\<rparr>)"

definition roundup_ps :: "size_t \<Rightarrow> size_t \<Rightarrow> size_t" where
  "roundup_ps n ps = (n + ps - 1) div ps * ps"

text \<open>The calls of the allocator from the test functions, on their locals \<open>base\<close> and \<open>top\<close>.\<close>

definition t_page_size :: "'w bench \<Rightarrow> 'w selftest \<Rightarrow> int \<times> 'w selftest" where
  "t_page_size E t = (let (ps, s) = ms_page_size (b_sc E) (t_spike t) in (ps, t\<lparr>t_spike := s\<rparr>))"

definition t_alloc :: "'w bench \<Rightarrow> size_t \<Rightarrow> addr \<Rightarrow> addr \<Rightarrow> 'w selftest \<Rightarrow> int \<times> addr \<times> addr \<times> 'w selftest" where
  "t_alloc E bytes base topp t =
     (let (rc, ob, ot, s) = ms_stack_alloc (b_kernel E) (b_sc E) (b_mem E) bytes (Some base) (Some topp) (t_spike t)
      in (rc, the ob, the ot, t\<lparr>t_spike := s\<rparr>))"

definition t_free :: "'w bench \<Rightarrow> addr \<Rightarrow> 'w selftest \<Rightarrow> 'w selftest" where
  "t_free E base t = t\<lparr>t_spike := ms_stack_free (b_kernel E) base (t_spike t)\<rparr>"

definition test_page_size :: "'w bench \<Rightarrow> 'w selftest \<Rightarrow> 'w selftest" where
  "test_page_size E t =
     (let (ps, t1) = t_page_size E t; t2 = CHECK E (ps > 0) t1
      in CHECK E (ps \<ge> 4096 \<and> ps AND (ps - 1) = 0) t2)"

definition test_alloc_layout :: "'w bench \<Rightarrow> 'w selftest \<Rightarrow> 'w selftest" where
  "test_alloc_layout E t =
     (let (psi, t1) = t_page_size E t; ps = of_int psi; want = 64 * 1024;
          (rc, base, topp, t2) = t_alloc E want 0 0 t1;
          t3 = CHECK E (rc = 0) t2;
          t4 = CHECK E (base \<noteq> 0 \<and> topp \<noteq> 0) t3;
          t5 = CHECK E (base mod ps = 0) t4;
          t6 = check_fault E 1 base t5;
          t7 = CHECK E (topp AND 15 = 0) t6;
          t8 = CHECK E (topp > base + ps) t7;
          t9 = CHECK E (topp \<le> base + ps + roundup_ps want ps) t8;
          t10 = check_fault E 0 (base + ps) t9;
          t11 = check_fault E 0 (topp - 1) t10;
          t12 = CHECK E (ms_stack_total_size (t_spike t11) = ps + roundup_ps want ps) t11
      in t_printf E (t_free E base t12))"

definition test_nonmoving_and_multiple :: "'w bench \<Rightarrow> 'w selftest \<Rightarrow> 'w selftest" where
  "test_nonmoving_and_multiple E t =
     (let (ra, a_base, a_top, t1) = t_alloc E (32 * 1024) 0 0 t; t2 = CHECK E (ra = 0) t1;
          (rb, b_base, b_top, t3) = t_alloc E (32 * 1024) 0 0 t2; t4 = CHECK E (rb = 0) t3;
          t5 = CHECK E (a_base \<noteq> b_base) t4;
          a_before = a_base; a_top_before = a_top;
          (rc, c_base, c_top, t6) = t_alloc E (128 * 1024) 0 0 t5; t7 = CHECK E (rc = 0) t6;
          t8 = CHECK E (a_base = a_before \<and> a_top = a_top_before) t7;
          t9 = CHECK E (c_base \<noteq> a_before \<and> c_base \<noteq> b_base) t8;
          t10 = t_free E c_base (t_free E b_base (t_free E a_base t9));
          (rd, d_base, d_top, t11) = t_alloc E (48 * 1024) 0 0 t10; t12 = CHECK E (rd = 0) t11
      in t_free E d_base t12)"

text \<open>MAP\_FAILED is the address -1.\<close>

definition test_zero_bytes_minimum :: "'w bench \<Rightarrow> 'w selftest \<Rightarrow> 'w selftest" where
  "test_zero_bytes_minimum E t =
     (let (psi, t1) = t_page_size E t; ps = of_int psi;
          (rc, base, topp, t2) = t_alloc E 0 0 0 t1;
          t3 = CHECK E (rc = 0) t2;
          t4 = CHECK E (base \<noteq> 0 \<and> topp \<noteq> 0) t3;
          t5 = CHECK E (base \<noteq> - 1) t4;
          t6 = CHECK E (topp \<ge> base + 2 * ps) t5;
          t7 = CHECK E (ms_stack_total_size (t_spike t6) \<ge> 2 * ps) t6;
          t8 = check_fault E 1 base t7;
          t9 = check_fault E 0 (topp - 1) t8
      in t_free E base t9)"

definition test_overflow_rejected :: "'w bench \<Rightarrow> 'w selftest \<Rightarrow> 'w selftest" where
  "test_overflow_rejected E t =
     (let b0 = 0xdeadbeef; p0 = 0xdeadbeef;
          (r1, b1, p1, t1) = t_alloc E (- 1) b0 p0 t; t2 = CHECK E (r1 = - 1) t1;
          t3 = CHECK E (spk_errno (t_spike t2) = EINVAL) t2;
          t4 = CHECK E (b1 = 0xdeadbeef \<and> p1 = 0xdeadbeef) t3;
          (r2, b2, p2, t5) = t_alloc E (- 1 div 2 + 1) b1 p1 t4; t6 = CHECK E (r2 = - 1) t5;
          (r3, b3, p3, t7) = t_alloc E (16 * 1024) b2 p2 t6; t8 = CHECK E (r3 = 0) t7
      in t_free E b3 t8)"

definition selftest_main :: "'w bench \<Rightarrow> 'w selftest \<Rightarrow> int \<times> 'w selftest" where
  "selftest_main E t =
     (let t' = test_overflow_rejected E (test_zero_bytes_minimum E (test_nonmoving_and_multiple E
                 (test_alloc_layout E (test_page_size E t))))
      in (if g_checks_failed t' = 0 then 0 else 1, t_printf E t'))"

definition selftest_boot :: "flat_space selftest" where
  "selftest_boot = \<lparr>t_spike = \<lparr>spk_stack = stack_boot, g_page_size = 0, spk_errno = 0\<rparr>,
     t_sigs = (\<lambda>_. 0), g_faulted = 0, g_checks_failed = 0, g_checks_total = 0\<rparr>"

section \<open>Lemmas\<close>

lemma roundup_ps_eq: "roundup_ps = round_up"
  by (intro ext) (simp add: roundup_ps_def round_up_def)

abbreviation tmem :: "'w selftest \<Rightarrow> 'w" where
  "tmem t \<equiv> stack_mem (spk_stack (t_spike t))"

definition tok :: "'w bench \<Rightarrow> nat \<Rightarrow> (nat \<Rightarrow> 'w \<Rightarrow> bool) \<Rightarrow> nat \<Rightarrow> mjs_reservation set \<Rightarrow> int \<Rightarrow> (int \<Rightarrow> nat) \<Rightarrow> 'w selftest \<Rightarrow> bool" where
  "tok E k R m L n \<sigma> t \<longleftrightarrow> spk_ok E k R m L (t_spike t) \<and> g_checks_failed t = 0 \<and> g_checks_total t = n \<and> t_sigs t = \<sigma>"

lemma tok_CHECK: "tok E k R m L n \<sigma> t \<Longrightarrow> c \<Longrightarrow> tok E k R m L (n + 1) \<sigma> (CHECK E c t)"
  by (simp add: tok_def CHECK_def t_printf_def spk_ok_def live_of_def Let_def)

lemma CHECK_spike [simp]:
  "spk_stack (t_spike (CHECK E c t)) = spk_stack (t_spike t)"
  "ms_stack_total_size (t_spike (CHECK E c t)) = ms_stack_total_size (t_spike t)"
  by (simp_all add: CHECK_def t_printf_def Let_def ms_stack_total_size_def)

lemma t_printf_id: "bench_law E k R \<Longrightarrow> t_printf E t = t"
  by (simp add: t_printf_def bench_lawD(10))

lemma CHECK_errno: "bench_law E k R \<Longrightarrow> spk_errno (t_spike (CHECK E c t)) = spk_errno (t_spike t)"
  by (simp add: CHECK_def Let_def t_printf_id)

lemma tok_page:
  assumes "bench_law E k R" and "tok E k R m L n \<sigma> t"
  obtains t' where "t_page_size E t = (2 ^ k, t')" "tok E k R m L n \<sigma> t'"
  using spk_ok_page [OF assms(1), of m L "t_spike t"] assms(2) that
  by (simp add: tok_def t_page_size_def)

lemma tok_alloc:
  assumes "bench_law E k R" and "tok E k R (unat bytes + 2 * 2 ^ k + m) L n \<sigma> t" and "unat bytes \<le> 1073741824"
  obtains base tot t' where
    "t_alloc E bytes b0 p0 t = (0, base, base + 2 ^ k + round_up (if bytes = 0 then 2 ^ k else bytes) (2 ^ k), t')"
    "tok E k R m (insert (base, tot) L) n \<sigma> t'" "unat tot = span k bytes + 2 ^ k"
    "stack_at E k base (span k bytes) (tmem t')" "\<forall>r \<in> L. fst r \<noteq> base"
proof -
  have "spk_ok E k R (unat bytes + 2 * 2 ^ k + m) L (t_spike t)" using assms(2) by (simp add: tok_def)
  then obtain base tot s' where a:
    "ms_stack_alloc (b_kernel E) (b_sc E) (b_mem E) bytes (Some b0) (Some p0) (t_spike t) =
       (0, Some base, Some (base + 2 ^ k + round_up (if bytes = 0 then 2 ^ k else bytes) (2 ^ k)), s')"
    "spk_ok E k R m (insert (base, tot) L) s'" "unat tot = span k bytes + 2 ^ k"
    "stack_at E k base (span k bytes) (stack_mem (spk_stack s'))" "\<forall>r \<in> L. fst r \<noteq> base" "spk_errno s' = spk_errno (t_spike t)"
    by (rule spk_alloc_ok [OF assms(1) _ assms(3)])
  show ?thesis
    by (rule that [of base "t\<lparr>t_spike := s'\<rparr>" tot]) (use a assms(2) in \<open>simp_all add: t_alloc_def tok_def\<close>)
qed

lemma tok_free:
  assumes "bench_law E k R" and "tok E k R m L n \<sigma> t" and "(b, sz) \<in> L"
  shows "tok E k R m (L - {(b, sz)}) n \<sigma> (t_free E b t)"
  using spk_free_ok [OF assms(1) _ assms(3)] assms(2) by (simp add: tok_def t_free_def)

lemma check_fault_ok:
  assumes law: "bench_law E k R" and ok: "tok E k R m L n \<sigma> t"
    and ef: "ef = (if writable (b_view E (tmem t) a) then 0 else 1)"
  shows "tok E k R m L (n + 1) \<sigma> (check_fault E ef a t)"
    and "writable (b_view E (tmem (check_fault E ef a t)) x) = writable (b_view E (tmem t) x)"
proof -
  note l = bench_lawD [OF law]
  define w' where "w' = (if writable (b_view E (tmem t) a) then b_poke E a 42 (tmem t) else tmem t)"
  have pk: "b_view E (b_poke E a 42 (tmem t)) y = (if y = a then Some (PROT_RW, 42) else b_view E (tmem t) y)"
    if "writable (b_view E (tmem t) a)" for y
    using l(5) that unfolding poke_law_def by blast
  have wr: "writable (b_view E w' y) = writable (b_view E (tmem t) y)"
    and mp: "b_view E (tmem t) y \<noteq> None \<Longrightarrow> b_view E w' y \<noteq> None" for y
    using pk [of y] by (auto simp: w'_def writable_def)
  have sigs: "(t_sigs t)(SIGSEGV := fault_handler, SIGBUS := fault_handler, SIGSEGV := t_sigs t SIGSEGV, SIGBUS := t_sigs t SIGBUS) = t_sigs t"
    by auto
  have cf: "t_spike (check_fault E ef a t) = spk_put w' (t_spike t)" "g_checks_failed (check_fault E ef a t) = g_checks_failed t"
    "g_checks_total (check_fault E ef a t) = g_checks_total t + 1" "t_sigs (check_fault E ef a t) = t_sigs t"
    using l(7,8) ef pk [of a] sigs
    by (simp_all add: check_fault_def install_fault_handlers_def probe_touch_def restore_fault_handlers_def Let_def w'_def spk_put_def t_printf_id [OF assms(1)])
  have "R m (tmem t)" using ok by (simp add: tok_def spk_ok_def)
  then have "R m w'" using room_lawD(5) [OF l(6)] by (simp add: w'_def)
  then have "spk_ok E k R m L (spk_put w' (t_spike t))"
    using ok by (intro spk_ok_put) (auto simp: tok_def mp)
  then show "tok E k R m L (n + 1) \<sigma> (check_fault E ef a t)"
    using ok cf by (simp add: tok_def)
  show "writable (b_view E (tmem (check_fault E ef a t)) x) = writable (b_view E (tmem t) x)"
    using wr by (simp add: cf(1) spk_put_def)
qed

lemma stack_at_fault:
  assumes "bench_law E k R" and "tok E k R m L n \<sigma> t" and "stack_at E k base sz (tmem t)"
  shows "tok E k R m L (n + 1) \<sigma> (check_fault E 1 base t)" and "stack_at E k base sz (tmem (check_fault E 1 base t))"
proof -
  note l = bench_lawD [OF assms(1)]
  have "in_range base (2 ^ k) base" using unat_page(1) [OF l(3)] by (simp add: in_range_def)
  then have ef: "1 = (if writable (b_view E (tmem t) base) then 0 else 1 :: int)"
    using assms(3) by (simp add: stack_at_def)
  note c = check_fault_ok [OF assms(1,2) ef]
  show "tok E k R m L (n + 1) \<sigma> (check_fault E 1 base t)" by (rule c(1))
  show "stack_at E k base sz (tmem (check_fault E 1 base t))"
    using assms(3) unfolding stack_at_def c(2) .
qed

lemma stack_at_touch:
  assumes "bench_law E k R" and "tok E k R m L n \<sigma> t" and "stack_at E k base sz (tmem t)"
    and "unat base + 2 ^ k \<le> unat a" and "unat a < unat base + 2 ^ k + sz"
  shows "tok E k R m L (n + 1) \<sigma> (check_fault E 0 a t)" and "stack_at E k base sz (tmem (check_fault E 0 a t))"
proof -
  have ef: "0 = (if writable (b_view E (tmem t) a) then 0 else 1 :: int)"
    using assms(3-5) by (simp add: stack_at_def)
  note c = check_fault_ok [OF assms(1,2) ef]
  show "tok E k R m L (n + 1) \<sigma> (check_fault E 0 a t)" by (rule c(1))
  show "stack_at E k base sz (tmem (check_fault E 0 a t))"
    using assms(3) unfolding stack_at_def c(2) .
qed

text \<open>The arithmetic of a fresh stack.\<close>

lemma stack_at_arith:
  assumes "12 \<le> k" and "k \<le> 30" and "stack_at E k base (span k bytes) w" and "unat bytes \<le> 1073741824"
    and "p = base + 2 ^ k + round_up (if bytes = 0 then 2 ^ k else bytes) (2 ^ k)"
  shows "unat p = unat base + 2 ^ k + span k bytes" and "unat (base + 2 ^ k) = unat base + 2 ^ k"
    and "unat (p - 1) = unat base + 2 ^ k + span k bytes - 1" and "p AND 15 = 0" and "base mod 2 ^ k = 0" and "base \<noteq> 0" and "p \<noteq> 0"
proof -
  note g = unat_page [OF assms(2)] and u = unat_span [OF assms(2,4)] and sb = span_bounds [of k bytes]
  have s: "base \<noteq> 0" "2 ^ k dvd unat base" "unat base + 2 ^ k + span k bytes < 18446744073709551616"
    using assms(3) by (auto simp: stack_at_def)
  show b: "unat (base + 2 ^ k) = unat base + 2 ^ k" using s(3) g(1) by (subst unat_add64) auto
  show p: "unat p = unat base + 2 ^ k + span k bytes"
    using s(3) b u(1) by (simp add: assms(5) unat_add64)
  have "1 \<le> unat p" using p zero_less_power [of "2 :: nat" k] by linarith
  then show "unat (p - 1) = unat base + 2 ^ k + span k bytes - 1" using p by (subst unat_sub64) simp_all
  have "2 ^ k dvd unat p" using p s(2) sb(3) by simp
  then have "16 dvd unat p" using page_dvd [OF assms(1)] by (rule dvd_trans [rotated])
  then show "p AND 15 = 0" by (simp add: low4_zero)
  show "base mod 2 ^ k = 0" using s(2) g(1) by (simp add: word_eq_unat unat_mod dvd_eq_mod_eq_0)
  show "base \<noteq> 0" "p \<noteq> 0" using s(1) p by (auto simp: word_eq_unat)
qed

lemma test_page_size_ok:
  assumes "bench_law E k R" and "tok E k R m L n \<sigma> t"
  shows "tok E k R m L (n + 2) \<sigma> (test_page_size E t)"
proof -
  obtain t' where t: "t_page_size E t = (2 ^ k, t')" and ok: "tok E k R m L n \<sigma> t'"
    by (rule tok_page [OF assms])
  have "(4096 :: int) \<le> 2 ^ k"
    using power_increasing [OF bench_lawD(2) [OF assms(1)], of "2 :: int"] by simp
  then have "tok E k R m L (n + 1 + 1) \<sigma> (test_page_size E t)"
    unfolding test_page_size_def t Let_def prod.case by (intro tok_CHECK ok) (simp_all add: int_page_pow2)
  then show ?thesis by (simp add: add.commute)
qed

lemma test_alloc_layout_ok:
  assumes law: "bench_law E k R" and ok: "tok E k R (65536 + 2 * 2 ^ k + m) {} n \<sigma> t"
  shows "tok E k R m {} (n + 10) \<sigma> (test_alloc_layout E t)"
proof -
  note l = bench_lawD [OF law]
  obtain t1 where t1: "t_page_size E t = (2 ^ k, t1)" and ok1: "tok E k R (65536 + 2 * 2 ^ k + m) {} n \<sigma> t1"
    by (rule tok_page [OF law ok])
  let ?n = "span k 65536"
  define p where "p base = base + 2 ^ k + round_up 65536 (2 ^ k)" for base :: addr
  from ok1 obtain base tot t2 where t2: "t_alloc E 65536 0 0 t1 = (0, base, p base, t2)"
    and ok2: "tok E k R m {(base, tot)} n \<sigma> t2" and tot: "unat tot = ?n + 2 ^ k" and at2: "stack_at E k base ?n (tmem t2)"
    by (rule tok_alloc [OF law, where bytes = 65536 and L = "{}", simplified, folded p_def])
  note ar = stack_at_arith [OF l(2,3) at2, of "p base", unfolded p_def, simplified]
  note sb = span_bounds [of k 65536] and u = unat_span [OF l(3), of 65536, simplified]
  have le: "(4096 :: nat) \<le> 2 ^ k" by (rule page_ge [OF l(2)])
  define t5 where "t5 = CHECK E (base mod 2 ^ k = 0) (CHECK E (base \<noteq> 0 \<and> p base \<noteq> 0) (CHECK E True t2))"
  have ok5: "tok E k R m {(base, tot)} (n + 1 + 1 + 1) \<sigma> t5" and at5: "stack_at E k base ?n (tmem t5)"
    unfolding t5_def by (intro tok_CHECK ok2) (use ar at2 in \<open>simp_all add: p_def\<close>)
  define t6 where "t6 = check_fault E 1 base t5"
  note f6 = stack_at_fault [OF law ok5 at5, folded t6_def]
  define t9 where "t9 = CHECK E (p base \<le> base + 2 ^ k + roundup_ps 65536 (2 ^ k))
     (CHECK E (p base > base + 2 ^ k) (CHECK E (p base AND 15 = 0) t6))"
  have ok9: "tok E k R m {(base, tot)} (n + 1 + 1 + 1 + 1 + 1 + 1 + 1) \<sigma> t9" and at9: "stack_at E k base ?n (tmem t9)"
    unfolding t9_def using ar sb le
    by (intro tok_CHECK f6(1)) (use f6(2) in \<open>simp_all add: p_def roundup_ps_eq word_less_unat\<close>)
  define t10 where "t10 = check_fault E 0 (base + 2 ^ k) t9"
  note f10 = stack_at_touch [OF law ok9 at9, of "base + 2 ^ k", folded t10_def]
  define t11 where "t11 = check_fault E 0 (p base - 1) t10"
  have f11: "tok E k R m {(base, tot)} (n + 1 + 1 + 1 + 1 + 1 + 1 + 1 + 1 + 1) \<sigma> t11"
    unfolding t11_def using f10 ar sb le by (intro stack_at_touch(1) [OF law]) (auto simp: p_def)
  have "tot = 2 ^ k + round_up 65536 (2 ^ k)" using tot u by (simp add: word_eq_unat add.commute)
  then have c12: "ms_stack_total_size (t_spike t11) = 2 ^ k + roundup_ps 65536 (2 ^ k)"
    using spk_total [of E k R m base tot "t_spike t11"] f11 by (simp add: tok_def roundup_ps_eq)
  have "tok E k R m ({(base, tot)} - {(base, tot)}) (n + 1 + 1 + 1 + 1 + 1 + 1 + 1 + 1 + 1 + 1) \<sigma> (test_alloc_layout E t)"
    unfolding test_alloc_layout_def t1 Let_def prod.case of_int_power of_int_numeral
    using tok_free [OF law tok_CHECK [OF f11 c12], of base tot] t2
    by (simp add: t_printf_id [OF law] t5_def t6_def t9_def t10_def t11_def)
  then show ?thesis by (simp add: add.commute)
qed

lemma test_nonmoving_ok:
  assumes law: "bench_law E k R"
    and ok: "tok E k R (32768 + 2 * 2 ^ k + (32768 + 2 * 2 ^ k + (131072 + 2 * 2 ^ k + (49152 + 2 * 2 ^ k + m)))) {} n \<sigma> t"
  shows "tok E k R m {} (n + 7) \<sigma> (test_nonmoving_and_multiple E t)"
proof -
  from ok obtain a ap asz t1 where t1: "t_alloc E 32768 0 0 t = (0, a, ap, t1)"
    and ok1: "tok E k R (32768 + 2 * 2 ^ k + (131072 + 2 * 2 ^ k + (49152 + 2 * 2 ^ k + m))) {(a, asz)} n \<sigma> t1"
    by (rule tok_alloc [OF law, where bytes = 32768 and L = "{}", simplified])
  from tok_CHECK [OF ok1 TrueI] obtain b bp bsz t3 where t3: "t_alloc E 32768 0 0 (CHECK E True t1) = (0, b, bp, t3)"
    and ok3: "tok E k R (131072 + 2 * 2 ^ k + (49152 + 2 * 2 ^ k + m)) {(b, bsz), (a, asz)} (n + 1) \<sigma> t3" and ab: "a \<noteq> b"
    by (rule tok_alloc [OF law, where bytes = 32768 and L = "{(a, asz)}", simplified])
  have ok5: "tok E k R (131072 + 2 * 2 ^ k + (49152 + 2 * 2 ^ k + m)) {(b, bsz), (a, asz)} (n + 1 + 1 + 1) \<sigma>
      (CHECK E (a \<noteq> b) (CHECK E True t3))"
    by (intro tok_CHECK ok3 ab TrueI)
  then obtain c cp csz t6 where t6: "t_alloc E 131072 0 0 (CHECK E (a \<noteq> b) (CHECK E True t3)) = (0, c, cp, t6)"
    and ok6: "tok E k R (49152 + 2 * 2 ^ k + m) {(c, csz), (b, bsz), (a, asz)} (n + 1 + 1 + 1) \<sigma> t6" and abc: "b \<noteq> c \<and> a \<noteq> c"
    by (rule tok_alloc [OF law, where bytes = 131072 and L = "{(b, bsz), (a, asz)}", simplified])
  define t9 where "t9 = CHECK E (c \<noteq> a \<and> c \<noteq> b) (CHECK E (a = a \<and> ap = ap) (CHECK E True t6))"
  have ok9: "tok E k R (49152 + 2 * 2 ^ k + m) {(c, csz), (b, bsz), (a, asz)} (n + 1 + 1 + 1 + 1 + 1 + 1) \<sigma> t9"
    unfolding t9_def by (intro tok_CHECK ok6) (use abc in auto)
  define t10 where "t10 = t_free E c (t_free E b (t_free E a t9))"
  have "tok E k R (49152 + 2 * 2 ^ k + m) ({(c, csz), (b, bsz), (a, asz)} - {(a, asz)} - {(b, bsz)} - {(c, csz)})
      (n + 1 + 1 + 1 + 1 + 1 + 1) \<sigma> t10"
    unfolding t10_def by (intro tok_free [OF law] ok9) (use ab abc in auto)
  moreover have "{(c, csz), (b, bsz), (a, asz)} - {(a, asz)} - {(b, bsz)} - {(c, csz)} = {}" by auto
  ultimately have "tok E k R (49152 + 2 * 2 ^ k + m) {} (n + 1 + 1 + 1 + 1 + 1 + 1) \<sigma> t10" by simp
  then obtain d dp dsz t11 where t11: "t_alloc E 49152 0 0 t10 = (0, d, dp, t11)"
    and ok11: "tok E k R m {(d, dsz)} (n + 1 + 1 + 1 + 1 + 1 + 1) \<sigma> t11"
    by (rule tok_alloc [OF law, where bytes = 49152 and L = "{}", simplified])
  have "tok E k R m ({(d, dsz)} - {(d, dsz)}) (n + 1 + 1 + 1 + 1 + 1 + 1 + 1) \<sigma> (t_free E d (CHECK E True t11))"
    by (intro tok_free [OF law] tok_CHECK ok11 TrueI) simp
  then show ?thesis
    using t1 t3 t6 t11 by (simp add: test_nonmoving_and_multiple_def Let_def t9_def t10_def add.commute)
qed

lemma test_zero_ok:
  assumes law: "bench_law E k R" and ok: "tok E k R (2 * 2 ^ k + m) {} n \<sigma> t"
  shows "tok E k R m {} (n + 7) \<sigma> (test_zero_bytes_minimum E t)"
proof -
  note l = bench_lawD [OF law] note g = unat_page [OF l(3)]
  obtain t1 where t1: "t_page_size E t = (2 ^ k, t1)" and ok1: "tok E k R (2 * 2 ^ k + m) {} n \<sigma> t1"
    by (rule tok_page [OF law ok])
  define p where "p base = base + 2 ^ k + round_up (2 ^ k) (2 ^ k)" for base :: addr
  from ok1 obtain base tot t2 where t2: "t_alloc E 0 0 0 t1 = (0, base, p base, t2)"
    and ok2: "tok E k R m {(base, tot)} n \<sigma> t2" and tot: "unat tot = span k 0 + 2 ^ k" and at2: "stack_at E k base (span k 0) (tmem t2)"
    by (rule tok_alloc [OF law, where bytes = 0 and L = "{}", simplified, folded p_def])
  note ar = stack_at_arith [OF l(2,3) at2, of "p base", unfolded p_def, simplified]
  note sb = span_bounds [of k 0]
  have fit: "unat base + 2 ^ k + span k 0 < 18446744073709551616" using at2 by (simp add: stack_at_def)
  have pp: "unat (2 * 2 ^ k :: u64) = 2 * 2 ^ k" using g by (subst unat_mult64) auto
  have le: "(4096 :: nat) \<le> 2 ^ k" by (rule page_ge [OF l(2)])
  have m1: "base \<noteq> - 1" using fit le by (auto simp: word_eq_unat unat_max64)
  have b2: "unat (base + 2 * 2 ^ k) = unat base + 2 * 2 ^ k" using fit pp sb by (subst unat_add64) auto
  define t6 where "t6 = CHECK E (p base \<ge> base + 2 * 2 ^ k) (CHECK E (base \<noteq> - 1) (CHECK E (base \<noteq> 0 \<and> p base \<noteq> 0) (CHECK E True t2)))"
  have ok6: "tok E k R m {(base, tot)} (n + 1 + 1 + 1 + 1) \<sigma> t6" and at6: "stack_at E k base (span k 0) (tmem t6)"
    unfolding t6_def by (intro tok_CHECK ok2) (use ar at2 m1 b2 sb in \<open>simp_all add: p_def word_le_unat\<close>)
  have c7: "ms_stack_total_size (t_spike t6) \<ge> 2 * 2 ^ k"
    using spk_total [of E k R m base tot "t_spike t6"] ok6 tot pp sb by (simp add: tok_def word_le_unat)
  define t7 where "t7 = CHECK E (ms_stack_total_size (t_spike t6) \<ge> 2 * 2 ^ k) t6"
  have ok7: "tok E k R m {(base, tot)} (n + 1 + 1 + 1 + 1 + 1) \<sigma> t7" and at7: "stack_at E k base (span k 0) (tmem t7)"
    unfolding t7_def by (intro tok_CHECK ok6 c7) (use at6 in simp)
  note f8 = stack_at_fault [OF law ok7 at7]
  have "tok E k R m {(base, tot)} (n + 1 + 1 + 1 + 1 + 1 + 1 + 1) \<sigma> (check_fault E 0 (p base - 1) (check_fault E 1 base t7))"
    using f8 ar sb le by (intro stack_at_touch(1) [OF law f8(1) f8(2)]) (auto simp: p_def)
  from tok_free [OF law this, of base tot] show ?thesis
    using t1 t2 by (simp add: test_zero_bytes_minimum_def Let_def t6_def t7_def add.commute)
qed

text \<open>
  The two requests the allocator must refuse: the first by its own check, the second, which passes
  that check, by the kernel.
\<close>

lemma alloc_max_refused:
  assumes law: "bench_law E k R" and ok: "tok E k R m L n \<sigma> t"
  obtains t' where "t_alloc E (- 1) b p t = (- 1, b, p, t')" "tok E k R m L n \<sigma> t'" "spk_errno (t_spike t') = EINVAL"
proof -
  note l = bench_lawD [OF law] note g = unat_page [OF l(3)]
  have sok: "spk_ok E k R m L (t_spike t)" using ok by (simp add: tok_def)
  note pg = spk_ok_page [OF law sok]
  have "unat (2 * 2 ^ k :: u64) = 2 * 2 ^ k" using g by (subst unat_mult64) auto
  then have "(- 1 :: u64) > - 1 - 2 * 2 ^ k"
    using g by (simp add: word_less_unat unat_sub_max unat_max64)
  then have "t_alloc E (- 1) b p t = (- 1, b, p, t\<lparr>t_spike := (t_spike t)\<lparr>g_page_size := 2 ^ k, spk_errno := EINVAL\<rparr>\<rparr>)"
    using pg(1) by (simp add: t_alloc_def ms_stack_alloc_def)
  moreover have "tok E k R m L n \<sigma> (t\<lparr>t_spike := (t_spike t)\<lparr>g_page_size := 2 ^ k, spk_errno := EINVAL\<rparr>\<rparr>)"
    using ok by (simp add: tok_def spk_ok_def live_of_def)
  ultimately show ?thesis using that by simp
qed

lemma alloc_half_refused:
  assumes law: "bench_law E k R" and ok: "tok E k R m L n \<sigma> t"
  obtains t' where "t_alloc E (- 1 div 2 + 1) b p t = (- 1, b, p, t')" "tok E k R m L n \<sigma> t'"
proof -
  note l = bench_lawD [OF law] note g = unat_page [OF l(3)]
  have sok: "spk_ok E k R m L (t_spike t)" using ok by (simp add: tok_def)
  note pg = spk_ok_page [OF law sok]
  define big where "big = (- 1 div 2 + 1 :: u64)"
  define w where "w = stack_mem (spk_stack (t_spike t))"
  have big: "unat big = 9223372036854775808" by (simp add: big_def)
  have p0: "(2 ^ k :: u64) \<noteq> 0" using g(1) by (auto simp: word_eq_unat)
  have "unat (2 * 2 ^ k :: u64) = 2 * 2 ^ k" using g by (subst unat_mult64) auto
  then have nb: "\<not> big > - 1 - 2 * 2 ^ k"
    using g big by (simp add: word_less_unat unat_sub_max)
  have "nat_round_up 9223372036854775808 (2 ^ k) = 9223372036854775808"
    using le_imp_power_dvd [of k 63 "2 :: nat"] l(3) by (intro nat_round_up_id) simp_all
  then have us: "unat (round_up big (2 ^ k)) = 9223372036854775808"
    using unat_round_up [OF p0, of big] big g by simp
  define tot where "tot = round_up big (2 ^ k) + 2 ^ k"
  have tot: "unat tot = 9223372036854775808 + 2 ^ k"
    using us g by (simp add: tot_def unat_add64)
  have dv: "2 ^ k dvd unat tot"
    using le_imp_power_dvd [of k 63 "2 :: nat"] l(3) by (simp add: tot)
  have Rm: "R m w" using sok by (simp add: spk_ok_def w_def)
  then obtain e w' where m: "k_mmap (b_kernel E) 0 tot PROT_RW False w = (Inl e, w')" and R': "R m w'"
    using room_lawD(4) [OF l(6) Rm, of tot] tot by auto
  define s1 where "s1 = (t_spike t)\<lparr>g_page_size := 2 ^ k\<rparr>"
  have w1: "stack_mem (spk_stack s1) = w" by (simp add: s1_def w_def)
  have b0: "big \<noteq> 0" using big by auto
  have al: "t_alloc E big b p t = (- 1, b, p, t\<lparr>t_spike := (spk_put w' s1)\<lparr>spk_errno := e\<rparr>\<rparr>)"
    using pg(1) nb m b0
    by (simp add: t_alloc_def ms_stack_alloc_def spk_round_up_eq Let_def s1_def [symmetric] tot_def [symmetric] w1)
  have "spk_ok E k R m L (spk_put w' s1)"
    by (rule spk_ok_put) (use R' pg(2) mmap_anon_failD(2) [OF l(4) dv m] in \<open>simp_all add: s1_def w_def\<close>)
  then have "spk_ok E k R m L ((spk_put w' s1)\<lparr>spk_errno := e\<rparr>)" by (simp add: spk_ok_def live_of_def)
  then have "tok E k R m L n \<sigma> (t\<lparr>t_spike := (spk_put w' s1)\<lparr>spk_errno := e\<rparr>\<rparr>)"
    using ok by (simp add: tok_def)
  with al show ?thesis using that by (simp add: big_def)
qed

lemma test_overflow_ok:
  assumes law: "bench_law E k R" and ok: "tok E k R (16384 + 2 * 2 ^ k + m) {} n \<sigma> t"
  shows "tok E k R m {} (n + 5) \<sigma> (test_overflow_rejected E t)"
proof -
  let ?b = "0xdeadbeef :: u64"
  obtain t1 where t1: "t_alloc E (- 1) ?b ?b t = (- 1, ?b, ?b, t1)"
    and ok1: "tok E k R (16384 + 2 * 2 ^ k + m) {} n \<sigma> t1" and e: "spk_errno (t_spike t1) = EINVAL"
    by (rule alloc_max_refused [OF law ok])
  define t4 where "t4 = CHECK E (?b = ?b \<and> ?b = ?b) (CHECK E (spk_errno (t_spike (CHECK E True t1)) = EINVAL) (CHECK E True t1))"
  have ok4: "tok E k R (16384 + 2 * 2 ^ k + m) {} (n + 1 + 1 + 1) \<sigma> t4"
    unfolding t4_def by (intro tok_CHECK ok1) (use e in \<open>simp_all add: CHECK_errno [OF law]\<close>)
  obtain t5 where t5: "t_alloc E (- 1 div 2 + 1) ?b ?b t4 = (- 1, ?b, ?b, t5)"
    and ok5: "tok E k R (16384 + 2 * 2 ^ k + m) {} (n + 1 + 1 + 1) \<sigma> t5"
    by (rule alloc_half_refused [OF law ok4])
  from tok_CHECK [OF ok5 TrueI] obtain c cp csz t7 where t7: "t_alloc E 16384 ?b ?b (CHECK E True t5) = (0, c, cp, t7)"
    and ok7: "tok E k R m {(c, csz)} (n + 1 + 1 + 1 + 1) \<sigma> t7"
    by (rule tok_alloc [OF law, where bytes = 16384 and L = "{}", simplified])
  from tok_free [OF law tok_CHECK [OF ok7 TrueI], of c csz] show ?thesis
    using t1 t5 t7 by (simp add: test_overflow_rejected_def Let_def t4_def add.commute)
qed

section \<open>Properties\<close>

text \<open>
  (C39) The selftest of the spike passes. On every host with a page size of \<open>2 ^ k\<close>, room for
  the seven stacks it allocates, and a \<open>printf\<close> that does not change \<open>errno\<close> (the check of \<open>errno\<close>
  comes after one), \<open>main\<close> makes its 31 checks, none of them fails, and it returns 0: stacks
  have the layout the header promises, the guard page faults and the usable pages do not, live
  stacks do not alias, and the oversized requests are refused. It leaves no stack behind and the
  signal handlers as they were.
\<close>
theorem selftest_passes:
  assumes "bench_law E k R" and "g_resv (spk_stack (t_spike t)) = []" and "g_page_size (t_spike t) = 0"
    and "g_checks_failed t = 0" and "g_checks_total t = 0"
    and "R (327680 + 14 * 2 ^ k) (stack_mem (spk_stack (t_spike t)))"
  shows "\<exists>t'. selftest_main E t = (0, t') \<and> g_checks_total t' = 31 \<and> g_checks_failed t' = 0 \<and>
    t_sigs t' = t_sigs t \<and> ms_stack_total_size (t_spike t') = 0"
proof -
  have "tok E k R (65536 + 2 * 2 ^ k + (32768 + 2 * 2 ^ k + (32768 + 2 * 2 ^ k + (131072 + 2 * 2 ^ k + (49152 + 2 * 2 ^ k +
      (2 * 2 ^ k + (16384 + 2 * 2 ^ k + 0))))))) {} 0 (t_sigs t) t"
    using assms by (simp add: tok_def spk_ok_def live_of_def stack_inv_def slots_wf_def add.commute)
  from test_overflow_ok [OF assms(1) test_zero_ok [OF assms(1) test_nonmoving_ok [OF assms(1)
      test_alloc_layout_ok [OF assms(1) test_page_size_ok [OF assms(1) this]]]]]
  obtain t' where t': "snd (selftest_main E t) = t'" and ok: "tok E k R 0 {} 31 (t_sigs t) t'"
    by (simp add: selftest_main_def Let_def t_printf_id [OF assms(1)])
  have "filter stack_live (g_resv (spk_stack (t_spike t'))) = []"
    using ok by (auto simp: tok_def spk_ok_def live_of_def filter_empty_conv)
  then have "ms_stack_total_size (t_spike t') = 0" by (simp add: spk_total_eq)
  moreover have "selftest_main E t = (0, t')"
    using t' ok by (auto simp: selftest_main_def Let_def tok_def t_printf_id [OF assms(1)])
  ultimately show ?thesis using ok by (simp add: tok_def)
qed

theorem selftest_passes_witness:
  "\<exists>t'. selftest_main flat_bench selftest_boot = (0, t') \<and> g_checks_total t' = 31 \<and> g_checks_failed t' = 0"
  using selftest_passes [OF flat_bench_law, of selftest_boot]
  by (auto simp: selftest_boot_def stack_boot_def flat_room_def)

end
