(* ===== verification/Mjs_CtxLayout.thy ===== *)
theory Mjs_CtxLayout
  imports Mjs_ContextX86
begin

text \<open>
  The context record in memory (native/posix/ms\_context.c and the two assembly files). The C code
  fixes the layout of \<open>struct ms_context\<close> by static assertions, and the assembly accesses it by
  literal byte offsets. Here a record is the list of its 25 words, and the register halves of the two
  backends are their sequences of stores and loads at those offsets; the lemmas show that they do to
  the words what the definitions of Mjs\_Context and Mjs\_ContextX86 do to the record.
\<close>

section \<open>Definitions\<close>

text \<open>
  The layout of a structure: its members with size and alignment, each at the next offset that
  suits it.
\<close>

definition align_up :: "nat \<Rightarrow> nat \<Rightarrow> nat" where
  "align_up a n = (n + a - 1) div a * a"

fun c_offsets :: "nat \<Rightarrow> (nat \<times> nat) list \<Rightarrow> nat list" where
  "c_offsets n [] = []"
| "c_offsets n ((sz, al) # ms) = (let o1 = align_up al n in o1 # c_offsets (o1 + sz) ms)"

fun c_end :: "nat \<Rightarrow> (nat \<times> nat) list \<Rightarrow> nat" where
  "c_end n [] = n"
| "c_end n ((sz, al) # ms) = c_end (align_up al n + sz) ms"

definition c_alignof :: "(nat \<times> nat) list \<Rightarrow> nat" where
  "c_alignof ms = fold (\<lambda>m a. max (snd m) a) ms 1"

definition c_sizeof :: "(nat \<times> nat) list \<Rightarrow> nat" where
  "c_sizeof ms = align_up (c_alignof ms) (c_end 0 ms)"

text \<open>The members of \<open>struct ms_context\<close>: regs, fps, sp, state, ret\_to, finish\_cb, finish\_ud.\<close>

definition ms_context_members :: "(nat \<times> nat) list" where
  "ms_context_members = [(12 * 8, 8), (8 * 8, 8), (8, 8), (8, 8), (8, 8), (8, 8), (8, 8)]"

abbreviation (input) MS_CTX_FPS_OFF :: nat where "MS_CTX_FPS_OFF \<equiv> 96"
abbreviation (input) MS_CTX_SP_OFF :: nat where "MS_CTX_SP_OFF \<equiv> 160"
abbreviation (input) MS_CTX_STATE_OFF :: nat where "MS_CTX_STATE_OFF \<equiv> 168"
abbreviation (input) MS_CTX_RETTO_OFF :: nat where "MS_CTX_RETTO_OFF \<equiv> 176"
abbreviation (input) MS_CTX_FINCB_OFF :: nat where "MS_CTX_FINCB_OFF \<equiv> 184"
abbreviation (input) MS_CTX_FINUD_OFF :: nat where "MS_CTX_FINUD_OFF \<equiv> 192"

text \<open>The static assertions, in the order of the file.\<close>

definition ms_context_asserts :: bool where
  "ms_context_asserts \<longleftrightarrow>
     (let off = c_offsets 0 ms_context_members
      in c_sizeof ms_context_members = 168 + 4 * 8 \<and> c_alignof ms_context_members = 8 \<and>
         off ! 0 = 0 \<and> off ! 1 = 96 \<and> off ! 2 = 160 \<and>
         off ! 3 = 168 \<and> off ! 4 = 176 \<and> off ! 5 = 184 \<and> off ! 6 = 192 \<and> off ! 2 + 8 = 168)"

text \<open>
  The words of a record, and stores and loads at a byte offset. A load that is not aligned to a word
  takes its low bytes from the upper bytes of one word and its high bytes from the next.
\<close>

type_synonym image = "u64 list"

definition ctx_words :: "ms_context \<Rightarrow> image" where
  "ctx_words r = cx_regs r @ cx_fps r @ [cx_sp r, cx_state r, cx_ret_to r, cx_finish_cb r, cx_finish_ud r]"

definition ld :: "image \<Rightarrow> nat \<Rightarrow> u64" where
  "ld img off =
     (let q = off div 8; s = 8 * (off mod 8)
      in if s = 0 then img ! q else drop_bit s (img ! q) OR push_bit (64 - s) (img ! Suc q))"

definition stores :: "(nat \<times> u64) list \<Rightarrow> image \<Rightarrow> image" where
  "stores ps img = fold (\<lambda>(off, v) i. i[off div 8 := v]) ps img"

text \<open>A store pair writes two registers to adjacent words.\<close>

definition stp :: "u64 \<Rightarrow> u64 \<Rightarrow> nat \<Rightarrow> (nat \<times> u64) list" where
  "stp a b off = [(off, a), (off + 8, b)]"

subsection \<open>AArch64\<close>

definition xr :: "cpu \<Rightarrow> nat \<Rightarrow> u64" where
  "xr c n = x_regs c ! (n - 19)"

definition dr :: "cpu \<Rightarrow> nat \<Rightarrow> u64" where
  "dr c n = d_regs c ! (n - 8)"

definition a64_save :: "cpu \<Rightarrow> (nat \<times> u64) list" where
  "a64_save c = concat
     [stp (xr c 19) (xr c 20) 0,
      stp (xr c 21) (xr c 22) 16,
      stp (xr c 23) (xr c 24) 32,
      stp (xr c 25) (xr c 26) 48,
      stp (xr c 27) (xr c 28) 64,
      stp (xr c 29) (xr c 30) 80,
      stp (dr c 8) (dr c 9) MS_CTX_FPS_OFF,
      stp (dr c 10) (dr c 11) (MS_CTX_FPS_OFF + 16),
      stp (dr c 12) (dr c 13) (MS_CTX_FPS_OFF + 32),
      stp (dr c 14) (dr c 15) (MS_CTX_FPS_OFF + 48),
      [(MS_CTX_SP_OFF, cpu_sp c)]]"

text \<open>A load pair reads adjacent words into two registers; \<open>None\<close> is the alignment trap.\<close>

definition ldp_x :: "nat \<Rightarrow> nat \<Rightarrow> image \<Rightarrow> cpu \<Rightarrow> cpu" where
  "ldp_x n off img c = c\<lparr>x_regs := (x_regs c)[n - 19 := ld img off, n - 18 := ld img (off + 8)]\<rparr>"

definition ldp_d :: "nat \<Rightarrow> nat \<Rightarrow> image \<Rightarrow> cpu \<Rightarrow> cpu" where
  "ldp_d n off img c = c\<lparr>d_regs := (d_regs c)[n - 8 := ld img off, n - 7 := ld img (off + 8)]\<rparr>"

definition a64_restore :: "image \<Rightarrow> cpu \<Rightarrow> cpu option" where
  "a64_restore img c =
     (let c1 = ldp_d 8 MS_CTX_FPS_OFF img (ldp_d 10 (MS_CTX_FPS_OFF + 16) img
            (ldp_d 12 (MS_CTX_FPS_OFF + 32) img (ldp_d 14 (MS_CTX_FPS_OFF + 48) img c)));
          c2 = ldp_x 19 0 img (ldp_x 21 16 img (ldp_x 23 32 img (ldp_x 25 48 img (ldp_x 27 64 img c1))));
          x16 = ld img MS_CTX_SP_OFF
      in if x16 AND 15 \<noteq> 0 then None else Some (ldp_x 29 80 img (set_sp x16 c2)))"

definition a64_make :: "u64 \<Rightarrow> addr \<Rightarrow> addr \<Rightarrow> u64 \<Rightarrow> (nat \<times> u64) list" where
  "a64_make trampoline stack_top entry userdata = concat
     [[(MS_CTX_SP_OFF, stack_top - 16)],
      stp entry userdata 0, stp 0 0 16, stp 0 0 32, stp 0 0 48, stp 0 0 64, [(80, 0)],
      stp 0 0 MS_CTX_FPS_OFF, stp 0 0 (MS_CTX_FPS_OFF + 16), stp 0 0 (MS_CTX_FPS_OFF + 32), stp 0 0 (MS_CTX_FPS_OFF + 48),
      [(MS_CTX_RETTO_OFF, 0)], [(MS_CTX_FINCB_OFF, 0)], [(MS_CTX_FINUD_OFF, 0)],
      [(MS_CTX_STATE_OFF, MS_CTX_EMPTY)], [(88, trampoline)]]"

subsection \<open>x86-64\<close>

text \<open>The registers rbx, rbp and r12 to r15 are 0 to 5, xmm6 is 6.\<close>

definition x86_save :: "cpu \<Rightarrow> (nat \<times> u64) list" where
  "x86_save c =
     (let g = (\<lambda>n. x_regs c ! n); xmm = (\<lambda>n. d_regs c ! (n - 6))
      in [(0, g 0), (8, g 1), (16, g 2), (24, g 3), (32, g 4), (40, g 5),
          (MS_CTX_FPS_OFF, xmm 6), (MS_CTX_FPS_OFF + 8, xmm 7), (MS_CTX_FPS_OFF + 16, xmm 8), (MS_CTX_FPS_OFF + 24, xmm 9),
          (MS_CTX_FPS_OFF + 32, xmm 10), (MS_CTX_FPS_OFF + 40, xmm 11), (MS_CTX_FPS_OFF + 48, xmm 12), (MS_CTX_FPS_OFF + 56, xmm 13),
          (MS_CTX_SP_OFF, cpu_sp c)])"

definition movq_g :: "nat \<Rightarrow> nat \<Rightarrow> image \<Rightarrow> cpu \<Rightarrow> cpu" where
  "movq_g n off img c = c\<lparr>x_regs := (x_regs c)[n := ld img off]\<rparr>"

definition movq_xmm :: "nat \<Rightarrow> nat \<Rightarrow> image \<Rightarrow> cpu \<Rightarrow> cpu" where
  "movq_xmm n off img c = c\<lparr>d_regs := (d_regs c)[n - 6 := ld img off]\<rparr>"

text \<open>The last two steps set the stack pointer and return, which pops one word.\<close>

definition x86_restore :: "image \<Rightarrow> cpu \<Rightarrow> cpu option" where
  "x86_restore img c =
     (let c1 = movq_g 5 40 img (movq_g 4 32 img (movq_g 3 24 img (movq_g 2 16 img (movq_g 1 8 img (movq_g 0 0 img c)))));
          c2 = movq_xmm 11 (MS_CTX_FPS_OFF + 40) img (movq_xmm 10 (MS_CTX_FPS_OFF + 32) img (movq_xmm 9 (MS_CTX_FPS_OFF + 24) img
            (movq_xmm 8 (MS_CTX_FPS_OFF + 16) img (movq_xmm 7 (MS_CTX_FPS_OFF + 8) img (movq_xmm 6 MS_CTX_FPS_OFF img c1)))));
          rax = ld img MS_CTX_SP_OFF
      in if rax AND 15 \<noteq> 0 then None else Some (set_sp (rax + 8) c2))"

definition x86_make :: "addr \<Rightarrow> addr \<Rightarrow> u64 \<Rightarrow> (nat \<times> u64) list" where
  "x86_make stack_top entry userdata =
     [(MS_CTX_SP_OFF, stack_top - 16), (0, entry), (16, userdata), (8, 0), (24, 0), (32, 0), (40, 0),
      (MS_CTX_FPS_OFF, 0), (MS_CTX_FPS_OFF + 8, 0), (MS_CTX_FPS_OFF + 16, 0), (MS_CTX_FPS_OFF + 24, 0),
      (MS_CTX_FPS_OFF + 32, 0), (MS_CTX_FPS_OFF + 40, 0), (MS_CTX_FPS_OFF + 48, 0), (MS_CTX_FPS_OFF + 56, 0),
      (MS_CTX_RETTO_OFF, 0), (MS_CTX_FINCB_OFF, 0), (MS_CTX_FINUD_OFF, 0), (MS_CTX_STATE_OFF, MS_CTX_EMPTY)]"

section \<open>Lemmas\<close>

definition ctx_shape :: "ms_context \<Rightarrow> bool" where
  "ctx_shape r \<longleftrightarrow> length (cx_regs r) = 12 \<and> length (cx_fps r) = 8"

definition cpu_shape :: "nat \<Rightarrow> cpu \<Rightarrow> bool" where
  "cpu_shape n c \<longleftrightarrow> length (x_regs c) = n \<and> length (d_regs c) = 8"

text \<open>Every access is to a whole word inside the record.\<close>

definition inside :: "(nat \<times> u64) list \<Rightarrow> bool" where
  "inside ps \<longleftrightarrow> list_all (\<lambda>(off, v). 8 dvd off \<and> off + 8 \<le> c_sizeof ms_context_members) ps"

lemma ms_context_asserts_hold: "ms_context_asserts"
  by (simp add: ms_context_asserts_def ms_context_members_def c_sizeof_def c_alignof_def align_up_def Let_def)

lemma sizeof_200: "c_sizeof ms_context_members = 200"
  using ms_context_asserts_hold by (simp add: ms_context_asserts_def Let_def)

lemma ms_context_size_sizeof:
  "unat ms_context_size = c_sizeof ms_context_members" "unat ms_context_alignment = c_alignof ms_context_members"
  by (simp_all add: ms_context_size_def ms_context_alignment_def ms_context_members_def c_sizeof_def c_alignof_def align_up_def)

lemma ctx_words_length: "ctx_shape r \<Longrightarrow> 8 * length (ctx_words r) = c_sizeof ms_context_members"
  by (simp add: ctx_shape_def ctx_words_def ms_context_members_def c_sizeof_def c_alignof_def align_up_def)

lemma ctx_words_inj:
  assumes "ctx_words r = ctx_words r'" and "ctx_shape r" and "ctx_shape r'"
  shows "r = r'"
  using assms by (auto simp: ctx_words_def ctx_shape_def intro!: ms_context.equality)

lemma list_nths:
  shows "length xs = 6 \<Longrightarrow> xs = [xs ! 0, xs ! 1, xs ! 2, xs ! 3, xs ! 4, xs ! 5]"
    and "length xs = 8 \<Longrightarrow> xs = [xs ! 0, xs ! 1, xs ! 2, xs ! 3, xs ! 4, xs ! 5, xs ! 6, xs ! 7]"
    and "length xs = 12 \<Longrightarrow> xs = [xs ! 0, xs ! 1, xs ! 2, xs ! 3, xs ! 4, xs ! 5, xs ! 6, xs ! 7, xs ! 8, xs ! 9, xs ! 10, xs ! 11]"
proof -
  have e: "map ((!) xs) [0..<6] = [xs ! 0, xs ! 1, xs ! 2, xs ! 3, xs ! 4, xs ! 5]"
    "map ((!) xs) [0..<8] = [xs ! 0, xs ! 1, xs ! 2, xs ! 3, xs ! 4, xs ! 5, xs ! 6, xs ! 7]"
    "map ((!) xs) [0..<12] = [xs ! 0, xs ! 1, xs ! 2, xs ! 3, xs ! 4, xs ! 5, xs ! 6, xs ! 7, xs ! 8, xs ! 9, xs ! 10, xs ! 11]"
    by (simp_all add: upt_rec eval_nat_numeral)
  show "xs = [xs ! 0, xs ! 1, xs ! 2, xs ! 3, xs ! 4, xs ! 5]" if "length xs = 6"
    using map_nth [of xs, unfolded that e, symmetric] .
  show "xs = [xs ! 0, xs ! 1, xs ! 2, xs ! 3, xs ! 4, xs ! 5, xs ! 6, xs ! 7]" if "length xs = 8"
    using map_nth [of xs, unfolded that e, symmetric] .
  show "xs = [xs ! 0, xs ! 1, xs ! 2, xs ! 3, xs ! 4, xs ! 5, xs ! 6, xs ! 7, xs ! 8, xs ! 9, xs ! 10, xs ! 11]" if "length xs = 12"
    using map_nth [of xs, unfolded that e, symmetric] .
qed

lemma replicate8: "replicate 8 x = [x, x, x, x, x, x, x, x]"
  by (simp add: eval_nat_numeral)

lemma ctx_shapeE:
  assumes "ctx_shape r"
  obtains a0 a1 a2 a3 a4 a5 a6 a7 a8 a9 a10 a11 f0 f1 f2 f3 f4 f5 f6 f7 where
    "cx_regs r = [a0, a1, a2, a3, a4, a5, a6, a7, a8, a9, a10, a11]" "cx_fps r = [f0, f1, f2, f3, f4, f5, f6, f7]"
  using list_nths(3) [of "cx_regs r"] list_nths(2) [of "cx_fps r"] assms unfolding ctx_shape_def by blast

lemma cpu_shapeE:
  assumes "cpu_shape 12 c"
  obtains a0 a1 a2 a3 a4 a5 a6 a7 a8 a9 a10 a11 f0 f1 f2 f3 f4 f5 f6 f7 where
    "x_regs c = [a0, a1, a2, a3, a4, a5, a6, a7, a8, a9, a10, a11]" "d_regs c = [f0, f1, f2, f3, f4, f5, f6, f7]"
  using list_nths(3) [of "x_regs c"] list_nths(2) [of "d_regs c"] assms unfolding cpu_shape_def by blast

lemma cpu_shape6E:
  assumes "cpu_shape 6 c"
  obtains a0 a1 a2 a3 a4 a5 f0 f1 f2 f3 f4 f5 f6 f7 where
    "x_regs c = [a0, a1, a2, a3, a4, a5]" "d_regs c = [f0, f1, f2, f3, f4, f5, f6, f7]"
  using list_nths(1) [of "x_regs c"] list_nths(2) [of "d_regs c"] assms unfolding cpu_shape_def by blast

lemmas image_eval = stores_def stp_def ld_def ctx_words_def xr_def dr_def Let_def

lemma a64_save_words:
  assumes "ctx_shape r" and "cpu_shape 12 c"
  shows "stores (a64_save c) (ctx_words r) = ctx_words (save_cpu c r)"
  using assms(1)
proof (cases rule: ctx_shapeE)
  case r: 1
  show ?thesis
    using assms(2) by (cases rule: cpu_shapeE) (simp add: a64_save_def save_cpu_def image_eval r)
qed

lemma a64_restore_words:
  assumes "ctx_shape r" and "cpu_shape 12 c"
  shows "a64_restore (ctx_words r) c = (if cx_sp r AND 15 \<noteq> 0 then None else Some (load_cpu r))"
  using assms(1)
proof (cases rule: ctx_shapeE)
  case r: 1
  show ?thesis
    using assms(2) by (cases rule: cpu_shapeE)
      (simp add: a64_restore_def ldp_x_def ldp_d_def set_sp_def load_cpu_def image_eval r)
qed

lemma x86_save_words:
  assumes "ctx_shape r" and "cpu_shape 6 c"
  shows "stores (x86_save c) (ctx_words r) = ctx_words (save_x86 c r)"
  using assms(1)
proof (cases rule: ctx_shapeE)
  case r: 1
  show ?thesis
    using assms(2) by (cases rule: cpu_shape6E) (simp add: x86_save_def save_x86_def image_eval r)
qed

lemma x86_restore_words:
  assumes "ctx_shape r" and "cpu_shape 6 c"
  shows "x86_restore (ctx_words r) c = (if cx_sp r AND 15 \<noteq> 0 then None
    else Some \<lparr>x_regs = take 6 (cx_regs r), d_regs = take 6 (cx_fps r) @ drop 6 (d_regs c), cpu_sp = cx_sp r + 8\<rparr>)"
  using assms(1)
proof (cases rule: ctx_shapeE)
  case r: 1
  show ?thesis
    using assms(2) by (cases rule: cpu_shape6E)
      (simp add: x86_restore_def movq_g_def movq_xmm_def set_sp_def image_eval r)
qed

lemma a64_make_words:
  assumes "ctx_shape r"
  shows "stores (a64_make t stk e u) (ctx_words r) =
    ctx_words \<lparr>cx_regs = [e, u, 0, 0, 0, 0, 0, 0, 0, 0, 0, t], cx_fps = replicate 8 0, cx_sp = stk - 16,
      cx_state = MS_CTX_EMPTY, cx_ret_to = 0, cx_finish_cb = 0, cx_finish_ud = 0\<rparr>"
  using assms by (cases rule: ctx_shapeE) (simp add: a64_make_def image_eval replicate8)

lemma x86_make_words:
  assumes "ctx_shape r"
  shows "stores (x86_make stk e u) (ctx_words r) =
    ctx_words \<lparr>cx_regs = [e, 0, u, 0, 0, 0] @ drop 6 (cx_regs r), cx_fps = replicate 8 0, cx_sp = stk - 16,
      cx_state = MS_CTX_EMPTY, cx_ret_to = 0, cx_finish_cb = 0, cx_finish_ud = 0\<rparr>"
  using assms by (cases rule: ctx_shapeE) (simp add: x86_make_def image_eval replicate8)

subsection \<open>The shape of a machine\<close>

text \<open>
  Every operation keeps the number of words in the records and of registers, \<open>n\<close> general ones: 12 on
  AArch64, 6 on x86-64.
\<close>

definition mach_shape :: "nat \<Rightarrow> machine \<Rightarrow> bool" where
  "mach_shape n m \<longleftrightarrow> cpu_shape n (cpu_of m) \<and> (\<forall>p. ctx_shape (ctxs m p))"

lemma upd_ctx_shape:
  "mach_shape n m \<Longrightarrow> (\<And>r. ctx_shape r \<Longrightarrow> ctx_shape (f r)) \<Longrightarrow> mach_shape n (upd_ctx p f m)"
  by (simp add: mach_shape_def upd_ctx_def)

lemma field_shape [simp]:
  "ctx_shape (cx_state_update g r) = ctx_shape r" "ctx_shape (cx_ret_to_update h r) = ctx_shape r"
  "ctx_shape (cx_finish_cb_update h r) = ctx_shape r" "ctx_shape (cx_finish_ud_update g r) = ctx_shape r"
  by (simp_all add: ctx_shape_def)

lemma switch_with_shape:
  assumes "switch_with save restore a b m = Running m'" and "mach_shape n m"
    and save: "\<And>c r. cpu_shape n c \<Longrightarrow> ctx_shape r \<Longrightarrow> ctx_shape (save c r)"
    and restore: "\<And>m m'. restore b m = Running m' \<Longrightarrow> mach_shape n m \<Longrightarrow> mach_shape n m'"
  shows "mach_shape n m'"
proof -
  define m1 where "m1 = upd_ctx a (save (cpu_of m)) m"
  have m1: "mach_shape n m1" using assms(2) save by (auto simp: m1_def mach_shape_def upd_ctx_def)
  have upd: "mach_shape n (upd_ctx p (cx_state_update g) x)" "mach_shape n (upd_ctx p (cx_ret_to_update h) x)"
    if "mach_shape n x" for p g h x
    using that by (auto intro: upd_ctx_shape)
  show ?thesis
    using assms(1) m1 unfolding switch_with_def Let_def m1_def [symmetric]
    by (auto intro!: upd elim!: restore split: if_splits)
qed

lemma switch_shape: "ms_context_switch a b m = Running m' \<Longrightarrow> mach_shape 12 m \<Longrightarrow> mach_shape 12 m'"
  unfolding ms_context_switch_def
  by (erule switch_with_shape)
    (auto simp: save_cpu_def load_cpu_def ctx_restore_def mach_shape_def ctx_shape_def cpu_shape_def split: if_splits)

lemma switch_x86_shape: "ms_context_switch_x86 a b m = Running m' \<Longrightarrow> mach_shape 6 m \<Longrightarrow> mach_shape 6 m'"
  unfolding ms_context_switch_x86_def
  by (erule switch_with_shape)
    (auto simp: save_x86_def restore_x86_def mach_shape_def ctx_shape_def cpu_shape_def Let_def split: if_splits)

lemma init_shape:
  "ms_context_init t p low sz e u m = (rc, Running m') \<Longrightarrow> mach_shape 12 m \<Longrightarrow> mach_shape 12 m'"
  "ms_context_init_x86 t p low sz e u m = (rc, Running m') \<Longrightarrow> mach_shape 6 m \<Longrightarrow> mach_shape 6 m'"
  by (auto simp: ms_context_init_def ms_context_init_x86_def init_with_def mjs__ctx_make_raw_def make_raw_x86_def
      mach_shape_def ctx_shape_def cpu_shape_def upd_ctx_def split: if_splits)

lemma record_op_shape:
  "mach_shape n m \<Longrightarrow> mach_shape n (ms_context_destroy p m)"
  "mach_shape n m \<Longrightarrow> mach_shape n (ms_context_set_finish_hook p h u m)"
  by (auto simp: ms_context_destroy_def ms_context_set_finish_hook_def mach_shape_def upd_ctx_def zero_context_def ctx_shape_def)

section \<open>Properties\<close>

text \<open>
  (C10) The record in memory. The static assertions on the layout hold; every store of the assembly goes to
  a whole word inside the 200 bytes of the record; and on a machine of proper shape the save, restore and
  creation sequences of either backend, executed word by word at their literal offsets, do to the words of
  a record exactly what the record-level definitions do, the restore trapping on the same stack pointers.
  The words determine the record, and the switch keeps the shape.
\<close>
theorem ctx_layout_refines:
  assumes "mach_shape 12 m" and "mach_shape 6 x"
  shows "ms_context_asserts \<and>
    inside (a64_save (cpu_of m) @ a64_make t stk e u) \<and> inside (x86_save (cpu_of x) @ x86_make stk e u) \<and>
    stores (a64_save (cpu_of m)) (ctx_words (ctxs m p)) = ctx_words (save_cpu (cpu_of m) (ctxs m p)) \<and>
    stores (x86_save (cpu_of x)) (ctx_words (ctxs x p)) = ctx_words (save_x86 (cpu_of x) (ctxs x p)) \<and>
    ctx_restore p m = (case a64_restore (ctx_words (ctxs m p)) (cpu_of m) of
      None \<Rightarrow> Brk 0x6b | Some c \<Rightarrow> Running (m\<lparr>cpu_of := c\<rparr>)) \<and>
    restore_x86 p x = (case x86_restore (ctx_words (ctxs x p)) (cpu_of x) of
      None \<Rightarrow> Brk 0x6b | Some c \<Rightarrow> Running (x\<lparr>cpu_of := c\<rparr>)) \<and>
    (\<forall>m'. mjs__ctx_make_raw t p stk e u m = Running m' \<longrightarrow>
       ctx_words (ctxs m' p) = stores (a64_make t stk e u) (ctx_words (ctxs m p))) \<and>
    (\<forall>x'. make_raw_x86 t p stk e u x = Running x' \<longrightarrow>
       ctx_words (ctxs x' p) = stores (x86_make stk e u) (ctx_words (ctxs x p))) \<and>
    (\<forall>m'. ms_context_switch p q m = Running m' \<longrightarrow> mach_shape 12 m') \<and>
    (\<forall>x'. ms_context_switch_x86 p q x = Running x' \<longrightarrow> mach_shape 6 x')"
proof (intro conjI allI impI)
  have r: "ctx_shape (ctxs m p)" "cpu_shape 12 (cpu_of m)" "ctx_shape (ctxs x p)" "cpu_shape 6 (cpu_of x)"
    using assms by (simp_all add: mach_shape_def)
  show "ms_context_asserts" by (rule ms_context_asserts_hold)
  show "inside (a64_save (cpu_of m) @ a64_make t stk e u)" "inside (x86_save (cpu_of x) @ x86_make stk e u)"
    by (simp_all add: inside_def a64_save_def a64_make_def x86_save_def x86_make_def stp_def Let_def sizeof_200)
  show "stores (a64_save (cpu_of m)) (ctx_words (ctxs m p)) = ctx_words (save_cpu (cpu_of m) (ctxs m p))"
    using r(1,2) by (rule a64_save_words)
  show "stores (x86_save (cpu_of x)) (ctx_words (ctxs x p)) = ctx_words (save_x86 (cpu_of x) (ctxs x p))"
    using r(3,4) by (rule x86_save_words)
  show "ctx_restore p m = (case a64_restore (ctx_words (ctxs m p)) (cpu_of m) of
      None \<Rightarrow> Brk 0x6b | Some c \<Rightarrow> Running (m\<lparr>cpu_of := c\<rparr>))"
    by (simp add: a64_restore_words [OF r(1,2)] ctx_restore_def)
  show "restore_x86 p x = (case x86_restore (ctx_words (ctxs x p)) (cpu_of x) of
      None \<Rightarrow> Brk 0x6b | Some c \<Rightarrow> Running (x\<lparr>cpu_of := c\<rparr>))"
    by (simp add: x86_restore_words [OF r(3,4)] restore_x86_def Let_def)
  show "ctx_words (ctxs m' p) = stores (a64_make t stk e u) (ctx_words (ctxs m p))"
    if "mjs__ctx_make_raw t p stk e u m = Running m'" for m'
    using that by (auto simp: a64_make_words [OF r(1)] mjs__ctx_make_raw_def upd_ctx_def split: if_splits)
  show "ctx_words (ctxs x' p) = stores (x86_make stk e u) (ctx_words (ctxs x p))"
    if "make_raw_x86 t p stk e u x = Running x'" for x'
    using that by (auto simp: x86_make_words [OF r(3)] make_raw_x86_def upd_ctx_def split: if_splits)
  show "mach_shape 12 m'" if "ms_context_switch p q m = Running m'" for m'
    using that assms(1) by (rule switch_shape)
  show "mach_shape 6 x'" if "ms_context_switch_x86 p q x = Running x'" for x'
    using that assms(2) by (rule switch_x86_shape)
qed

section \<open>Witnesses\<close>

lemma demo_shapes: "mach_shape 12 demo_machine" "mach_shape 6 demo_x86"
  by (auto simp: demo_machine_def demo_x86_def demo_cpu_def mach_shape_def ctx_shape_def cpu_shape_def
      zero_context_def save_cpu_def)

theorem ctx_layout_refines_witness:
  "stores (a64_save demo_cpu) (replicate 25 0) = [1, 2, 3, 4, 5, 6, 7, 8, 9, 10, 11, 12] @ [1, 2, 3, 4, 5, 6, 7, 8] @ [0x8000, 0, 0, 0, 0] \<and>
   stores (x86_save (cpu_of demo_x86)) (replicate 25 0) = [1, 2, 3, 4, 5, 6] @ replicate 6 0 @ [1, 2, 3, 4, 5, 6, 7, 8] @ [0x7ff8, 0, 0, 0, 0]"
proof -
  have z: "ctxs demo_machine 0x300 = zero_context" "ctxs demo_x86 0x300 = zero_context"
    by (simp_all add: demo_machine_def demo_x86_def)
  have w: "ctx_words zero_context = replicate 25 0"
    by (simp add: ctx_words_def zero_context_def eval_nat_numeral)
  have cpu: "cpu_of demo_machine = demo_cpu" by (simp add: demo_machine_def)
  have "stores (a64_save demo_cpu) (replicate 25 0) = ctx_words (save_cpu demo_cpu zero_context)"
    and "stores (x86_save (cpu_of demo_x86)) (replicate 25 0) = ctx_words (save_x86 (cpu_of demo_x86) zero_context)"
    using ctx_layout_refines [OF demo_shapes, of 0 "0x1000" 0 0 "0x300" 0] by (simp_all add: z w cpu)
  then show ?thesis
    by (simp add: ctx_words_def save_cpu_def save_x86_def zero_context_def demo_x86_def demo_cpu_def)
qed

end
