(* ===== verification/Mjs_SpikeCtx.thy ===== *)
theory Mjs_SpikeCtx
  imports Mjs_CtxLayout Mjs_VM
begin

text \<open>
  The context switch of the spike (spike/context\_switch/aarch64\_switch.S) and the sentinel probe
  that exercises it (ms\_ctx.c). The register file is that of Mjs\_Context; context records, the
  probe's argument blocks and stack words are disjoint storage. The probe is a program of blocks
  that end in a jump: a position in it is a label, and return addresses are the numbers
  \<open>code_of\<close> gives to labels.
\<close>

section \<open>The switch\<close>

record ms_ctx =
  sc_regs :: "u64 list"
  sc_fps :: "u64 list"
  sc_sp :: u64

text \<open>Its layout, with the static assertions of ms\_ctx.c, and its words.\<close>

definition ms_ctx_members :: "(nat \<times> nat) list" where
  "ms_ctx_members = [(12 * 8, 8), (8 * 8, 8), (8, 8)]"

definition ms_ctx_asserts :: bool where
  "ms_ctx_asserts \<longleftrightarrow>
     (let off = c_offsets 0 ms_ctx_members
      in c_sizeof ms_ctx_members = 168 \<and> c_alignof ms_ctx_members = 8 \<and> off ! 0 = 0 \<and> off ! 1 = 96 \<and> off ! 2 = 160)"

definition ms_ctx_words :: "ms_ctx \<Rightarrow> image" where
  "ms_ctx_words r = sc_regs r @ sc_fps r @ [sc_sp r]"

text \<open>The argument block of a worker.\<close>

record p_arg =
  pa_counter :: u64
  pa_left :: u64
  pa_regs_ok :: u64
  pa_sp_ok :: u64
  pa_tag :: u64
  pa_self :: addr
  pa_peer :: addr
  pa_sched :: addr

record probe =
  pr_cpu :: cpu
  pr_ctx :: "addr \<Rightarrow> ms_ctx"
  ms_resume_tab :: "(addr \<times> addr) list"
  ms_last_from :: addr
  ms_last_to :: addr
  pr_words :: "addr \<Rightarrow> u64"
  pr_args :: "addr \<Rightarrow> p_arg"
  pr_failures :: int

datatype label = Tramp | TrampBack | TrampGuard | PaEntry | PbEntry | WLoop | WExit | MainA | MainB

fun code_of :: "label \<Rightarrow> u64" where
  "code_of Tramp = 0x1000"
| "code_of TrampBack = 0x1018"
| "code_of TrampGuard = 0x1060"
| "code_of PaEntry = 0x1300"
| "code_of PbEntry = 0x1304"
| "code_of WLoop = 0x1260"
| "code_of WExit = 0x12a0"
| "code_of MainA = 0x1400"
| "code_of MainB = 0x1440"

definition label_at :: "u64 \<Rightarrow> label option" where
  "label_at a = find (\<lambda>l. code_of l = a) [Tramp, TrampBack, TrampGuard, PaEntry, PbEntry, WLoop, WExit, MainA, MainB]"

text \<open>
  How a block ends: at the next label, at a trap, with a fault at an address, with a jump out of
  the program, or with the program's exit.
\<close>

datatype presult = Go label probe | PTrap int | PFault addr | PWild u64 | PExit int probe

definition jump :: "u64 \<Rightarrow> probe \<Rightarrow> presult" where
  "jump a m = (case label_at a of Some l \<Rightarrow> Go l m | None \<Rightarrow> PWild a)"

text \<open>
  The loops over the 64 rows of the resume table: the first empty row or the row of \<open>k\<close> becomes
  \<open>(k, v)\<close>, \<^term>\<open>None\<close> when the table is full; and the row of \<open>k\<close>.
\<close>

fun tab_upsert :: "addr \<Rightarrow> addr \<Rightarrow> (addr \<times> addr) list \<Rightarrow> (addr \<times> addr) list option" where
  "tab_upsert k v [] = None"
| "tab_upsert k v ((a, b) # t) = (if a = 0 \<or> a = k then Some ((k, v) # t) else map_option ((#) (a, b)) (tab_upsert k v t))"

fun tab_find :: "addr \<Rightarrow> (addr \<times> addr) list \<Rightarrow> addr option" where
  "tab_find k [] = None"
| "tab_find k ((a, b) # t) = (if a = k then Some b else tab_find k t)"

definition ms_ctx_switch :: "addr \<Rightarrow> addr \<Rightarrow> probe \<Rightarrow> presult" where
  "ms_ctx_switch from to m =
     (if from = 0 then PFault 0
      else
        let c = pr_cpu m;
            m1 = m\<lparr>pr_ctx := (pr_ctx m)(from := \<lparr>sc_regs = x_regs c, sc_fps = d_regs c, sc_sp = cpu_sp c\<rparr>)\<rparr>
        in case tab_upsert to from (ms_resume_tab m1) of
             None \<Rightarrow> PTrap 0x67
           | Some tab \<Rightarrow>
              if to = 0 then PFault 0
              else
                let m2 = m1\<lparr>ms_resume_tab := tab, ms_last_from := from, ms_last_to := to\<rparr>;
                    r = pr_ctx m2 to
                in jump (sc_regs r ! 11)
                     (m2\<lparr>pr_cpu := \<lparr>x_regs = sc_regs r, d_regs = sc_fps r, cpu_sp = sc_sp r\<rparr>\<rparr>))"

text \<open>
  The restore of the switch as the assembly has it, a load pair at a time; the words of a record make
  it the copy of the whole record in the definition above (lemma \<open>spike_restore_words\<close>).
\<close>

definition spike_restore :: "image \<Rightarrow> cpu \<Rightarrow> cpu" where
  "spike_restore img c =
     (let c1 = ldp_d 8 MS_CTX_FPS_OFF img (ldp_d 10 (MS_CTX_FPS_OFF + 16) img
            (ldp_d 12 (MS_CTX_FPS_OFF + 32) img (ldp_d 14 (MS_CTX_FPS_OFF + 48) img c)));
          c2 = ldp_x 19 0 img (ldp_x 21 16 img (ldp_x 23 32 img (ldp_x 25 48 img (ldp_x 27 64 img c1))));
          x16 = ld img MS_CTX_SP_OFF
      in ldp_x 29 80 img (set_sp x16 c2))"

definition ms_ctx_make :: "addr \<Rightarrow> addr \<Rightarrow> u64 \<Rightarrow> u64 \<Rightarrow> probe \<Rightarrow> int + probe" where
  "ms_ctx_make ctx stack_top entry userdata m =
     (if stack_top AND 15 \<noteq> 0 then Inl 0x64
      else Inr (m\<lparr>pr_ctx := (pr_ctx m)(ctx :=
        \<lparr>sc_regs = [entry, userdata, 0, 0, 0, 0, 0, 0, 0, 0, 0, code_of Tramp],
         sc_fps = replicate 8 0, sc_sp = stack_top\<rparr>)\<rparr>))"

text \<open>The trampoline, up to its call of the entry function and from there on.\<close>

definition set_lr :: "label \<Rightarrow> probe \<Rightarrow> probe" where
  "set_lr l m = m\<lparr>pr_cpu := set_x 11 (code_of l) (pr_cpu m)\<rparr>"

definition ms_ctx_trampoline :: "probe \<Rightarrow> u64 \<times> presult" where
  "ms_ctx_trampoline m =
     (let c = pr_cpu m; sp = cpu_sp c - 16;
          m1 = m\<lparr>pr_cpu := set_sp sp c, pr_words := (pr_words m)(sp := ms_last_to m)\<rparr>
      in (x_regs c ! 1, jump (x_regs c ! 0) (set_lr TrampBack m1)))"

definition ms_ctx_exit :: "probe \<Rightarrow> presult" where
  "ms_ctx_exit m =
     (let c = pr_cpu m; self = pr_words m (cpu_sp c);
          m1 = m\<lparr>pr_cpu := set_sp (cpu_sp c + 16) c\<rparr>
      in case tab_find self (ms_resume_tab m1) of
           None \<Rightarrow> PTrap 0x65
         | Some return_to \<Rightarrow> ms_ctx_switch self return_to (set_lr TrampGuard m1))"

section \<open>The sentinel probe\<close>

definition probe_fill :: "u64 \<Rightarrow> cpu \<Rightarrow> cpu" where
  "probe_fill tag c =
     c\<lparr>x_regs := map (\<lambda>i. tag + i) [0, 0x100, 0x200, 0x300, 0x400, 0x500, 0x600, 0x700, 0x800, 0x900] @ drop 10 (x_regs c),
       d_regs := map (\<lambda>i. tag + i) [0, 0x100, 0x200, 0x300, 0x400, 0x500, 0x600, 0x700]\<rparr>"

text \<open>A store of zero through the value \<open>p\<close>; the first page is never mapped.\<close>

definition store_zero :: "u64 \<Rightarrow> probe \<Rightarrow> addr + probe" where
  "store_zero p m = (if p < 4096 then Inl p else Inr (m\<lparr>pr_words := (pr_words m)(p := 0)\<rparr>))"

definition probe_check :: "u64 \<Rightarrow> u64 \<Rightarrow> probe \<Rightarrow> addr + probe" where
  "probe_check tag ok m =
     (let c = pr_cpu m; sp = cpu_sp c - 64;
          m1 = m\<lparr>pr_words := (pr_words m)(sp := d_regs c ! 0, sp + 8 := d_regs c ! 1, sp + 16 := d_regs c ! 2,
            sp + 24 := d_regs c ! 3, sp + 32 := d_regs c ! 4, sp + 40 := d_regs c ! 5, sp + 48 := d_regs c ! 6, sp + 56 := d_regs c ! 7)\<rparr>
      in if (\<forall>i \<in> set [0, 1, 2, 3, 4, 5, 6, 7, 8, 9]. x_regs c ! i = tag + 0x100 * of_nat i) \<and>
            (\<forall>i \<in> set [0, 1, 2, 3, 4, 5, 6, 7]. pr_words m1 (sp + 8 * of_nat i) = tag + 0x100 * of_nat i)
         then Inr m1 else store_zero ok m1)"

text \<open>The worker: entry, the loop at label 2, and what follows label 3. \<open>sp_test\<close> is its check of sp.\<close>

definition sp_test :: "probe \<Rightarrow> addr + probe" where
  "sp_test m =
     (let sp = cpu_sp (pr_cpu m)
      in if sp AND 15 = 0 then Inr m else store_zero (pa_sp_ok (pr_args m (pr_words m (sp + 16)))) m)"

definition pworker_done :: "probe \<Rightarrow> presult" where
  "pworker_done m =
     (let arg = pr_args m (pr_words m (cpu_sp (pr_cpu m) + 16))
      in case probe_check (pa_tag arg) (pa_regs_ok arg) m of
           Inl p \<Rightarrow> PFault p
         | Inr m1 \<Rightarrow>
            (case sp_test m1 of
               Inl p \<Rightarrow> PFault p
             | Inr m2 \<Rightarrow>
                let arg' = pr_args m2 (pr_words m2 (cpu_sp (pr_cpu m2) + 16))
                in ms_ctx_switch (pa_self arg') (pa_sched arg') (set_lr WExit m2)))"

definition pworker_loop :: "probe \<Rightarrow> presult" where
  "pworker_loop m =
     (let a = pr_words m (cpu_sp (pr_cpu m) + 16); arg = pr_args m a; left = pa_left arg - 1;
          m1 = m\<lparr>pr_args := (pr_args m)(a := arg\<lparr>pa_counter := pa_counter arg + 1, pa_left := left\<rparr>)\<rparr>
      in if left = 0 then pworker_done m1
         else ms_ctx_switch (pa_self arg) (pa_peer arg) (set_lr WLoop m1))"

definition pworker :: "u64 \<Rightarrow> probe \<Rightarrow> presult" where
  "pworker a m =
     (let c = pr_cpu m; sp = cpu_sp c - 32;
          m1 = m\<lparr>pr_cpu := set_x 10 sp (set_sp sp c),
                 pr_words := (pr_words m)(sp := x_regs c ! 10, sp + 8 := x_regs c ! 11, sp + 16 := a)\<rparr>;
          m2 = m1\<lparr>pr_cpu := probe_fill (pa_tag (pr_args m a)) (pr_cpu m1)\<rparr>
      in case sp_test m2 of Inl p \<Rightarrow> PFault p | Inr m3 \<Rightarrow> pworker_loop m3)"

text \<open>
  The driver. \<open>p_stack\<close> gives the top of a fresh stack, or \<^term>\<open>None\<close> where it exits the process.
\<close>

definition p_stack :: "'w vm_kernel \<Rightarrow> int \<Rightarrow> 'w \<Rightarrow> addr option \<times> 'w" where
  "p_stack K ps w =
     (case k_mmap K 0 (of_int ps + 64 * 1024) PROT_RW False w of
        (Inl e, w1) \<Rightarrow> (None, w1)
      | (Inr p, w1) \<Rightarrow> (Some (p + of_int ps + 64 * 1024), snd (k_mprotect K p (of_int ps) PROT_NONE w1)))"

text \<open>The statics of the probe: the three contexts and the two argument blocks, and their addresses.\<close>

abbreviation (input) p_main :: addr where "p_main \<equiv> 0x8000"
abbreviation (input) p_a :: addr where "p_a \<equiv> 0x8100"
abbreviation (input) p_b :: addr where "p_b \<equiv> 0x8200"
abbreviation (input) pa_addr :: addr where "pa_addr \<equiv> 0x8300"
abbreviation (input) pb_addr :: addr where "pb_addr \<equiv> 0x8340"

definition pa_init :: p_arg where
  "pa_init = \<lparr>pa_counter = 0, pa_left = 2, pa_regs_ok = 1, pa_sp_ok = 1, pa_tag = 0x11111000,
     pa_self = p_a, pa_peer = p_b, pa_sched = p_main\<rparr>"

definition pb_init :: p_arg where
  "pb_init = \<lparr>pa_counter = 0, pa_left = 2, pa_regs_ok = 1, pa_sp_ok = 1, pa_tag = 0x22222000,
     pa_self = p_b, pa_peer = p_a, pa_sched = p_main\<rparr>"

definition worker_ok :: "addr \<Rightarrow> probe \<Rightarrow> bool" where
  "worker_ok a m \<longleftrightarrow> pa_regs_ok (pr_args m a) = 1 \<and> pa_sp_ok (pr_args m a) = 1"

definition probe_score :: "addr \<Rightarrow> probe \<Rightarrow> probe" where
  "probe_score a m = (if \<not> worker_ok a m then m\<lparr>pr_failures := pr_failures m + 1\<rparr> else m)"

fun probe_step :: "label \<Rightarrow> probe \<Rightarrow> presult" where
  "probe_step Tramp m = (case ms_ctx_trampoline m of (arg, Go PaEntry m') \<Rightarrow> pworker arg m' | (arg, Go PbEntry m') \<Rightarrow> pworker arg m' | (_, r) \<Rightarrow> r)"
| "probe_step TrampBack m = ms_ctx_exit m"
| "probe_step TrampGuard m = PTrap 0x66"
| "probe_step WLoop m = pworker_loop m"
| "probe_step WExit m = PTrap 0x70"
| "probe_step MainA m = ms_ctx_switch p_main p_b (set_lr MainB (probe_score pa_addr m))"
| "probe_step MainB m = (let m1 = probe_score pb_addr m in PExit (if pr_failures m1 \<noteq> 0 then 1 else 0) m1)"
| "probe_step l m = PWild (code_of l)"

fun probe_run :: "nat \<Rightarrow> presult \<Rightarrow> presult option" where
  "probe_run 0 r = None"
| "probe_run (Suc n) (Go l m) = probe_run n (probe_step l m)"
| "probe_run (Suc n) r = Some r"

definition ms_ctx_sentinel_probe :: "'w vm_kernel \<Rightarrow> int \<Rightarrow> 'w \<Rightarrow> probe \<Rightarrow> presult" where
  "ms_ctx_sentinel_probe K ps w m =
     (let m0 = m\<lparr>pr_failures := 0\<rparr> in
      case p_stack K ps w of
        (None, w1) \<Rightarrow> PExit 2 m0
      | (Some top_a, w1) \<Rightarrow>
         (case ms_ctx_make p_a top_a (code_of PaEntry) pa_addr m0 of
            Inl t \<Rightarrow> PTrap t
          | Inr m1 \<Rightarrow>
             (case p_stack K ps w1 of
                (None, w2) \<Rightarrow> PExit 2 m1
              | (Some top_b, w2) \<Rightarrow>
                 (case ms_ctx_make p_b top_b (code_of PbEntry) pb_addr m1 of
                    Inl t \<Rightarrow> PTrap t
                  | Inr m2 \<Rightarrow> ms_ctx_switch p_main p_a (set_lr MainA m2)))))"

section \<open>Lemmas\<close>

lemma ms_ctx_asserts_hold: "ms_ctx_asserts"
  by (simp add: ms_ctx_asserts_def ms_ctx_members_def c_sizeof_def c_alignof_def align_up_def Let_def)

text \<open>The spike saves with the stores of the AArch64 backend, at the same offsets of its shorter record.\<close>

lemma ms_ctx_save_words:
  assumes "length (sc_regs r) = 12" and "length (sc_fps r) = 8" and "cpu_shape 12 c"
  shows "stores (a64_save c) (ms_ctx_words r) = ms_ctx_words \<lparr>sc_regs = x_regs c, sc_fps = d_regs c, sc_sp = cpu_sp c\<rparr>"
  using assms(3)
proof (cases rule: cpu_shapeE)
  case c: 1
  show ?thesis
    unfolding ms_ctx_words_def
    by (subst list_nths(3) [OF assms(1)], subst list_nths(2) [OF assms(2)])
      (simp add: a64_save_def stores_def stp_def xr_def dr_def c)
qed

text \<open>The restore half of the switch, load by load at its literal offsets; it has no alignment check.\<close>

lemma spike_restore_words:
  assumes "length (sc_regs r) = 12" and "length (sc_fps r) = 8" and "cpu_shape 12 c"
  shows "spike_restore (ms_ctx_words r) c = \<lparr>x_regs = sc_regs r, d_regs = sc_fps r, cpu_sp = sc_sp r\<rparr>"
  using assms(3)
proof (cases rule: cpu_shapeE)
  case c: 1
  have "spike_restore (ms_ctx_words r) c =
    \<lparr>x_regs = [sc_regs r ! 0, sc_regs r ! 1, sc_regs r ! 2, sc_regs r ! 3, sc_regs r ! 4, sc_regs r ! 5,
        sc_regs r ! 6, sc_regs r ! 7, sc_regs r ! 8, sc_regs r ! 9, sc_regs r ! 10, sc_regs r ! 11],
      d_regs = [sc_fps r ! 0, sc_fps r ! 1, sc_fps r ! 2, sc_fps r ! 3, sc_fps r ! 4, sc_fps r ! 5,
        sc_fps r ! 6, sc_fps r ! 7], cpu_sp = sc_sp r\<rparr>"
    using assms(1,2) by (simp add: spike_restore_def ldp_x_def ldp_d_def set_sp_def ld_def Let_def ms_ctx_words_def nth_append c)
  then show ?thesis
    unfolding list_nths(3) [OF assms(1), symmetric] list_nths(2) [OF assms(2), symmetric] .
qed

lemma label_at_code [simp]: "label_at (code_of l) = Some l"
  by (cases l) (simp_all add: label_at_def)

declare code_of.simps [simp del]

lemma tab_upsert_fresh [simp]:
  "tab_upsert k v (replicate (numeral n) (0, 0)) = Some ((k, v) # replicate (pred_numeral n) (0, 0))"
  by (simp add: numeral_eq_Suc)

lemma probe_run_mono: "probe_run n r = Some q \<Longrightarrow> n \<le> n' \<Longrightarrow> probe_run n' r = Some q"
proof (induction n r arbitrary: n' rule: probe_run.induct)
  case (2 n l m)
  then show ?case by (cases n') simp_all
qed (auto simp: Suc_le_eq elim: less_natE)

text \<open>The registers and the saved record of a worker, between its switches.\<close>

definition tagged :: "u64 \<Rightarrow> u64 list" where
  "tagged tag = [tag, tag + 0x100, tag + 0x200, tag + 0x300, tag + 0x400, tag + 0x500, tag + 0x600, tag + 0x700, tag + 0x800, tag + 0x900]"

definition worker_ctx :: "u64 \<Rightarrow> addr \<Rightarrow> label \<Rightarrow> ms_ctx" where
  "worker_ctx tag x l = \<lparr>sc_regs = tagged tag @ [x, code_of l], sc_fps = take 8 (tagged tag), sc_sp = x\<rparr>"

definition load_ctx :: "ms_ctx \<Rightarrow> cpu" where
  "load_ctx r = \<lparr>x_regs = sc_regs r, d_regs = sc_fps r, cpu_sp = sc_sp r\<rparr>"

definition fresh_ctx :: "label \<Rightarrow> addr \<Rightarrow> addr \<Rightarrow> ms_ctx" where
  "fresh_ctx l a x = \<lparr>sc_regs = [code_of l, a, 0, 0, 0, 0, 0, 0, 0, 0, 0, code_of Tramp], sc_fps = replicate 8 0, sc_sp = x + 48\<rparr>"

lemma worker_ctx_lr [simp]: "sc_regs (worker_ctx tag x l) ! 11 = code_of l" "sc_regs (fresh_ctx l' a x) ! 11 = code_of Tramp"
  by (simp_all add: worker_ctx_def tagged_def fresh_ctx_def)

lemma spike_switch:
  assumes "a \<noteq> 0" and "b \<noteq> 0" and "a \<noteq> b" and "tab_upsert b a (ms_resume_tab m) = Some tab"
    and "sc_regs (pr_ctx m b) ! 11 = code_of l"
  shows "ms_ctx_switch a b m = Go l (m\<lparr>pr_ctx := (pr_ctx m)(a := \<lparr>sc_regs = x_regs (pr_cpu m), sc_fps = d_regs (pr_cpu m),
      sc_sp = cpu_sp (pr_cpu m)\<rparr>), ms_resume_tab := tab, ms_last_from := a, ms_last_to := b, pr_cpu := load_ctx (pr_ctx m b)\<rparr>)"
  using assms by (simp add: ms_ctx_switch_def Let_def jump_def load_ctx_def)

text \<open>A worker's first run: from the trampoline through the frame and the sentinels to its first switch.\<close>

lemma step_start:
  assumes al: "x AND 15 = 0" and cpu: "pr_cpu m = load_ctx (fresh_ctx l a x)" and l: "l \<in> {PaEntry, PbEntry}"
    and arg: "pr_args m a = arg" "pa_left arg = 2" "pa_self arg = self" "pa_peer arg = peer"
    and sw: "self \<noteq> 0" "peer \<noteq> 0" "self \<noteq> peer" "tab_upsert peer self (ms_resume_tab m) = Some tab"
      "sc_regs (pr_ctx m peer) ! 11 = code_of l'"
  shows "\<exists>m'. probe_step Tramp m = Go l' m' \<and> pr_cpu m' = load_ctx (pr_ctx m peer) \<and>
    pr_ctx m' = (pr_ctx m)(self := worker_ctx (pa_tag arg) x WLoop) \<and> ms_resume_tab m' = tab \<and>
    pr_args m' = (pr_args m)(a := arg\<lparr>pa_counter := pa_counter arg + 1, pa_left := 1\<rparr>) \<and> pr_failures m' = pr_failures m \<and>
    pr_words m' (x + 16) = a \<and> (\<forall>z. z \<notin> {x, x + 8, x + 16, x + 32} \<longrightarrow> pr_words m' z = pr_words m z)"
proof -
  define m1 where "m1 = m\<lparr>pr_cpu := \<lparr>x_regs = [code_of l, a, 0, 0, 0, 0, 0, 0, 0, 0, 0, code_of TrampBack], d_regs = replicate 8 0, cpu_sp = x + 32\<rparr>,
    pr_words := (pr_words m)(x + 32 := ms_last_to m)\<rparr>"
  have sp: "x + 48 - 16 = x + 32" "x + 32 - 32 = x" by simp_all
  have t: "ms_ctx_trampoline m = (a, Go l m1)"
    by (simp add: ms_ctx_trampoline_def cpu load_ctx_def fresh_ctx_def Let_def set_lr_def set_x_def set_sp_def jump_def m1_def sp)
  then have "probe_step Tramp m = pworker a m1" using l by auto
  moreover define m2 where "m2 = m1\<lparr>pr_words := (pr_words m1)(x := 0, x + 8 := code_of TrampBack, x + 16 := a),
      pr_cpu := \<lparr>x_regs = tagged (pa_tag arg) @ [x, code_of TrampBack], d_regs = take 8 (tagged (pa_tag arg)), cpu_sp = x\<rparr>\<rparr>"
  have "pworker a m1 = pworker_loop m2"
    using al by (simp add: pworker_def Let_def sp_test_def set_x_def set_sp_def probe_fill_def m1_def m2_def arg tagged_def)
  moreover define m3 where "m3 = set_lr WLoop (m2\<lparr>pr_args := (pr_args m)(a := arg\<lparr>pa_counter := pa_counter arg + 1, pa_left := 1\<rparr>)\<rparr>)"
  have "pworker_loop m2 = ms_ctx_switch self peer m3"
    by (simp add: pworker_loop_def Let_def m2_def m3_def m1_def arg)
  moreover have "ms_resume_tab m3 = ms_resume_tab m" "pr_ctx m3 = pr_ctx m"
    "pr_cpu m3 = \<lparr>x_regs = tagged (pa_tag arg) @ [x, code_of WLoop], d_regs = take 8 (tagged (pa_tag arg)), cpu_sp = x\<rparr>"
    "pr_words m3 (x + 16) = a" "\<forall>z. z \<notin> {x, x + 8, x + 16, x + 32} \<longrightarrow> pr_words m3 z = pr_words m z" "pr_failures m3 = pr_failures m"
    "pr_args m3 = (pr_args m)(a := arg\<lparr>pa_counter := pa_counter arg + 1, pa_left := 1\<rparr>)"
    by (simp_all add: m3_def m2_def m1_def set_lr_def set_x_def tagged_def)
  ultimately show ?thesis
    using spike_switch [OF sw(1-3), of m3 tab l'] sw(4,5) by (simp add: worker_ctx_def)
qed

text \<open>A worker's second run: the sentinels are intact, and it hands over to the driver.\<close>

definition check_area :: "addr \<Rightarrow> addr set" where
  "check_area x = {x - 64, x - 64 + 8, x - 64 + 16, x - 64 + 24, x - 64 + 32, x - 64 + 40, x - 64 + 48, x - 64 + 56}"

lemma probe_check_ok:
  assumes "pr_cpu m = load_ctx (worker_ctx tag x l)"
  shows "\<exists>ws. probe_check tag ok m = Inr (m\<lparr>pr_words := ws\<rparr>) \<and> (\<forall>z. z \<notin> check_area x \<longrightarrow> ws z = pr_words m z)"
proof -
  define z where "z = x - 64"
  show ?thesis
    using assms
    by (intro exI [of _ "(pr_words m)(z := tag, z + 8 := tag + 0x100, z + 16 := tag + 0x200, z + 24 := tag + 0x300,
        z + 32 := tag + 0x400, z + 40 := tag + 0x500, z + 48 := tag + 0x600, z + 56 := tag + 0x700)"])
      (simp add: probe_check_def Let_def load_ctx_def worker_ctx_def tagged_def check_area_def z_def [symmetric])
qed

lemma check_area_arg [simp]: "x + 16 \<notin> check_area x"
proof -
  define z where "z = x - 64"
  have "x + 16 = z + 80" by (simp add: z_def)
  then show ?thesis by (simp add: check_area_def z_def [symmetric])
qed

lemma step_finish:
  assumes al: "x AND 15 = 0" and cpu: "pr_cpu m = load_ctx (worker_ctx (pa_tag arg) x WLoop)" and w: "pr_words m (x + 16) = a"
    and arg: "pr_args m a = arg" "pa_left arg = 1" "pa_self arg = self" "pa_sched arg = sched"
    and sw: "self \<noteq> 0" "sched \<noteq> 0" "self \<noteq> sched" "tab_upsert sched self (ms_resume_tab m) = Some tab"
      "sc_regs (pr_ctx m sched) ! 11 = code_of l'"
  shows "\<exists>m'. probe_step WLoop m = Go l' m' \<and> pr_cpu m' = load_ctx (pr_ctx m sched) \<and>
    pr_ctx m' = (pr_ctx m)(self := worker_ctx (pa_tag arg) x WExit) \<and> ms_resume_tab m' = tab \<and>
    pr_args m' = (pr_args m)(a := arg\<lparr>pa_counter := pa_counter arg + 1, pa_left := 0\<rparr>) \<and> pr_failures m' = pr_failures m \<and>
    (\<forall>z. z \<notin> check_area x \<longrightarrow> pr_words m' z = pr_words m z)"
proof -
  define m1 where "m1 = m\<lparr>pr_args := (pr_args m)(a := arg\<lparr>pa_counter := pa_counter arg + 1, pa_left := 0\<rparr>)\<rparr>"
  have sp: "cpu_sp (pr_cpu m) = x" by (simp add: cpu load_ctx_def worker_ctx_def)
  have "probe_step WLoop m = pworker_done m1"
    by (simp add: pworker_loop_def Let_def sp w arg m1_def)
  moreover obtain ws where c: "probe_check (pa_tag arg) (pa_regs_ok arg) m1 = Inr (m1\<lparr>pr_words := ws\<rparr>)"
    and ws: "\<forall>z. z \<notin> check_area x \<longrightarrow> ws z = pr_words m z"
    using probe_check_ok [of m1 "pa_tag arg" x WLoop "pa_regs_ok arg"] cpu by (auto simp: m1_def)
  define m2 where "m2 = set_lr WExit (m1\<lparr>pr_words := ws\<rparr>)"
  have "pworker_done m1 = ms_ctx_switch self sched m2"
    using c ws al w arg sp by (simp add: pworker_done_def Let_def sp_test_def m1_def m2_def)
  moreover have "ms_resume_tab m2 = ms_resume_tab m" "pr_ctx m2 = pr_ctx m" "pr_words m2 = ws" "pr_failures m2 = pr_failures m"
    "pr_cpu m2 = \<lparr>x_regs = tagged (pa_tag arg) @ [x, code_of WExit], d_regs = take 8 (tagged (pa_tag arg)), cpu_sp = x\<rparr>"
    "pr_args m2 = (pr_args m)(a := arg\<lparr>pa_counter := pa_counter arg + 1, pa_left := 0\<rparr>)"
    using cpu by (simp_all add: m2_def m1_def set_lr_def set_x_def tagged_def load_ctx_def worker_ctx_def)
  ultimately show ?thesis
    using spike_switch [OF sw(1-3), of m2 tab l'] sw(4,5) ws by (simp add: worker_ctx_def)
qed

text \<open>The whole exchange, from the driver's first switch on.\<close>

lemma sentinel_run:
  assumes al: "x AND 15 = 0" "y AND 15 = 0" and len: "length (x_regs (pr_cpu m)) = 12" and tab: "ms_resume_tab m = replicate 64 (0, 0)"
    and args: "pr_args m pa_addr = pa_init" "pr_args m pb_addr = pb_init"
    and ctx: "pr_ctx m p_a = fresh_ctx PaEntry pa_addr x" "pr_ctx m p_b = fresh_ctx PbEntry pb_addr y"
    and f: "pr_failures m = 0"
    and far: "x + 16 \<notin> {y, y + 8, y + 16, y + 32}" "y + 16 \<notin> check_area x"
  shows "\<exists>m'. probe_run 7 (ms_ctx_switch p_main p_a (set_lr MainA m)) = Some (PExit 0 m') \<and>
    pr_cpu m' = set_x 11 (code_of MainB) (pr_cpu m) \<and>
    pa_left (pr_args m' pa_addr) = 0 \<and> pa_left (pr_args m' pb_addr) = 0"
proof -
  define cm where "cm l = \<lparr>sc_regs = (x_regs (pr_cpu m))[11 := code_of l], sc_fps = d_regs (pr_cpu m), sc_sp = cpu_sp (pr_cpu m)\<rparr>" for l
  have cm: "sc_regs (cm l) ! 11 = code_of l" for l using len by (simp add: cm_def)
  define m1 where "m1 = m\<lparr>pr_ctx := (pr_ctx m)(p_main := cm MainA), ms_resume_tab := (p_a, p_main) # replicate 63 (0, 0),
    ms_last_from := p_main, ms_last_to := p_a, pr_cpu := load_ctx (fresh_ctx PaEntry pa_addr x)\<rparr>"
  have s1: "ms_ctx_switch p_main p_a (set_lr MainA m) = Go Tramp m1"
    by (subst spike_switch [where l = Tramp]) (simp_all add: set_lr_def set_x_def tab ctx m1_def cm_def)
  obtain m2 where s2: "probe_step Tramp m1 = Go Tramp m2" "pr_cpu m2 = load_ctx (fresh_ctx PbEntry pb_addr y)"
    "pr_ctx m2 = (pr_ctx m1)(p_a := worker_ctx 0x11111000 x WLoop)" "ms_resume_tab m2 = [(p_a, p_main), (p_b, p_a)] @ replicate 62 (0, 0)"
    "pr_args m2 = (pr_args m)(pa_addr := pa_init\<lparr>pa_counter := 1, pa_left := 1\<rparr>)" "pr_failures m2 = 0" "pr_words m2 (x + 16) = pa_addr"
    using step_start [OF al(1), of m1 PaEntry pa_addr pa_init p_a p_b "[(p_a, p_main), (p_b, p_a)] @ replicate 62 (0, 0)" Tramp]
    by (auto simp: m1_def args ctx f pa_init_def)
  obtain m3 where s3: "probe_step Tramp m2 = Go WLoop m3" "pr_cpu m3 = load_ctx (worker_ctx 0x11111000 x WLoop)"
    "pr_ctx m3 = (pr_ctx m2)(p_b := worker_ctx 0x22222000 y WLoop)" "ms_resume_tab m3 = [(p_a, p_b), (p_b, p_a)] @ replicate 62 (0, 0)"
    "pr_args m3 = (pr_args m2)(pb_addr := pb_init\<lparr>pa_counter := 1, pa_left := 1\<rparr>)" "pr_failures m3 = 0" "pr_words m3 (y + 16) = pb_addr"
    "pr_words m3 (x + 16) = pa_addr"
    using step_start [OF al(2), of m2 PbEntry pb_addr pb_init p_b p_a "[(p_a, p_b), (p_b, p_a)] @ replicate 62 (0, 0)" WLoop] s2 far(1)
    by (auto simp: args pb_init_def)
  obtain m4 where s4: "probe_step WLoop m3 = Go MainA m4" "pr_cpu m4 = load_ctx (cm MainA)"
    "pr_ctx m4 = (pr_ctx m3)(p_a := worker_ctx 0x11111000 x WExit)" "ms_resume_tab m4 = [(p_a, p_b), (p_b, p_a), (p_main, p_a)] @ replicate 61 (0, 0)"
    "pr_args m4 = (pr_args m3)(pa_addr := pa_init\<lparr>pa_counter := 2, pa_left := 0\<rparr>)" "pr_failures m4 = 0" "pr_words m4 (y + 16) = pb_addr"
    using step_finish [OF al(1), of m3 "pa_init\<lparr>pa_counter := 1, pa_left := 1\<rparr>" pa_addr p_a p_main "[(p_a, p_b), (p_b, p_a), (p_main, p_a)] @ replicate 61 (0, 0)" MainA]
      s3 s2 far(2) by (auto simp: pa_init_def m1_def cm)
  define m5 where "m5 = (set_lr MainB m4)\<lparr>pr_ctx := (pr_ctx m4)(p_main := cm MainB), ms_resume_tab := [(p_a, p_b), (p_b, p_main), (p_main, p_a)] @ replicate 61 (0, 0),
    ms_last_from := p_main, ms_last_to := p_b, pr_cpu := load_ctx (worker_ctx 0x22222000 y WLoop)\<rparr>"
  have s5: "probe_step MainA m4 = Go WLoop m5"
    using s4 s3 s2 len by (simp add: probe_score_def worker_ok_def pa_init_def)
      (subst spike_switch [where l = WLoop], simp_all add: set_lr_def set_x_def m5_def cm_def load_ctx_def)
  obtain m6 where s6: "probe_step WLoop m5 = Go MainB m6" "pr_cpu m6 = load_ctx (cm MainB)" "pr_failures m6 = 0"
    "pr_args m6 = (pr_args m4)(pb_addr := pb_init\<lparr>pa_counter := 2, pa_left := 0\<rparr>)"
    using step_finish [OF al(2), of m5 "pb_init\<lparr>pa_counter := 1, pa_left := 1\<rparr>" pb_addr p_b p_main "[(p_a, p_b), (p_b, p_main), (p_main, p_b)] @ replicate 61 (0, 0)" MainB]
      s4 s3 by (auto simp: pb_init_def m5_def set_lr_def cm)
  have s7: "probe_step MainB m6 = PExit 0 m6"
    using s6 by (simp add: Let_def probe_score_def worker_ok_def pb_init_def)
  have "probe_run 7 (Go Tramp m1) = Some (PExit 0 m6)"
    using s2(1) s3(1) s4(1) s5 s6(1) s7 by (simp add: numeral_eq_Suc)
  moreover have "pr_cpu m6 = set_x 11 (code_of MainB) (pr_cpu m)"
    using s6(2) by (simp add: load_ctx_def cm_def set_x_def)
  ultimately show ?thesis using s1 s6(4) s4(5) by auto
qed

text \<open>The two stacks do not overlap.\<close>

lemma mprotect_keeps:
  assumes "posix_vm K V P" and "P dvd unat n" and "k_mprotect K a n p w = (r, w')" and "V w x \<noteq> None"
  shows "V w' x \<noteq> None"
proof -
  have "case r of Inl e \<Rightarrow> 0 < e \<and> (\<forall>x. V w' x = V w x \<or> in_range a n x \<and> V w' x = set_prot p (V w x))
      | Inr _ \<Rightarrow> (\<forall>x. V w' x = (if in_range a n x then set_prot p (V w x) else V w x))"
    using assms(1-3) unfolding posix_vm_def mprotect_law_def by blast
  then have "V w' x = V w x \<or> V w' x = set_prot p (V w x)" by (cases r) (auto split: if_splits)
  then show ?thesis using assms(4) by (auto simp: set_prot_def)
qed

lemma stacks_apart:
  assumes "posix_vm K V P" and "P dvd unat n" and "P dvd unat g"
    and "k_mmap K 0 n p False w = (Inr a, w1)"
    and "k_mmap K 0 n p False (snd (k_mprotect K a g q w1)) = (Inr b, w2)" and "in_range a n x" and "in_range b n y"
  shows "x \<noteq> y"
proof
  assume "x = y"
  obtain r w1' where r: "k_mprotect K a g q w1 = (r, w1')" by (cases "k_mprotect K a g q w1")
  have "V w1' x = None" using mmap_anon_lawD(4) [OF assms(1,2,5)] assms(7) \<open>x = y\<close> by (simp add: r)
  moreover have "V w1 x \<noteq> None" using mmap_anon_lawD(5) [OF assms(1,2,4), of x] assms(6) by simp
  ultimately show False using mprotect_keeps [OF assms(1,3) r] by blast
qed

text \<open>A stack of \<open>n\<close> bytes at \<open>a\<close>, seen from \<open>x\<close>, 48 bytes below its top.\<close>

lemma stack_words:
  assumes "unat a + unat n < 18446744073709551616" and "256 \<le> unat n" and "x = a + n - 48"
  shows "unat x = unat a + unat n - 48" and "in_range a n (x + 16)" and "z \<in> {x, x + 8, x + 16, x + 32} \<Longrightarrow> in_range a n z"
    and "z \<in> check_area x \<Longrightarrow> in_range a n z" and "x + 48 = a + n"
proof -
  have "unat (a + n) = unat a + unat n" using assms(1) by (rule unat_add64)
  then show u: "unat x = unat a + unat n - 48" using assms(2) by (simp add: assms(3) unat_sub64)
  then have up: "unat (x + i) = unat x + unat i" if "unat i \<le> 48" for i
    using that assms(1,2) by (intro unat_add64) linarith
  have dn: "in_range a n (x - 64 + i)" if "unat i \<le> 56" for i
  proof -
    have "unat (x - 64) = unat x - 64" using u assms(2) by (subst unat_sub64) simp_all
    moreover from this have "unat (x - 64 + i) = unat (x - 64) + unat i"
      using that u assms(1,2) by (intro unat_add64) linarith
    ultimately show ?thesis using that u assms(2) unfolding in_range_def by linarith
  qed
  show "in_range a n (x + 16)" using u up [of 16] assms(2) by (simp add: in_range_def)
  show "z \<in> {x, x + 8, x + 16, x + 32} \<Longrightarrow> in_range a n z"
    using u up [of 8] up [of 16] up [of 32] assms(2) by (auto simp: in_range_def)
  show "z \<in> check_area x \<Longrightarrow> in_range a n z"
    using dn [of 0] dn [of 8] dn [of 16] dn [of 24] dn [of 32] dn [of 40] dn [of 48] dn [of 56]
    unfolding check_area_def by (elim insertE emptyE) simp_all
  show "x + 48 = a + n" by (simp add: assms(3))
qed

text \<open>
  A sentinel that drifted is not reported: the worker stores through the value of \<open>regs_ok\<close>, which
  is 1, and faults.
\<close>

lemma probe_failure_faults:
  assumes "arg = pr_args m (pr_words m (cpu_sp (pr_cpu m) + 16))" and "pa_regs_ok arg = 1"
    and "i < 10" and "x_regs (pr_cpu m) ! i \<noteq> pa_tag arg + 0x100 * of_nat i"
  shows "pworker_done m = PFault 1"
proof -
  have "i \<in> set [0, 1, 2, 3, 4, 5, 6, 7, 8, 9]" using assms(3) by auto
  then have "\<not> (\<forall>i \<in> set [0, 1, 2, 3, 4, 5, 6, 7, 8, 9]. x_regs (pr_cpu m) ! i = pa_tag arg + 0x100 * of_nat i)"
    using assms(4) by blast
  then have "probe_check (pa_tag arg) (pa_regs_ok arg) m = Inl 1"
    unfolding probe_check_def Let_def using assms(2) by (simp only: simp_thms if_False) (simp add: store_zero_def)
  then show ?thesis using assms(1) by (simp add: pworker_done_def Let_def)
qed

section \<open>Properties\<close>

text \<open>
  (C40) The sentinel probe ends, and passes. With a page size that is a multiple of 16 and divides
  64 KiB, and two stacks from the kernel, at most seven blocks run from the driver's first switch to its exit
  with 0: both workers have crossed the switch in both directions and found x19 to x28 and d8 to
  d15 as they left them, and the driver has its own callee-saved registers and stack pointer back.
\<close>
theorem sentinel_probe_passes:
  assumes "posix_vm K V (nat ps)" and "0 < ps" and "16 dvd nat ps" and "nat ps dvd 65536"
    and "k_mmap K 0 (of_int ps + 64 * 1024) PROT_RW False w = (Inr a, w1)"
    and "k_mmap K 0 (of_int ps + 64 * 1024) PROT_RW False (snd (k_mprotect K a (of_int ps) PROT_NONE w1)) = (Inr b, w2)"
    and "length (x_regs (pr_cpu m)) = 12" and "ms_resume_tab m = replicate 64 (0, 0)"
    and "pr_args m pa_addr = pa_init" and "pr_args m pb_addr = pb_init"
  shows "\<exists>m'. (\<forall>n \<ge> 7. probe_run n (ms_ctx_sentinel_probe K ps w m) = Some (PExit 0 m')) \<and>
    pr_cpu m' = set_x 11 (code_of MainB) (pr_cpu m) \<and>
    pa_left (pr_args m' pa_addr) = 0 \<and> pa_left (pr_args m' pb_addr) = 0"
proof -
  define n where "n = (of_int ps + 64 * 1024 :: u64)"
  define x where "x = a + n - 48" define y where "y = b + n - 48"
  have ple: "nat ps \<le> 65536" using assms(4) by (rule dvd_imp_le) simp
  then have up: "unat (of_int ps :: u64) = nat ps" using assms(2) by (intro unat_of_int64) auto
  have un: "unat n = nat ps + 65536" unfolding n_def using up ple by (subst unat_add64) simp_all
  have pn: "nat ps dvd unat n" "nat ps dvd unat (of_int ps :: u64)" using assms(4) by (simp_all add: un up)
  note ma = assms(5) [folded n_def] and mb = assms(6) [folded n_def]
  note la = mmap_anon_lawD [OF assms(1) pn(1) ma] and lb = mmap_anon_lawD [OF assms(1) pn(1) mb]
  have n256: "256 \<le> unat n" by (simp add: un)
  note wa = stack_words [OF la(3) n256 x_def] and wb = stack_words [OF lb(3) n256 y_def]
  note apart = stacks_apart [OF assms(1) pn ma mb]
  have d16: "16 dvd unat a" "16 dvd unat b" "16 dvd unat n"
    using la(2) lb(2) pn(1) assms(3) by (auto intro: dvd_trans)
  have "16 dvd unat x" "16 dvd unat y" unfolding wa(1) wb(1) using d16 by (intro dvd_diff_nat dvd_add; simp)+
  then have al: "x AND 15 = 0" "y AND 15 = 0" by (simp_all add: low4_zero)
  have "16 dvd unat (a + n)" "16 dvd unat (b + n)"
    using d16 unat_add64 [OF la(3)] unat_add64 [OF lb(3)] by simp_all
  then have tops: "(a + n) AND 15 = 0" "(b + n) AND 15 = 0" by (simp_all add: low4_zero)
  have far: "x + 16 \<notin> {y, y + 8, y + 16, y + 32}" "y + 16 \<notin> check_area x"
    using apart [OF wa(2)] wb(3) apart [OF wa(4)] wb(2) by blast+
  define m2 where "m2 = m\<lparr>pr_failures := 0, pr_ctx := (pr_ctx m)(p_a := fresh_ctx PaEntry pa_addr x, p_b := fresh_ctx PbEntry pb_addr y)\<rparr>"
  have pt: "p + of_int ps + 64 * 1024 = p + n" for p :: addr by (simp add: n_def add.assoc)
  have ps: "p_stack K ps w = (Some (a + n), snd (k_mprotect K a (of_int ps) PROT_NONE w1))"
    "\<exists>w3. p_stack K ps (snd (k_mprotect K a (of_int ps) PROT_NONE w1)) = (Some (b + n), w3)"
    by (simp_all only: p_stack_def n_def [symmetric] ma mb prod.case sum.case pt) simp
  have start: "ms_ctx_sentinel_probe K ps w m = ms_ctx_switch p_main p_a (set_lr MainA m2)"
    using tops wa(5) wb(5) ps
    by (auto simp: ms_ctx_sentinel_probe_def ms_ctx_make_def Let_def m2_def fresh_ctx_def)
  obtain m' where m': "probe_run 7 (ms_ctx_sentinel_probe K ps w m) = Some (PExit 0 m')"
    "pr_cpu m' = set_x 11 (code_of MainB) (pr_cpu m2)" "pa_left (pr_args m' pa_addr) = 0" "pa_left (pr_args m' pb_addr) = 0"
    using sentinel_run [OF al, of m2] far assms(7-10) by (auto simp: start m2_def)
  then show ?thesis
    using probe_run_mono [OF m'(1)] by (intro exI [of _ m']) (auto simp: m2_def)
qed

section \<open>Witnesses\<close>

definition probe_boot :: probe where
  "probe_boot = \<lparr>pr_cpu = demo_cpu, pr_ctx = (\<lambda>_. \<lparr>sc_regs = replicate 12 0, sc_fps = replicate 8 0, sc_sp = 0\<rparr>),
     ms_resume_tab = replicate 64 (0, 0), ms_last_from = 0, ms_last_to = 0, pr_words = (\<lambda>_. 0),
     pr_args = (\<lambda>_. pa_init)(pb_addr := pb_init), pr_failures = 0\<rparr>"

theorem sentinel_probe_passes_witness:
  "\<exists>m'. probe_run 7 (ms_ctx_sentinel_probe (flat_kernel (2 ^ 40)) 4096 (16, \<lambda>_. None) probe_boot) = Some (PExit 0 m')"
proof -
  let ?K = "flat_kernel (2 ^ 40)"
  obtain w1 where 1: "k_mmap ?K 0 (of_int 4096 + 64 * 1024) PROT_RW False (16, \<lambda>_. None) = (Inr 65536, w1)" and "fst w1 = 33"
    by (simp add: flat_kernel_def Let_def)
  then have "fst (snd (k_mprotect ?K 65536 (of_int 4096) PROT_NONE w1)) = 33"
    by (simp add: flat_kernel_def)
  then obtain w2 where 2: "k_mmap ?K 0 (of_int 4096 + 64 * 1024) PROT_RW False
      (snd (k_mprotect ?K 65536 (of_int 4096) PROT_NONE w1)) = (Inr 135168, w2)"
    by (cases "snd (k_mprotect ?K 65536 (of_int 4096) PROT_NONE w1)") (simp add: flat_kernel_def Let_def)
  have vm: "posix_vm ?K flat_view (nat 4096)" using flat_kernel_posix by simp
  show ?thesis
    using sentinel_probe_passes [OF vm _ _ _ 1 2, of probe_boot]
    by (auto simp: probe_boot_def demo_cpu_def)
qed

end
